theory Spec2Isabelle
  imports Main
begin

section \<open>Texts, characters and pointers\<close>

text \<open>
  A C \<^verbatim>\<open>text\<close> value (the type \<open>pg_text\<close>) is the sequence of its characters in
  the database encoding. Each character is its lead byte followed by its continuation
  bytes, so a character is never empty, as with \<open>pg_mblen\<close>, which never returns less than
  one. The character count of a text is the length of the sequence and its byte length is
  the number of bytes of all characters.

  A \<open>const char *\<close> into the data of a text always stands at the first byte of a character
  (or at the end); it is modelled by the index of that character. Moving such a pointer
  forward by the byte width of the character it stands at is the successor of the index.

  Lengths, loop counters, array indices and byte widths, which are never negative and
  stay far below the range of a C \<open>int\<close>, are \<open>nat\<close>. The row the source calls
  \<^verbatim>\<open>curr\<close> is \<open>cur\<close> here.
\<close>

datatype mbchar = MBChar (lead_byte: char) (cont_bytes: "char list")

type_synonym pg_text = "mbchar list"

definition mb_bytes :: "mbchar \<Rightarrow> char list" where
  "mb_bytes c = lead_byte c # cont_bytes c"

text \<open>The bytes from the character at index \<open>p\<close> on, and the C expression \<open>p[k]\<close>.\<close>

definition bytes_from :: "pg_text \<Rightarrow> nat \<Rightarrow> char list" where
  "bytes_from txt p = concat (map mb_bytes (drop p txt))"

definition deref :: "pg_text \<Rightarrow> nat \<Rightarrow> nat \<Rightarrow> char" where
  "deref txt p k = bytes_from txt p ! k"

text \<open>
  Modelled from the spec: the helpers of the host system that are not part of the
  file, \<open>VARSIZE_ANY_EXHDR\<close> (byte length), \<open>pg_mbstrlen_with_len\<close> (character count),
  \<open>pg_mblen\<close> (byte width of the character a pointer stands at) and \<open>rest_of_char_same\<close>
  (the full byte spans of two characters of the same width agree).
\<close>

definition VARSIZE_ANY_EXHDR :: "pg_text \<Rightarrow> nat" where
  "VARSIZE_ANY_EXHDR txt = length (bytes_from txt 0)"

definition pg_mbstrlen_with_len :: "pg_text \<Rightarrow> nat" where
  "pg_mbstrlen_with_len txt = length txt"

definition pg_mblen :: "pg_text \<Rightarrow> nat \<Rightarrow> nat" where
  "pg_mblen txt p = length (mb_bytes (txt ! p))"

definition rest_of_char_same :: "pg_text \<Rightarrow> nat \<Rightarrow> pg_text \<Rightarrow> nat \<Rightarrow> nat \<Rightarrow> bool" where
  "rest_of_char_same s x t y len = list_all (\<lambda>k. deref s x k = deref t y k) [0..<len]"

text \<open>
  A C \<open>int\<close> has 32 bits: it is an \<open>int\<close> from \<open>-2147483648\<close> to \<open>2147483647\<close>. Every sum,
  difference and product of the source that involves a cost, the bound or the value of a
  cell is brought back into that range by \<open>wrap\<close>, the two's complement wrap-around.
  Signed overflow is undefined in C; the theorems that state a value have hypotheses
  under which \<open>wrap\<close> changes nothing, and so hold whatever an overflow does. Sums and
  differences of lengths, counters and column indices alone, which the length check keeps
  below 512 in absolute value, are written without \<open>wrap\<close>.
\<close>

definition wrap :: "int \<Rightarrow> int" where
  "wrap x = (x + 2147483648) mod 4294967296 - 2147483648"

text \<open>
  \<open>palloc\<close> and \<open>malloc\<close> hand out memory whose contents are arbitrary: the contents are
  a parameter \<open>mem\<close> of the entry points, and \<open>palloc mem k\<close> is a fresh block of \<open>k\<close> cells,
  each of which holds some C \<open>int\<close>.
\<close>

definition palloc :: "(nat \<Rightarrow> int) \<Rightarrow> nat \<Rightarrow> int list" where
  "palloc mem k = map (\<lambda>a. wrap (mem a)) [0..<k]"

text \<open>
  \<open>InputTooLong\<close> is the error the source raises. The other two are not raised: they
  stand for a division by zero and for a store outside an allocated block, where the
  behaviour of the C program is undefined.
\<close>

datatype error = InputTooLong nat | DivisionByZero | OutOfBounds

definition MAX_DAMERAU_LEVENSHTEIN_STRLEN :: nat where
  "MAX_DAMERAU_LEVENSHTEIN_STRLEN = 255"

text \<open>C division truncates towards zero and is undefined for a zero divisor.\<close>

definition c_div :: "int \<Rightarrow> int \<Rightarrow> error + int" where
  "c_div a b = (if b = 0 then Inl DivisionByZero else Inr (sgn a * sgn b * (\<bar>a\<bar> div \<bar>b\<bar>)))"

section \<open>The two-row engine\<close>

text \<open>
  The table \<open>s_char_len\<close> of the byte widths of the characters of \<open>s\<close>, with a final 0; it is
  built only if one of the two texts has a multi-byte character, and is \<open>NULL\<close> otherwise.
\<close>

definition build_s_char_len :: "pg_text \<Rightarrow> pg_text \<Rightarrow> nat list option" where
  "build_s_char_len s t =
     (let s_bytes = VARSIZE_ANY_EXHDR s; t_bytes = VARSIZE_ANY_EXHDR t;
          m = pg_mbstrlen_with_len s; n = pg_mbstrlen_with_len t
      in if m \<noteq> s_bytes \<or> n \<noteq> t_bytes then Some (map (pg_mblen s) [0..<m] @ [0]) else None)"

text \<open>
  The test of the inner loop whether the character at \<open>x\<close> equals the one at \<open>y\<close>: with the
  table, the last bytes, then the widths, then the remaining bytes; without it (both texts
  single-byte throughout), the bytes \<open>*x\<close> and \<open>*y\<close>.
\<close>

definition char_same :: "nat list option \<Rightarrow> pg_text \<Rightarrow> nat \<Rightarrow> pg_text \<Rightarrow> nat \<Rightarrow> nat \<Rightarrow> nat \<Rightarrow> bool" where
  "char_same s_char_len s x t y y_char_len i =
     (case s_char_len of
        Some tbl \<Rightarrow>
          (let x_char_len = tbl ! (i - 1)
           in deref s x (x_char_len - 1) = deref t y (y_char_len - 1) \<and>
              x_char_len = y_char_len \<and>
              (x_char_len = 1 \<or> rest_of_char_same s x t y x_char_len))
      | None \<Rightarrow> deref s x 0 = deref t y 0)"

text \<open>The first loop: \<open>prev[i] = i * del_c\<close> for \<open>i\<close> from \<open>START_COLUMN\<close> below \<open>STOP_COLUMN\<close>.\<close>

function init_row :: "int \<Rightarrow> nat \<Rightarrow> nat \<Rightarrow> int list \<Rightarrow> int list" where
  "init_row del_c STOP_COLUMN i prev =
     (if i < STOP_COLUMN
      then init_row del_c STOP_COLUMN (i + 1) (prev[i := wrap (int i * del_c)])
      else prev)"
  by pat_completeness auto
termination
  by (relation "measure (\<lambda>(del_c, STOP_COLUMN, i, prev). STOP_COLUMN - i)") auto

text \<open>
  The inner loop over the columns \<open>i\<close> below \<open>STOP_COLUMN\<close>. The source has it twice, under
  \<open>if (s_char_len != NULL)\<close>. The two copies differ in the character test, which is
  \<open>char_same\<close> here, and in the substitution: with the table it is \<open>prev[i - 1]\<close> itself on
  a match and \<open>prev[i - 1] + sub_c\<close> otherwise, without the table it is the sum of
  \<open>prev[i - 1]\<close> and of 0 or \<open>sub_c\<close>.
\<close>

function fill_row ::
  "nat list option \<Rightarrow> pg_text \<Rightarrow> pg_text \<Rightarrow> nat \<Rightarrow> nat \<Rightarrow> int \<Rightarrow> int \<Rightarrow> int \<Rightarrow> int list \<Rightarrow> nat
     \<Rightarrow> nat \<Rightarrow> nat \<Rightarrow> int list \<Rightarrow> int list" where
  "fill_row s_char_len s t y y_char_len ins_c del_c sub_c prev STOP_COLUMN i x cur =
     (if i < STOP_COLUMN then
        (let ins = wrap (prev ! i + ins_c);
             del = wrap (cur ! (i - 1) + del_c);
             sub = (case s_char_len of
                      Some tbl \<Rightarrow>
                        (if char_same s_char_len s x t y y_char_len i then prev ! (i - 1)
                         else wrap (prev ! (i - 1) + sub_c))
                    | None \<Rightarrow>
                        wrap (prev ! (i - 1) +
                              (if char_same s_char_len s x t y y_char_len i then 0 else sub_c)))
         in fill_row s_char_len s t y y_char_len ins_c del_c sub_c prev STOP_COLUMN
              (i + 1) (x + 1) (cur[i := min (min ins del) sub]))
      else cur)"
  by pat_completeness auto
termination
  by (relation "measure (\<lambda>(s_char_len, s, t, y, y_char_len, ins_c, del_c, sub_c, prev,
                           STOP_COLUMN, i, x, cur). STOP_COLUMN - i)") auto

text \<open>
  The loop over the rows without \<open>DAMERAU_LEVENSHTEIN_LESS_EQUAL\<close>: \<open>START_COLUMN\<close> is 0 and
  \<open>STOP_COLUMN\<close> is \<open>m\<close>. Here \<open>m\<close> and \<open>n\<close> are the incremented values. The rows are swapped by
  exchanging the two arguments; the value returned is \<open>prev[m - 1]\<close>.
\<close>

function rows_loop ::
  "nat list option \<Rightarrow> pg_text \<Rightarrow> pg_text \<Rightarrow> nat \<Rightarrow> int \<Rightarrow> int \<Rightarrow> int \<Rightarrow> nat \<Rightarrow> nat
     \<Rightarrow> nat \<Rightarrow> nat \<Rightarrow> int list \<Rightarrow> int list \<Rightarrow> int" where
  "rows_loop s_char_len s t t_bytes ins_c del_c sub_c m n j y prev cur =
     (if j < n then
        (let x = 0;
             y_char_len = (if n \<noteq> t_bytes + 1 then pg_mblen t y else 1);
             cur = cur[0 := wrap (int j * ins_c)];
             cur = fill_row s_char_len s t y y_char_len ins_c del_c sub_c prev m 1 x cur
         in rows_loop s_char_len s t t_bytes ins_c del_c sub_c m n (j + 1) (y + 1) cur prev)
      else prev ! (m - 1))"
  by pat_completeness auto
termination
  by (relation "measure (\<lambda>(s_char_len, s, t, t_bytes, ins_c, del_c, sub_c, m, n, j, y,
                           prev, cur). n - j)") auto

definition dameraulevenshtein_internal ::
  "(nat \<Rightarrow> int) \<Rightarrow> pg_text \<Rightarrow> pg_text \<Rightarrow> int \<Rightarrow> int \<Rightarrow> int \<Rightarrow> int \<Rightarrow> error + int" where
  "dameraulevenshtein_internal mem s t ins_c del_c sub_c trans_c =
     (let t_bytes = VARSIZE_ANY_EXHDR t;
          m = pg_mbstrlen_with_len s;
          n = pg_mbstrlen_with_len t
      in if m = 0 then Inr (wrap (int n * ins_c))
         else if n = 0 then Inr (wrap (int m * del_c))
         else if m > MAX_DAMERAU_LEVENSHTEIN_STRLEN \<or> n > MAX_DAMERAU_LEVENSHTEIN_STRLEN
           then Inl (InputTooLong MAX_DAMERAU_LEVENSHTEIN_STRLEN)
         else
           (let s_char_len = build_s_char_len s t;
                m = m + 1;
                n = n + 1;
                buf = palloc mem (2 * m);
                prev = take m buf;
                cur = drop m buf;
                prev = init_row del_c m 0 prev
            in Inr (rows_loop s_char_len s t t_bytes ins_c del_c sub_c m n 1 0 prev cur)))"

section \<open>The two-row engine with a bound\<close>

text \<open>
  The start of the bounded variant, before any buffer is allocated: either the bound is
  impossibly tight and \<open>max_d + 1\<close> is returned at once, or the computation proceeds with the
  values of \<open>max_d\<close>, \<open>sub_c\<close> and \<open>stop_column\<close> set there. The stop column is a C \<open>int\<close>
  here: it comes from a quotient of values and is negative after some overflows.
\<close>

datatype bound_setup = Return_now int | Proceed int int int

definition init_window :: "nat \<Rightarrow> nat \<Rightarrow> int \<Rightarrow> int \<Rightarrow> int \<Rightarrow> int \<Rightarrow> error + bound_setup" where
  "init_window m n ins_c del_c sub_c max_d =
     (let stop_column = int m + 1
      in if max_d \<ge> 0 then
           (let net_inserts = int n - int m;
                min_theo_d = (if net_inserts < 0 then wrap (- net_inserts * del_c)
                              else wrap (net_inserts * ins_c))
            in if min_theo_d > max_d then Inr (Return_now (wrap (max_d + 1)))
               else
                 (let sub_c = (if wrap (ins_c + del_c) < sub_c then wrap (ins_c + del_c)
                               else sub_c);
                      max_theo_d = wrap (min_theo_d + wrap (sub_c * int (min m n)))
                  in if max_d \<ge> max_theo_d then Inr (Proceed (- 1) sub_c stop_column)
                     else if wrap (ins_c + del_c) > 0 then
                       (let slack_d = wrap (max_d - min_theo_d);
                            best_column = (if net_inserts < 0 then - net_inserts else 0)
                        in case c_div slack_d (wrap (ins_c + del_c)) of
                             Inl e \<Rightarrow> Inl e
                           | Inr q \<Rightarrow>
                               (let stop_column = wrap (wrap (best_column + q) + 1)
                                in Inr (Proceed max_d sub_c
                                     (if stop_column > int m then int m + 1 else stop_column))))
                     else Inr (Proceed max_d sub_c stop_column)))
         else Inr (Proceed max_d sub_c stop_column))"

text \<open>The loop that slides the stop column left (\<open>prev\<close> is the row just filled).\<close>

function slide_stop :: "int \<Rightarrow> int \<Rightarrow> int \<Rightarrow> int \<Rightarrow> int list \<Rightarrow> nat \<Rightarrow> nat" where
  "slide_stop ins_c del_c max_d zp prev stop_column =
     (if stop_column > 0 then
        (let ii = stop_column - 1;
             net_inserts = int ii - zp
         in if wrap (prev ! ii + (if net_inserts > 0 then wrap (net_inserts * ins_c)
                                  else wrap (- net_inserts * del_c))) \<le> max_d
            then stop_column
            else slide_stop ins_c del_c max_d zp prev (stop_column - 1))
      else stop_column)"
  by pat_completeness auto
termination
  by (relation "measure (\<lambda>(ins_c, del_c, max_d, zp, prev, stop_column). stop_column)") auto

text \<open>
  The loop that slides the start column right. A column that is dropped is set to
  \<open>max_d + 1\<close> in both rows, and \<open>s_data\<close> moves on by one character once the start column
  is not 0: the bytes added there, \<open>s_char_len[start_column - 1]\<close> or 1, are the width of
  the character \<open>s_data\<close> stands at, which is character \<open>start_column - 1\<close> whenever the
  start column is not 0 (part of \<open>window_inv\<close> below).
\<close>

function slide_start ::
  "int \<Rightarrow> int \<Rightarrow> int \<Rightarrow> int \<Rightarrow> nat \<Rightarrow> int list \<times> int list \<times> nat \<times> nat
     \<Rightarrow> int list \<times> int list \<times> nat \<times> nat" where
  "slide_start ins_c del_c max_d zp stop_column (prev, cur, start_column, s_data) =
     (if start_column < stop_column then
        (let net_inserts = int start_column - zp
         in if wrap (prev ! start_column + (if net_inserts > 0 then wrap (net_inserts * ins_c)
                                            else wrap (- net_inserts * del_c))) \<le> max_d
            then (prev, cur, start_column, s_data)
            else slide_start ins_c del_c max_d zp stop_column
                   (prev[start_column := wrap (max_d + 1)], cur[start_column := wrap (max_d + 1)],
                    start_column + 1, if start_column \<noteq> 0 then s_data + 1 else s_data))
      else (prev, cur, start_column, s_data))"
  by pat_completeness auto
termination
  by (relation "measure (\<lambda>(ins_c, del_c, max_d, zp, stop_column, prev, cur, start_column,
                           s_data). stop_column - start_column)") auto

text \<open>
  One pass of the loop over the rows, for row \<open>j\<close> with \<open>y\<close> at character \<open>j - 1\<close> of \<open>t\<close>, in
  two parts. The state is \<open>(prev, cur, start_column, stop_column, s_data)\<close>.

  The first part moves the stop column right by one unless it is at the right end, sets
  \<open>curr[0]\<close> if the start column is 0, fills the row between the two columns and swaps
  the rows.
\<close>

type_synonym window_state = "int list \<times> int list \<times> nat \<times> nat \<times> nat"

definition fill_pass ::
  "nat list option \<Rightarrow> pg_text \<Rightarrow> pg_text \<Rightarrow> nat \<Rightarrow> int \<Rightarrow> int \<Rightarrow> int \<Rightarrow> int \<Rightarrow> nat \<Rightarrow> nat
     \<Rightarrow> nat \<Rightarrow> nat \<Rightarrow> window_state \<Rightarrow> window_state" where
  "fill_pass s_char_len s t t_bytes ins_c del_c sub_c max_d m n j y st =
     (case st of (prev, cur, start_column, stop_column, s_data) \<Rightarrow>
        (let x = s_data;
             y_char_len = (if n \<noteq> t_bytes + 1 then pg_mblen t y else 1);
             (prev, stop_column) =
               (if stop_column < m then (prev[stop_column := wrap (max_d + 1)], stop_column + 1)
                else (prev, stop_column));
             (cur, i) =
               (if start_column = 0 then (cur[0 := wrap (int j * ins_c)], 1)
                else (cur, start_column));
             cur = fill_row s_char_len s t y y_char_len ins_c del_c sub_c prev stop_column
                      i x cur;
             (prev, cur) = (cur, prev)
         in (prev, cur, start_column, stop_column, s_data)))"

text \<open>
  The second part, which the source runs if \<open>max_d >= 0\<close>: it slides the stop column left
  and then the start column right.
\<close>

definition slide_pass ::
  "int \<Rightarrow> int \<Rightarrow> int \<Rightarrow> nat \<Rightarrow> nat \<Rightarrow> nat \<Rightarrow> window_state \<Rightarrow> window_state" where
  "slide_pass ins_c del_c max_d m n j st =
     (case st of (prev, cur, start_column, stop_column, s_data) \<Rightarrow>
        (let zp = int j - (int n - int m);
             stop_column = slide_stop ins_c del_c max_d zp prev stop_column;
             (prev, cur, start_column, s_data) =
               slide_start ins_c del_c max_d zp stop_column (prev, cur, start_column, s_data)
         in (prev, cur, start_column, stop_column, s_data)))"

text \<open>
  The whole pass: its result is either the value returned from inside the loop, when the
  two columns cross (\<open>Inl\<close>), or the state at the end of the pass.
\<close>

definition window_row ::
  "nat list option \<Rightarrow> pg_text \<Rightarrow> pg_text \<Rightarrow> nat \<Rightarrow> int \<Rightarrow> int \<Rightarrow> int \<Rightarrow> int \<Rightarrow> nat \<Rightarrow> nat
     \<Rightarrow> nat \<Rightarrow> nat \<Rightarrow> window_state \<Rightarrow> int + window_state" where
  "window_row s_char_len s t t_bytes ins_c del_c sub_c max_d m n j y st =
     (let st = fill_pass s_char_len s t t_bytes ins_c del_c sub_c max_d m n j y st
      in if max_d \<ge> 0 then
           (let st = slide_pass ins_c del_c max_d m n j st
            in case st of (prev, cur, start_column, stop_column, s_data) \<Rightarrow>
                 if start_column \<ge> stop_column then Inl (wrap (max_d + 1)) else Inr st)
         else Inr st)"

function window_rows ::
  "nat list option \<Rightarrow> pg_text \<Rightarrow> pg_text \<Rightarrow> nat \<Rightarrow> int \<Rightarrow> int \<Rightarrow> int \<Rightarrow> int \<Rightarrow> nat \<Rightarrow> nat
     \<Rightarrow> nat \<Rightarrow> nat \<Rightarrow> window_state \<Rightarrow> int" where
  "window_rows s_char_len s t t_bytes ins_c del_c sub_c max_d m n j y st =
     (if j < n then
        (case window_row s_char_len s t t_bytes ins_c del_c sub_c max_d m n j y st of
           Inl d \<Rightarrow> d
         | Inr st' \<Rightarrow>
             window_rows s_char_len s t t_bytes ins_c del_c sub_c max_d m n (j + 1) (y + 1) st')
      else (case st of (prev, cur, start_column, stop_column, s_data) \<Rightarrow> prev ! (m - 1)))"
  by pat_completeness auto
termination
  by (relation "measure (\<lambda>(s_char_len, s, t, t_bytes, ins_c, del_c, sub_c, max_d, m, n, j,
                           y, st). n - j)") auto

text \<open>The state in which the loop over the rows is entered.\<close>

definition window_start ::
  "(nat \<Rightarrow> int) \<Rightarrow> nat \<Rightarrow> int \<Rightarrow> nat \<Rightarrow> window_state" where
  "window_start mem m del_c stop_column =
     (let start_column = 0;
          buf = palloc mem (2 * m);
          prev = take m buf;
          cur = drop m buf;
          prev = init_row del_c stop_column start_column prev
      in (prev, cur, start_column, stop_column, 0))"

text \<open>
  The bounded variant. With a negative stop column the first loop does nothing and the
  first pass over a row, which a non-empty \<open>t\<close> always has, begins with the store
  \<open>prev[stop_column] = max_d + 1\<close> in front of the block: the call ends there with
  \<open>OutOfBounds\<close>. Otherwise the stop column is an index of the rows.
\<close>

definition dameraulevenshtein_less_equal_internal ::
  "(nat \<Rightarrow> int) \<Rightarrow> pg_text \<Rightarrow> pg_text \<Rightarrow> int \<Rightarrow> int \<Rightarrow> int \<Rightarrow> int \<Rightarrow> int \<Rightarrow> error + int" where
  "dameraulevenshtein_less_equal_internal mem s t ins_c del_c sub_c trans_c max_d =
     (let t_bytes = VARSIZE_ANY_EXHDR t;
          m = pg_mbstrlen_with_len s;
          n = pg_mbstrlen_with_len t
      in if m = 0 then Inr (wrap (int n * ins_c))
         else if n = 0 then Inr (wrap (int m * del_c))
         else if m > MAX_DAMERAU_LEVENSHTEIN_STRLEN \<or> n > MAX_DAMERAU_LEVENSHTEIN_STRLEN
           then Inl (InputTooLong MAX_DAMERAU_LEVENSHTEIN_STRLEN)
         else
           (case init_window m n ins_c del_c sub_c max_d of
              Inl e \<Rightarrow> Inl e
            | Inr (Return_now d) \<Rightarrow> Inr d
            | Inr (Proceed max_d sub_c stop_column) \<Rightarrow>
                if stop_column < 0 then Inl OutOfBounds
                else
                  (let s_char_len = build_s_char_len s t;
                       m = m + 1;
                       n = n + 1
                   in Inr (window_rows s_char_len s t t_bytes ins_c del_c sub_c max_d m n 1 0
                             (window_start mem m del_c (nat stop_column))))))"

text \<open>
  The states of the loop over the rows in a run of the bounded variant:
  \<open>window_reaches mem s t ins_c del_c sub_c max_d B sc j st\<close> says that the call with these
  arguments, after the start has set \<open>max_d\<close> to \<open>B\<close> and \<open>sub_c\<close> to \<open>sc\<close>, comes to the head of
  the loop with the row counter \<open>j\<close> in the state \<open>st\<close>.
\<close>

inductive window_reaches ::
  "(nat \<Rightarrow> int) \<Rightarrow> pg_text \<Rightarrow> pg_text \<Rightarrow> int \<Rightarrow> int \<Rightarrow> int \<Rightarrow> int \<Rightarrow> int \<Rightarrow> int \<Rightarrow> nat
     \<Rightarrow> window_state \<Rightarrow> bool"
  for mem s t ins_c del_c sub_c max_d B sc where
  reaches_first:
    "s \<noteq> [] \<Longrightarrow> t \<noteq> [] \<Longrightarrow>
     \<not> (length s > MAX_DAMERAU_LEVENSHTEIN_STRLEN \<or> length t > MAX_DAMERAU_LEVENSHTEIN_STRLEN) \<Longrightarrow>
     init_window (length s) (length t) ins_c del_c sub_c max_d = Inr (Proceed B sc stop_column) \<Longrightarrow>
     \<not> stop_column < 0 \<Longrightarrow>
     window_reaches mem s t ins_c del_c sub_c max_d B sc 1
       (window_start mem (length s + 1) del_c (nat stop_column))"
| reaches_next:
    "window_reaches mem s t ins_c del_c sub_c max_d B sc j st \<Longrightarrow> j < length t + 1 \<Longrightarrow>
     window_row (build_s_char_len s t) s t (VARSIZE_ANY_EXHDR t) ins_c del_c sc B
       (length s + 1) (length t + 1) j (j - 1) st = Inr st' \<Longrightarrow>
     window_reaches mem s t ins_c del_c sub_c max_d B sc (j + 1) st'"

section \<open>The three-row engine\<close>

text \<open>
  The body of the inner loop of \<open>dameraulevenshtein_internal_noncompatible\<close>, for column
  \<open>j\<close> of row \<open>i\<close>. The strings are the raw bytes of the two texts; every assignment to
  \<open>row2[j + 1]\<close> of the source is an update of the list.
\<close>

definition swap_cell ::
  "char list \<Rightarrow> char list \<Rightarrow> int \<Rightarrow> int \<Rightarrow> int \<Rightarrow> int \<Rightarrow> nat \<Rightarrow> int list \<Rightarrow> int list
     \<Rightarrow> nat \<Rightarrow> int list \<Rightarrow> int list" where
  "swap_cell string1 string2 ins_c del_c sub_c trans_c i row0 row1 j row2 =
     (let row2 = row2[j + 1 :=
                   wrap (row1 ! j + wrap (sub_c * (if string1 ! i \<noteq> string2 ! j then 1 else 0)))];
          row2 = (if i > 0 \<and> j > 0 \<and> string1 ! (i - 1) = string2 ! j \<and>
                     string1 ! i = string2 ! (j - 1) \<and>
                     row2 ! (j + 1) > wrap (row0 ! (j - 1) + trans_c)
                  then row2[j + 1 := wrap (row0 ! (j - 1) + trans_c)] else row2);
          row2 = (if row2 ! (j + 1) > wrap (row1 ! (j + 1) + del_c)
                  then row2[j + 1 := wrap (row1 ! (j + 1) + del_c)] else row2);
          row2 = (if row2 ! (j + 1) > wrap (row2 ! j + ins_c)
                  then row2[j + 1 := wrap (row2 ! j + ins_c)] else row2)
      in row2)"

text \<open>The inner loop over the columns \<open>j\<close> below \<open>len2\<close>.\<close>

function swap_cells ::
  "char list \<Rightarrow> char list \<Rightarrow> int \<Rightarrow> int \<Rightarrow> int \<Rightarrow> int \<Rightarrow> nat \<Rightarrow> nat \<Rightarrow> int list \<Rightarrow> int list
     \<Rightarrow> nat \<Rightarrow> int list \<Rightarrow> int list" where
  "swap_cells string1 string2 ins_c del_c sub_c trans_c len2 i row0 row1 j row2 =
     (if j < len2 then
        swap_cells string1 string2 ins_c del_c sub_c trans_c len2 i row0 row1 (j + 1)
          (swap_cell string1 string2 ins_c del_c sub_c trans_c i row0 row1 j row2)
      else row2)"
  by pat_completeness auto
termination
  by (relation "measure (\<lambda>(string1, string2, ins_c, del_c, sub_c, trans_c, len2, i, row0,
                           row1, j, row2). len2 - j)") auto

text \<open>The loop over the rows \<open>i\<close>; the three rows are rotated by exchanging the arguments.\<close>

function swap_rows ::
  "char list \<Rightarrow> char list \<Rightarrow> int \<Rightarrow> int \<Rightarrow> int \<Rightarrow> int \<Rightarrow> nat \<Rightarrow> nat \<Rightarrow> nat \<Rightarrow> int list
     \<Rightarrow> int list \<Rightarrow> int list \<Rightarrow> int" where
  "swap_rows string1 string2 ins_c del_c sub_c trans_c len1 len2 i row0 row1 row2 =
     (if i < len1 then
        (let row2 = row2[0 := wrap ((int i + 1) * del_c)];
             row2 = swap_cells string1 string2 ins_c del_c sub_c trans_c len2 i row0 row1 0 row2
         in swap_rows string1 string2 ins_c del_c sub_c trans_c len1 len2 (i + 1) row1 row2 row0)
      else row1 ! len2)"
  by pat_completeness auto
termination
  by (relation "measure (\<lambda>(string1, string2, ins_c, del_c, sub_c, trans_c, len1, len2, i,
                           row0, row1, row2). len1 - i)") auto

text \<open>The loop \<open>row1[j] = j * ins_c\<close> for \<open>j\<close> up to \<open>len2\<close>.\<close>

function init_row1 :: "int \<Rightarrow> nat \<Rightarrow> nat \<Rightarrow> int list \<Rightarrow> int list" where
  "init_row1 ins_c len2 j row1 =
     (if j \<le> len2 then init_row1 ins_c len2 (j + 1) (row1[j := wrap (int j * ins_c)]) else row1)"
  by pat_completeness auto
termination
  by (relation "measure (\<lambda>(ins_c, len2, j, row1). Suc len2 - j)") auto

definition dameraulevenshtein_internal_noncompatible ::
  "(nat \<Rightarrow> int) \<Rightarrow> pg_text \<Rightarrow> pg_text \<Rightarrow> int \<Rightarrow> int \<Rightarrow> int \<Rightarrow> int \<Rightarrow> int" where
  "dameraulevenshtein_internal_noncompatible mem s t ins_c del_c sub_c trans_c =
     (let string1 = bytes_from s 0;
          string2 = bytes_from t 0;
          m = pg_mbstrlen_with_len s;
          n = pg_mbstrlen_with_len t;
          len1 = m;
          len2 = n;
          buf = palloc mem (3 * (len2 + 1));
          row0 = take (len2 + 1) buf;
          row1 = take (len2 + 1) (drop (len2 + 1) buf);
          row2 = drop (2 * (len2 + 1)) buf;
          row1 = init_row1 ins_c len2 0 row1
      in swap_rows string1 string2 ins_c del_c sub_c trans_c len1 len2 0 row0 row1 row2)"

section \<open>Concrete inputs\<close>

text \<open>A text of single-byte characters, and a block of memory that holds 7 everywhere.\<close>

definition single_byte_text :: "string \<Rightarrow> pg_text" where
  "single_byte_text str = map (\<lambda>c. MBChar c []) str"

definition mem7 :: "nat \<Rightarrow> int" where
  "mem7 k = 7"

definition text256 :: pg_text where
  "text256 = replicate 256 (MBChar (CHR ''b'') [])"

section \<open>The engines over the mathematical integers\<close>

text \<open>
  The loops of the three engines once more, with every sum and product taken in the
  mathematical integers and nothing else changed. These functions are not the program:
  they are what the program computes as long as nothing overflows, which the lemmas on
  overflow below show, and the properties of the distances are proved of them first.
\<close>

function init_row_exact :: "int \<Rightarrow> nat \<Rightarrow> nat \<Rightarrow> int list \<Rightarrow> int list" where
  "init_row_exact del_c STOP_COLUMN i prev =
     (if i < STOP_COLUMN then init_row_exact del_c STOP_COLUMN (i + 1) (prev[i := int i * del_c])
      else prev)"
  by pat_completeness auto
termination
  by (relation "measure (\<lambda>(del_c, STOP_COLUMN, i, prev). STOP_COLUMN - i)") auto

function fill_row_exact ::
  "nat list option \<Rightarrow> pg_text \<Rightarrow> pg_text \<Rightarrow> nat \<Rightarrow> nat \<Rightarrow> int \<Rightarrow> int \<Rightarrow> int \<Rightarrow> int list \<Rightarrow> nat
     \<Rightarrow> nat \<Rightarrow> nat \<Rightarrow> int list \<Rightarrow> int list" where
  "fill_row_exact s_char_len s t y y_char_len ins_c del_c sub_c prev STOP_COLUMN i x cur =
     (if i < STOP_COLUMN then
        (let ins = prev ! i + ins_c;
             del = cur ! (i - 1) + del_c;
             sub = (if char_same s_char_len s x t y y_char_len i then prev ! (i - 1)
                    else prev ! (i - 1) + sub_c)
         in fill_row_exact s_char_len s t y y_char_len ins_c del_c sub_c prev STOP_COLUMN
              (i + 1) (x + 1) (cur[i := min (min ins del) sub]))
      else cur)"
  by pat_completeness auto
termination
  by (relation "measure (\<lambda>(s_char_len, s, t, y, y_char_len, ins_c, del_c, sub_c, prev,
                           STOP_COLUMN, i, x, cur). STOP_COLUMN - i)") auto

function rows_loop_exact ::
  "nat list option \<Rightarrow> pg_text \<Rightarrow> pg_text \<Rightarrow> nat \<Rightarrow> int \<Rightarrow> int \<Rightarrow> int \<Rightarrow> nat \<Rightarrow> nat
     \<Rightarrow> nat \<Rightarrow> nat \<Rightarrow> int list \<Rightarrow> int list \<Rightarrow> int" where
  "rows_loop_exact s_char_len s t t_bytes ins_c del_c sub_c m n j y prev cur =
     (if j < n then
        (let x = 0;
             y_char_len = (if n \<noteq> t_bytes + 1 then pg_mblen t y else 1);
             cur = cur[0 := int j * ins_c];
             cur = fill_row_exact s_char_len s t y y_char_len ins_c del_c sub_c prev m 1 x cur
         in rows_loop_exact s_char_len s t t_bytes ins_c del_c sub_c m n (j + 1) (y + 1) cur prev)
      else prev ! (m - 1))"
  by pat_completeness auto
termination
  by (relation "measure (\<lambda>(s_char_len, s, t, t_bytes, ins_c, del_c, sub_c, m, n, j, y,
                           prev, cur). n - j)") auto

definition dameraulevenshtein_internal_exact ::
  "(nat \<Rightarrow> int) \<Rightarrow> pg_text \<Rightarrow> pg_text \<Rightarrow> int \<Rightarrow> int \<Rightarrow> int \<Rightarrow> int \<Rightarrow> error + int" where
  "dameraulevenshtein_internal_exact mem s t ins_c del_c sub_c trans_c =
     (let t_bytes = VARSIZE_ANY_EXHDR t;
          m = pg_mbstrlen_with_len s;
          n = pg_mbstrlen_with_len t
      in if m = 0 then Inr (int n * ins_c)
         else if n = 0 then Inr (int m * del_c)
         else if m > MAX_DAMERAU_LEVENSHTEIN_STRLEN \<or> n > MAX_DAMERAU_LEVENSHTEIN_STRLEN
           then Inl (InputTooLong MAX_DAMERAU_LEVENSHTEIN_STRLEN)
         else
           (let s_char_len = build_s_char_len s t;
                m = m + 1;
                n = n + 1;
                buf = palloc mem (2 * m);
                prev = take m buf;
                cur = drop m buf;
                prev = init_row_exact del_c m 0 prev
            in Inr (rows_loop_exact s_char_len s t t_bytes ins_c del_c sub_c m n 1 0 prev cur)))"

datatype bound_setup_exact = Return_now_exact int | Proceed_exact int int nat

definition init_window_exact :: "nat \<Rightarrow> nat \<Rightarrow> int \<Rightarrow> int \<Rightarrow> int \<Rightarrow> int \<Rightarrow> error + bound_setup_exact" where
  "init_window_exact m n ins_c del_c sub_c max_d =
     (let stop_column = m + 1
      in if max_d \<ge> 0 then
           (let net_inserts = int n - int m;
                min_theo_d = (if net_inserts < 0 then - net_inserts * del_c
                              else net_inserts * ins_c)
            in if min_theo_d > max_d then Inr (Return_now_exact (max_d + 1))
               else
                 (let sub_c = (if ins_c + del_c < sub_c then ins_c + del_c else sub_c);
                      max_theo_d = min_theo_d + sub_c * int (min m n)
                  in if max_d \<ge> max_theo_d then Inr (Proceed_exact (- 1) sub_c stop_column)
                     else if ins_c + del_c > 0 then
                       (let slack_d = max_d - min_theo_d;
                            best_column = (if net_inserts < 0 then - net_inserts else 0)
                        in case c_div slack_d (ins_c + del_c) of
                             Inl e \<Rightarrow> Inl e
                           | Inr q \<Rightarrow>
                               (let stop_column = best_column + q + 1
                                in Inr (Proceed_exact max_d sub_c
                                     (if stop_column > int m then m + 1 else nat stop_column))))
                     else Inr (Proceed_exact max_d sub_c stop_column)))
         else Inr (Proceed_exact max_d sub_c stop_column))"

function slide_stop_exact :: "int \<Rightarrow> int \<Rightarrow> int \<Rightarrow> int \<Rightarrow> int list \<Rightarrow> nat \<Rightarrow> nat" where
  "slide_stop_exact ins_c del_c max_d zp prev stop_column =
     (if stop_column > 0 then
        (let ii = stop_column - 1;
             net_inserts = int ii - zp
         in if prev ! ii + (if net_inserts > 0 then net_inserts * ins_c
                            else - net_inserts * del_c) \<le> max_d
            then stop_column
            else slide_stop_exact ins_c del_c max_d zp prev (stop_column - 1))
      else stop_column)"
  by pat_completeness auto
termination
  by (relation "measure (\<lambda>(ins_c, del_c, max_d, zp, prev, stop_column). stop_column)") auto

function slide_start_exact ::
  "int \<Rightarrow> int \<Rightarrow> int \<Rightarrow> int \<Rightarrow> nat \<Rightarrow> int list \<times> int list \<times> nat \<times> nat
     \<Rightarrow> int list \<times> int list \<times> nat \<times> nat" where
  "slide_start_exact ins_c del_c max_d zp stop_column (prev, cur, start_column, s_data) =
     (if start_column < stop_column then
        (let net_inserts = int start_column - zp
         in if prev ! start_column + (if net_inserts > 0 then net_inserts * ins_c
                                      else - net_inserts * del_c) \<le> max_d
            then (prev, cur, start_column, s_data)
            else slide_start_exact ins_c del_c max_d zp stop_column
                   (prev[start_column := max_d + 1], cur[start_column := max_d + 1],
                    start_column + 1, if start_column \<noteq> 0 then s_data + 1 else s_data))
      else (prev, cur, start_column, s_data))"
  by pat_completeness auto
termination
  by (relation "measure (\<lambda>(ins_c, del_c, max_d, zp, stop_column, prev, cur, start_column,
                           s_data). stop_column - start_column)") auto

definition fill_pass_exact ::
  "nat list option \<Rightarrow> pg_text \<Rightarrow> pg_text \<Rightarrow> nat \<Rightarrow> int \<Rightarrow> int \<Rightarrow> int \<Rightarrow> int \<Rightarrow> nat \<Rightarrow> nat
     \<Rightarrow> nat \<Rightarrow> nat \<Rightarrow> window_state \<Rightarrow> window_state" where
  "fill_pass_exact s_char_len s t t_bytes ins_c del_c sub_c max_d m n j y st =
     (case st of (prev, cur, start_column, stop_column, s_data) \<Rightarrow>
        (let x = s_data;
             y_char_len = (if n \<noteq> t_bytes + 1 then pg_mblen t y else 1);
             (prev, stop_column) =
               (if stop_column < m then (prev[stop_column := max_d + 1], stop_column + 1)
                else (prev, stop_column));
             (cur, i) =
               (if start_column = 0 then (cur[0 := int j * ins_c], 1)
                else (cur, start_column));
             cur = fill_row_exact s_char_len s t y y_char_len ins_c del_c sub_c prev stop_column
                      i x cur;
             (prev, cur) = (cur, prev)
         in (prev, cur, start_column, stop_column, s_data)))"

definition slide_pass_exact ::
  "int \<Rightarrow> int \<Rightarrow> int \<Rightarrow> nat \<Rightarrow> nat \<Rightarrow> nat \<Rightarrow> window_state \<Rightarrow> window_state" where
  "slide_pass_exact ins_c del_c max_d m n j st =
     (case st of (prev, cur, start_column, stop_column, s_data) \<Rightarrow>
        (let zp = int j - (int n - int m);
             stop_column = slide_stop_exact ins_c del_c max_d zp prev stop_column;
             (prev, cur, start_column, s_data) =
               slide_start_exact ins_c del_c max_d zp stop_column (prev, cur, start_column, s_data)
         in (prev, cur, start_column, stop_column, s_data)))"

definition window_row_exact ::
  "nat list option \<Rightarrow> pg_text \<Rightarrow> pg_text \<Rightarrow> nat \<Rightarrow> int \<Rightarrow> int \<Rightarrow> int \<Rightarrow> int \<Rightarrow> nat \<Rightarrow> nat
     \<Rightarrow> nat \<Rightarrow> nat \<Rightarrow> window_state \<Rightarrow> int + window_state" where
  "window_row_exact s_char_len s t t_bytes ins_c del_c sub_c max_d m n j y st =
     (let st = fill_pass_exact s_char_len s t t_bytes ins_c del_c sub_c max_d m n j y st
      in if max_d \<ge> 0 then
           (let st = slide_pass_exact ins_c del_c max_d m n j st
            in case st of (prev, cur, start_column, stop_column, s_data) \<Rightarrow>
                 if start_column \<ge> stop_column then Inl (max_d + 1) else Inr st)
         else Inr st)"

function window_rows_exact ::
  "nat list option \<Rightarrow> pg_text \<Rightarrow> pg_text \<Rightarrow> nat \<Rightarrow> int \<Rightarrow> int \<Rightarrow> int \<Rightarrow> int \<Rightarrow> nat \<Rightarrow> nat
     \<Rightarrow> nat \<Rightarrow> nat \<Rightarrow> window_state \<Rightarrow> int" where
  "window_rows_exact s_char_len s t t_bytes ins_c del_c sub_c max_d m n j y st =
     (if j < n then
        (case window_row_exact s_char_len s t t_bytes ins_c del_c sub_c max_d m n j y st of
           Inl d \<Rightarrow> d
         | Inr st' \<Rightarrow>
             window_rows_exact s_char_len s t t_bytes ins_c del_c sub_c max_d m n (j + 1) (y + 1) st')
      else (case st of (prev, cur, start_column, stop_column, s_data) \<Rightarrow> prev ! (m - 1)))"
  by pat_completeness auto
termination
  by (relation "measure (\<lambda>(s_char_len, s, t, t_bytes, ins_c, del_c, sub_c, max_d, m, n, j,
                           y, st). n - j)") auto

definition window_start_exact ::
  "(nat \<Rightarrow> int) \<Rightarrow> nat \<Rightarrow> int \<Rightarrow> nat \<Rightarrow> window_state" where
  "window_start_exact mem m del_c stop_column =
     (let start_column = 0;
          buf = palloc mem (2 * m);
          prev = take m buf;
          cur = drop m buf;
          prev = init_row_exact del_c stop_column start_column prev
      in (prev, cur, start_column, stop_column, 0))"

definition dameraulevenshtein_less_equal_internal_exact ::
  "(nat \<Rightarrow> int) \<Rightarrow> pg_text \<Rightarrow> pg_text \<Rightarrow> int \<Rightarrow> int \<Rightarrow> int \<Rightarrow> int \<Rightarrow> int \<Rightarrow> error + int" where
  "dameraulevenshtein_less_equal_internal_exact mem s t ins_c del_c sub_c trans_c max_d =
     (let t_bytes = VARSIZE_ANY_EXHDR t;
          m = pg_mbstrlen_with_len s;
          n = pg_mbstrlen_with_len t
      in if m = 0 then Inr (int n * ins_c)
         else if n = 0 then Inr (int m * del_c)
         else if m > MAX_DAMERAU_LEVENSHTEIN_STRLEN \<or> n > MAX_DAMERAU_LEVENSHTEIN_STRLEN
           then Inl (InputTooLong MAX_DAMERAU_LEVENSHTEIN_STRLEN)
         else
           (case init_window_exact m n ins_c del_c sub_c max_d of
              Inl e \<Rightarrow> Inl e
            | Inr (Return_now_exact d) \<Rightarrow> Inr d
            | Inr (Proceed_exact max_d sub_c stop_column) \<Rightarrow>
                (let s_char_len = build_s_char_len s t;
                     m = m + 1;
                     n = n + 1
                 in Inr (window_rows_exact s_char_len s t t_bytes ins_c del_c sub_c max_d m n 1 0
                           (window_start_exact mem m del_c stop_column)))))"

definition swap_cell_exact ::
  "char list \<Rightarrow> char list \<Rightarrow> int \<Rightarrow> int \<Rightarrow> int \<Rightarrow> int \<Rightarrow> nat \<Rightarrow> int list \<Rightarrow> int list
     \<Rightarrow> nat \<Rightarrow> int list \<Rightarrow> int list" where
  "swap_cell_exact string1 string2 ins_c del_c sub_c trans_c i row0 row1 j row2 =
     (let row2 = row2[j + 1 := row1 ! j + sub_c * (if string1 ! i \<noteq> string2 ! j then 1 else 0)];
          row2 = (if i > 0 \<and> j > 0 \<and> string1 ! (i - 1) = string2 ! j \<and>
                     string1 ! i = string2 ! (j - 1) \<and>
                     row2 ! (j + 1) > row0 ! (j - 1) + trans_c
                  then row2[j + 1 := row0 ! (j - 1) + trans_c] else row2);
          row2 = (if row2 ! (j + 1) > row1 ! (j + 1) + del_c
                  then row2[j + 1 := row1 ! (j + 1) + del_c] else row2);
          row2 = (if row2 ! (j + 1) > row2 ! j + ins_c
                  then row2[j + 1 := row2 ! j + ins_c] else row2)
      in row2)"

function swap_cells_exact ::
  "char list \<Rightarrow> char list \<Rightarrow> int \<Rightarrow> int \<Rightarrow> int \<Rightarrow> int \<Rightarrow> nat \<Rightarrow> nat \<Rightarrow> int list \<Rightarrow> int list
     \<Rightarrow> nat \<Rightarrow> int list \<Rightarrow> int list" where
  "swap_cells_exact string1 string2 ins_c del_c sub_c trans_c len2 i row0 row1 j row2 =
     (if j < len2 then
        swap_cells_exact string1 string2 ins_c del_c sub_c trans_c len2 i row0 row1 (j + 1)
          (swap_cell_exact string1 string2 ins_c del_c sub_c trans_c i row0 row1 j row2)
      else row2)"
  by pat_completeness auto
termination
  by (relation "measure (\<lambda>(string1, string2, ins_c, del_c, sub_c, trans_c, len2, i, row0,
                           row1, j, row2). len2 - j)") auto

function swap_rows_exact ::
  "char list \<Rightarrow> char list \<Rightarrow> int \<Rightarrow> int \<Rightarrow> int \<Rightarrow> int \<Rightarrow> nat \<Rightarrow> nat \<Rightarrow> nat \<Rightarrow> int list
     \<Rightarrow> int list \<Rightarrow> int list \<Rightarrow> int" where
  "swap_rows_exact string1 string2 ins_c del_c sub_c trans_c len1 len2 i row0 row1 row2 =
     (if i < len1 then
        (let row2 = row2[0 := (int i + 1) * del_c];
             row2 = swap_cells_exact string1 string2 ins_c del_c sub_c trans_c len2 i row0 row1 0 row2
         in swap_rows_exact string1 string2 ins_c del_c sub_c trans_c len1 len2 (i + 1) row1 row2 row0)
      else row1 ! len2)"
  by pat_completeness auto
termination
  by (relation "measure (\<lambda>(string1, string2, ins_c, del_c, sub_c, trans_c, len1, len2, i,
                           row0, row1, row2). len1 - i)") auto

function init_row1_exact :: "int \<Rightarrow> nat \<Rightarrow> nat \<Rightarrow> int list \<Rightarrow> int list" where
  "init_row1_exact ins_c len2 j row1 =
     (if j \<le> len2 then init_row1_exact ins_c len2 (j + 1) (row1[j := int j * ins_c]) else row1)"
  by pat_completeness auto
termination
  by (relation "measure (\<lambda>(ins_c, len2, j, row1). Suc len2 - j)") auto

definition dameraulevenshtein_internal_noncompatible_exact ::
  "(nat \<Rightarrow> int) \<Rightarrow> pg_text \<Rightarrow> pg_text \<Rightarrow> int \<Rightarrow> int \<Rightarrow> int \<Rightarrow> int \<Rightarrow> int" where
  "dameraulevenshtein_internal_noncompatible_exact mem s t ins_c del_c sub_c trans_c =
     (let string1 = bytes_from s 0;
          string2 = bytes_from t 0;
          m = pg_mbstrlen_with_len s;
          n = pg_mbstrlen_with_len t;
          len1 = m;
          len2 = n;
          buf = palloc mem (3 * (len2 + 1));
          row0 = take (len2 + 1) buf;
          row1 = take (len2 + 1) (drop (len2 + 1) buf);
          row2 = drop (2 * (len2 + 1)) buf;
          row1 = init_row1_exact ins_c len2 0 row1
      in swap_rows_exact string1 string2 ins_c del_c sub_c trans_c len1 len2 0 row0 row1 row2)"

section \<open>The notional matrix and edit scripts\<close>

text \<open>
  The matrix the comment at the head of the engine describes: cell \<open>(i, j)\<close> is the cost of
  transforming the first \<open>i\<close> characters of \<open>s\<close> into the first \<open>j\<close> characters of \<open>t\<close>, by
  the recurrence \<open>curr[i] = min(prev[i] + insert, curr[i-1] + delete,
  prev[i-1] + (match ? 0 : substitute))\<close>.
\<close>

fun matrix_cell :: "int \<Rightarrow> int \<Rightarrow> int \<Rightarrow> 'a list \<Rightarrow> 'a list \<Rightarrow> nat \<Rightarrow> nat \<Rightarrow> int" where
  "matrix_cell ic dc sc s t 0 0 = 0"
| "matrix_cell ic dc sc s t (Suc i) 0 = matrix_cell ic dc sc s t i 0 + dc"
| "matrix_cell ic dc sc s t 0 (Suc j) = matrix_cell ic dc sc s t 0 j + ic"
| "matrix_cell ic dc sc s t (Suc i) (Suc j) =
     min (min (matrix_cell ic dc sc s t (Suc i) j + ic) (matrix_cell ic dc sc s t i (Suc j) + dc))
         (matrix_cell ic dc sc s t i j + (if s ! i = t ! j then 0 else sc))"

text \<open>
  Transforming a sequence by single-character operations: a script is read from left to
  right along the source; \<open>Insert b\<close> puts \<open>b\<close> into the target, \<open>Delete\<close> drops the next
  source character, \<open>Substitute b\<close> replaces it by \<open>b\<close>, and \<open>Keep\<close> copies it, at no cost.
  A script that does not use up the source exactly transforms nothing.
\<close>

datatype 'a edit_op = Insert 'a | Delete | Substitute 'a | Keep

fun apply_script :: "'a edit_op list \<Rightarrow> 'a list \<Rightarrow> 'a list option" where
  "apply_script [] [] = Some []"
| "apply_script [] (a # s) = None"
| "apply_script (Insert b # es) s = map_option ((#) b) (apply_script es s)"
| "apply_script (Delete # es) (a # s) = apply_script es s"
| "apply_script (Substitute b # es) (a # s) = map_option ((#) b) (apply_script es s)"
| "apply_script (Keep # es) (a # s) = map_option ((#) a) (apply_script es s)"
| "apply_script (Delete # es) [] = None"
| "apply_script (Substitute b # es) [] = None"
| "apply_script (Keep # es) [] = None"

fun op_cost :: "int \<Rightarrow> int \<Rightarrow> int \<Rightarrow> 'a edit_op \<Rightarrow> int" where
  "op_cost ic dc sc (Insert b) = ic"
| "op_cost ic dc sc Delete = dc"
| "op_cost ic dc sc (Substitute b) = sc"
| "op_cost ic dc sc Keep = 0"

definition script_cost :: "int \<Rightarrow> int \<Rightarrow> int \<Rightarrow> 'a edit_op list \<Rightarrow> int" where
  "script_cost ic dc sc es = sum_list (map (op_cost ic dc sc) es)"

text \<open>
  The matrix of the three-row engine in the words of its description: row \<open>i\<close> is for the
  first \<open>i\<close> bytes of the first string, column \<open>j\<close> for the first \<open>j\<close> bytes of the second.
  A cell is the minimum of the substitution, of the transposition when \<open>i > 0\<close>, \<open>j > 0\<close> and
  the two adjacent bytes are swapped matches, of the deletion and of the insertion.
\<close>

fun swap_matrix ::
  "int \<Rightarrow> int \<Rightarrow> int \<Rightarrow> int \<Rightarrow> char list \<Rightarrow> char list \<Rightarrow> nat \<Rightarrow> nat \<Rightarrow> int" where
  "swap_matrix ic dc sc tc s1 s2 0 j = int j * ic"
| "swap_matrix ic dc sc tc s1 s2 (Suc i) 0 = (int i + 1) * dc"
| "swap_matrix ic dc sc tc s1 s2 (Suc i) (Suc j) =
     (let substitution = swap_matrix ic dc sc tc s1 s2 i j + (if s1 ! i \<noteq> s2 ! j then sc else 0);
          deletion = swap_matrix ic dc sc tc s1 s2 i (Suc j) + dc;
          insertion = swap_matrix ic dc sc tc s1 s2 (Suc i) j + ic
      in if i > 0 \<and> j > 0 \<and> s1 ! (i - 1) = s2 ! j \<and> s1 ! i = s2 ! (j - 1)
         then min (min (min substitution (swap_matrix ic dc sc tc s1 s2 (i - 1) (j - 1) + tc))
                     deletion) insertion
         else min (min substitution deletion) insertion)"

text \<open>The value the four assignments of one pass leave in \<open>row2[j + 1]\<close>.\<close>

definition swap_cell_value ::
  "char list \<Rightarrow> char list \<Rightarrow> int \<Rightarrow> int \<Rightarrow> int \<Rightarrow> int \<Rightarrow> nat \<Rightarrow> int list \<Rightarrow> int list \<Rightarrow> nat
     \<Rightarrow> int \<Rightarrow> int" where
  "swap_cell_value string1 string2 ins_c del_c sub_c trans_c i row0 row1 j left =
     (let substitution = row1 ! j + (if string1 ! i \<noteq> string2 ! j then sub_c else 0);
          deletion = row1 ! (j + 1) + del_c;
          insertion = left + ins_c
      in if i > 0 \<and> j > 0 \<and> string1 ! (i - 1) = string2 ! j \<and> string1 ! i = string2 ! (j - 1)
         then min (min (min substitution (row0 ! (j - 1) + trans_c)) deletion) insertion
         else min (min substitution deletion) insertion)"

section \<open>Notions for the window\<close>

text \<open>
  The least cost that is left from a cell: with \<open>net_inserts\<close> more characters left in the
  target than in the source, the net insertions, and the net deletions otherwise. It is
  the term that the two sliding loops add to the value of a cell.
\<close>

definition residual :: "int \<Rightarrow> int \<Rightarrow> int \<Rightarrow> int" where
  "residual ic dc net_inserts = (if net_inserts > 0 then net_inserts * ic else - net_inserts * dc)"

text \<open>
  The net insertions at cell \<open>i\<close> of row \<open>j\<close>: the column less the zero point
  \<open>j - (n - m)\<close> of the row.
\<close>

definition net_inserts_at :: "'a list \<Rightarrow> 'a list \<Rightarrow> nat \<Rightarrow> nat \<Rightarrow> int" where
  "net_inserts_at s t j i = int i - (int j - (int (length t) - int (length s)))"

text \<open>
  Cell \<open>i\<close> of row \<open>j\<close> is viable if its true value and the least cost left from it are
  within the bound; a value is good for a cell if it is the true value when the cell is
  viable, and fails the test of the sliding loops otherwise.
\<close>

definition viable :: "int \<Rightarrow> int \<Rightarrow> int \<Rightarrow> int \<Rightarrow> 'a list \<Rightarrow> 'a list \<Rightarrow> nat \<Rightarrow> nat \<Rightarrow> bool" where
  "viable ic dc sc max_d s t j i \<longleftrightarrow>
     matrix_cell ic dc sc s t i j + residual ic dc (net_inserts_at s t j i) \<le> max_d"

definition good_value ::
  "int \<Rightarrow> int \<Rightarrow> int \<Rightarrow> int \<Rightarrow> 'a list \<Rightarrow> 'a list \<Rightarrow> nat \<Rightarrow> nat \<Rightarrow> int \<Rightarrow> bool" where
  "good_value ic dc sc max_d s t j i v \<longleftrightarrow>
     (if viable ic dc sc max_d s t j i then v = matrix_cell ic dc sc s t i j
      else max_d < v + residual ic dc (net_inserts_at s t j i))"

text \<open>
  What holds of the state when \<open>prev\<close> is row \<open>j\<close>: the window is not empty and inside the
  row, every value in the window is good, every column left of the window holds
  \<open>max_d + 1\<close> in both rows, every viable cell is in the window, and \<open>s_data\<close> is at the
  character before the start column.
\<close>

definition window_ok ::
  "int \<Rightarrow> int \<Rightarrow> int \<Rightarrow> int \<Rightarrow> 'a list \<Rightarrow> 'a list \<Rightarrow> nat \<Rightarrow> window_state \<Rightarrow> bool" where
  "window_ok ic dc sc max_d s t j st \<longleftrightarrow>
     (case st of (prev, cur, start_column, stop_column, s_data) \<Rightarrow>
        length prev = Suc (length s) \<and> length cur = Suc (length s) \<and>
        start_column < stop_column \<and> stop_column \<le> Suc (length s) \<and>
        s_data = start_column - 1 \<and>
        (\<forall>i. start_column \<le> i \<and> i < stop_column \<longrightarrow> good_value ic dc sc max_d s t j i (prev ! i)) \<and>
        (\<forall>i < start_column. prev ! i = max_d + 1 \<and> cur ! i = max_d + 1) \<and>
        (\<forall>i \<le> length s. viable ic dc sc max_d s t j i \<longrightarrow> start_column \<le> i \<and> i < stop_column))"

definition window_inv ::
  "int \<Rightarrow> int \<Rightarrow> int \<Rightarrow> int \<Rightarrow> 'a list \<Rightarrow> 'a list \<Rightarrow> nat \<Rightarrow> window_state \<Rightarrow> bool" where
  "window_inv ic dc sc max_d s t j st \<longleftrightarrow>
     window_ok ic dc sc max_d s t j st \<and>
     (case st of (prev, cur, start_column, stop_column, s_data) \<Rightarrow>
        viable ic dc sc max_d s t j start_column)"

text \<open>
  The values of a state are within \<open>U\<close>: the two rows have \<open>m\<close> cells, the window is
  inside them, \<open>s_data\<close> is at the character before the start column, and the cells that
  the next pass over a row reads hold values from 0 to \<open>U\<close>.
\<close>

definition window_in_range :: "int \<Rightarrow> nat \<Rightarrow> window_state \<Rightarrow> bool" where
  "window_in_range U m st \<longleftrightarrow>
     (case st of (prev, cur, start_column, stop_column, s_data) \<Rightarrow>
        length prev = m \<and> length cur = m \<and>
        start_column \<le> stop_column \<and> stop_column \<le> m \<and> s_data = start_column - 1 \<and>
        (\<forall>k<stop_column. 0 \<le> prev ! k \<and> prev ! k \<le> U) \<and>
        (\<forall>k<start_column. 0 \<le> cur ! k \<and> cur ! k \<le> U))"

section \<open>Auxiliary facts\<close>

declare init_row.simps [simp del] fill_row.simps [simp del] rows_loop.simps [simp del]
  slide_stop.simps [simp del] slide_start.simps [simp del] window_rows.simps [simp del]
  swap_cells.simps [simp del] swap_rows.simps [simp del] init_row1.simps [simp del]

declare init_row_exact.simps [simp del] fill_row_exact.simps [simp del] rows_loop_exact.simps [simp del]
  slide_stop_exact.simps [simp del] slide_start_exact.simps [simp del] window_rows_exact.simps [simp del]
  swap_cells_exact.simps [simp del] swap_rows_exact.simps [simp del] init_row1_exact.simps [simp del]

lemma length_text256: "length text256 = 256"
  by (simp add: text256_def)

subsection \<open>Characters\<close>

lemma bytes_from_step:
  "p < length u \<Longrightarrow> bytes_from u p = mb_bytes (u ! p) @ bytes_from u (Suc p)"
  by (simp add: bytes_from_def flip: Cons_nth_drop_Suc)

lemma deref_in_char:
  "p < length u \<Longrightarrow> k < length (mb_bytes (u ! p)) \<Longrightarrow> deref u p k = mb_bytes (u ! p) ! k"
  by (simp add: deref_def bytes_from_step nth_append)

lemma mb_bytes_inject: "mb_bytes a = mb_bytes b \<longleftrightarrow> a = b"
  by (cases a; cases b) (simp add: mb_bytes_def)

lemma mb_bytes_length_pos: "0 < length (mb_bytes c)"
  by (simp add: mb_bytes_def)

lemma rest_of_char_same_iff:
  "rest_of_char_same s x t y len \<longleftrightarrow> (\<forall>k<len. deref s x k = deref t y k)"
  by (auto simp add: rest_of_char_same_def list_all_iff)

lemma char_same_table:
  assumes "x < length s" "y < length t" "tbl ! (i - 1) = pg_mblen s x" "y_char_len = pg_mblen t y"
  shows "char_same (Some tbl) s x t y y_char_len i \<longleftrightarrow> s ! x = t ! y"
proof
  assume eq: "s ! x = t ! y"
  have "deref s x k = deref t y k" if "k < length (mb_bytes (s ! x))" for k
    using that assms eq by (simp add: deref_in_char)
  moreover have "length (mb_bytes (s ! x)) - 1 < length (mb_bytes (s ! x))"
    using mb_bytes_length_pos [of "s ! x"] by simp
  ultimately show "char_same (Some tbl) s x t y y_char_len i"
    using assms eq by (simp add: char_same_def pg_mblen_def rest_of_char_same_iff Let_def)
next
  assume cs: "char_same (Some tbl) s x t y y_char_len i"
  let ?a = "mb_bytes (s ! x)" and ?b = "mb_bytes (t ! y)"
  from assms(3,4) cs have cs': "deref s x (pg_mblen s x - 1) = deref t y (pg_mblen t y - 1) \<and>
      pg_mblen s x = pg_mblen t y \<and>
      (pg_mblen s x = 1 \<or> rest_of_char_same s x t y (pg_mblen s x))"
    by (auto simp add: char_same_def Let_def)
  from cs' have len: "length ?a = length ?b"
    by (simp add: pg_mblen_def)
  from cs' have last: "deref s x (length ?a - 1) = deref t y (length ?a - 1)"
    by (auto simp add: pg_mblen_def)
  from cs' have rest: "length ?a = 1 \<or> (\<forall>k<length ?a. deref s x k = deref t y k)"
    by (auto simp add: pg_mblen_def rest_of_char_same_iff)
  have "?a ! k = ?b ! k" if "k < length ?a" for k
  proof (cases "length ?a = 1")
    case True
    with that have "k = length ?a - 1" by simp
    with last that len assms show ?thesis by (simp add: deref_in_char)
  next
    case False
    with rest that have "deref s x k = deref t y k" by simp
    with that len assms show ?thesis by (simp add: deref_in_char)
  qed
  with len have "?a = ?b" by (simp add: nth_equalityI)
  then show "s ! x = t ! y" by (simp add: mb_bytes_inject)
qed

lemma length_mb_bytes: "length (mb_bytes c) = Suc (length (cont_bytes c))"
  by (simp add: mb_bytes_def)

lemma length_le_bytes: "length u \<le> length (concat (map mb_bytes u))"
  by (induction u) (simp_all add: length_mb_bytes)

lemma single_byte_chars:
  "length (concat (map mb_bytes u)) = length u \<Longrightarrow> c \<in> set u \<Longrightarrow> cont_bytes c = []"
proof (induction u)
  case Nil
  then show ?case by simp
next
  case (Cons a u)
  have le: "length u \<le> length (concat (map mb_bytes u))" by (rule length_le_bytes)
  have "Suc (length (cont_bytes a)) + length (concat (map mb_bytes u)) = Suc (length u)"
    using Cons.prems(1) by (simp add: length_mb_bytes)
  with le have "length (cont_bytes a) = 0" and "length (concat (map mb_bytes u)) = length u"
    by linarith+
  then have "cont_bytes a = []" and "length (concat (map mb_bytes u)) = length u"
    by simp_all
  with Cons show ?case by auto
qed

lemma all_single_byte:
  "VARSIZE_ANY_EXHDR u = length u \<Longrightarrow> p < length u \<Longrightarrow> mb_bytes (u ! p) = [lead_byte (u ! p)]"
  using single_byte_chars [of u "u ! p"]
  by (simp add: VARSIZE_ANY_EXHDR_def bytes_from_def mb_bytes_def)

lemma char_same_no_table:
  assumes "x < length s" "y < length t" "VARSIZE_ANY_EXHDR s = length s" "VARSIZE_ANY_EXHDR t = length t"
  shows "char_same None s x t y y_char_len i \<longleftrightarrow> s ! x = t ! y"
proof -
  have a: "mb_bytes (s ! x) = [lead_byte (s ! x)]" and b: "mb_bytes (t ! y) = [lead_byte (t ! y)]"
    using assms by (simp_all add: all_single_byte)
  then have "deref s x 0 = lead_byte (s ! x)" "deref t y 0 = lead_byte (t ! y)"
    using assms by (simp_all add: deref_in_char)
  moreover have "s ! x = t ! y \<longleftrightarrow> lead_byte (s ! x) = lead_byte (t ! y)"
    using a b mb_bytes_inject [of "s ! x" "t ! y"] by simp
  ultimately show ?thesis by (simp add: char_same_def)
qed

lemma char_same_correct:
  assumes "x < length s" "y < length t" "i = Suc x"
  shows "char_same (build_s_char_len s t) s x t y
           (if Suc (length t) \<noteq> VARSIZE_ANY_EXHDR t + 1 then pg_mblen t y else 1) i
         \<longleftrightarrow> s ! x = t ! y"
proof (cases "length s \<noteq> VARSIZE_ANY_EXHDR s \<or> length t \<noteq> VARSIZE_ANY_EXHDR t")
  case True
  then have tbl: "build_s_char_len s t = Some (map (pg_mblen s) [0..<length s] @ [0])"
    by (auto simp add: build_s_char_len_def pg_mbstrlen_with_len_def Let_def)
  have "(map (pg_mblen s) [0..<length s] @ [0]) ! (i - 1) = pg_mblen s x"
    using assms by (simp add: nth_append)
  moreover have "(if Suc (length t) \<noteq> VARSIZE_ANY_EXHDR t + 1 then pg_mblen t y else 1) = pg_mblen t y"
    using assms all_single_byte [of t y] by (auto simp add: pg_mblen_def)
  ultimately show ?thesis using assms tbl by (simp add: char_same_table)
next
  case False
  then have "build_s_char_len s t = None"
    by (auto simp add: build_s_char_len_def pg_mbstrlen_with_len_def Let_def)
  with False assms show ?thesis by (simp add: char_same_no_table)
qed

subsection \<open>The loops over the columns\<close>

lemma matrix_cell_row0: "matrix_cell ic dc sc s t i 0 = int i * dc"
  by (induction i) (simp_all add: algebra_simps)

lemma matrix_cell_col0: "matrix_cell ic dc sc s t 0 j = int j * ic"
  by (induction j) (simp_all add: algebra_simps)

lemma length_init_row: "length (init_row_exact del_c STOP_COLUMN i prev) = length prev"
  by (induction del_c STOP_COLUMN i prev rule: init_row_exact.induct)
    (subst init_row_exact.simps, simp)

lemma nth_init_row:
  "k < length prev \<Longrightarrow>
   init_row_exact del_c STOP_COLUMN i prev ! k
     = (if i \<le> k \<and> k < STOP_COLUMN then int k * del_c else prev ! k)"
proof (induction del_c STOP_COLUMN i prev rule: init_row_exact.induct)
  case (1 del_c STOP_COLUMN i prev)
  show ?case
  proof (cases "i < STOP_COLUMN")
    case True
    with 1 show ?thesis
      by (subst init_row_exact.simps) (auto simp add: nth_list_update)
  next
    case False
    then show ?thesis by (subst init_row_exact.simps) simp
  qed
qed

lemma length_fill_row:
  "length (fill_row_exact s_char_len s t y y_char_len ins_c del_c sub_c prev STOP_COLUMN i x cur)
     = length cur"
  by (induction s_char_len s t y y_char_len ins_c del_c sub_c prev STOP_COLUMN i x cur
      rule: fill_row_exact.induct)
    (subst fill_row_exact.simps, simp add: Let_def)

lemma fill_row_outside:
  "k < i \<or> STOP_COLUMN \<le> k \<Longrightarrow>
   fill_row_exact s_char_len s t y y_char_len ins_c del_c sub_c prev STOP_COLUMN i x cur ! k = cur ! k"
proof (induction s_char_len s t y y_char_len ins_c del_c sub_c prev STOP_COLUMN i x cur
    rule: fill_row_exact.induct)
  case (1 s_char_len s t y y_char_len ins_c del_c sub_c prev STOP_COLUMN i x cur)
  show ?case
  proof (cases "i < STOP_COLUMN")
    case True
    with 1 show ?thesis
      by (subst fill_row_exact.simps) (auto simp add: Let_def)
  next
    case False
    then show ?thesis by (subst fill_row_exact.simps) simp
  qed
qed

text \<open>Every cell the loop fills obeys the recurrence of the source.\<close>

lemma fill_row_cell:
  "0 < i \<Longrightarrow> i \<le> k \<Longrightarrow> k < STOP_COLUMN \<Longrightarrow> STOP_COLUMN \<le> length cur \<Longrightarrow>
   fill_row_exact s_char_len s t y y_char_len ins_c del_c sub_c prev STOP_COLUMN i x cur ! k
     = min (min (prev ! k + ins_c)
              (fill_row_exact s_char_len s t y y_char_len ins_c del_c sub_c prev STOP_COLUMN i x cur
                 ! (k - 1) + del_c))
         (if char_same s_char_len s (x + (k - i)) t y y_char_len k then prev ! (k - 1)
          else prev ! (k - 1) + sub_c)"
proof (induction s_char_len s t y y_char_len ins_c del_c sub_c prev STOP_COLUMN i x cur
    rule: fill_row_exact.induct)
  case (1 s_char_len s t y y_char_len ins_c del_c sub_c prev STOP_COLUMN i x cur)
  let ?v = "min (min (prev ! i + ins_c) (cur ! (i - 1) + del_c))
              (if char_same s_char_len s x t y y_char_len i then prev ! (i - 1)
               else prev ! (i - 1) + sub_c)"
  let ?next = "fill_row_exact s_char_len s t y y_char_len ins_c del_c sub_c prev STOP_COLUMN (i + 1)
                 (x + 1) (cur[i := ?v])"
  from "1.prems" have run: "i < STOP_COLUMN" by simp
  then have unfold: "fill_row_exact s_char_len s t y y_char_len ins_c del_c sub_c prev STOP_COLUMN i x cur
      = ?next"
    by (subst fill_row_exact.simps) (simp add: Let_def)
  show ?case
  proof (cases "k = i")
    case True
    have a: "?next ! i = cur[i := ?v] ! i" by (rule fill_row_outside) simp
    have b: "?next ! (i - 1) = cur[i := ?v] ! (i - 1)"
      by (rule fill_row_outside) (rule disjI1, arith)
    have c: "cur[i := ?v] ! i = ?v" using "1.prems" True by simp
    have d: "cur[i := ?v] ! (i - 1) = cur ! (i - 1)" using "1.prems" by simp
    have e: "x + (k - i) = x" using True by simp
    show ?thesis unfolding unfold e unfolding True a b c d ..
  next
    case False
    with "1.prems" have k: "0 < i + 1" "i + 1 \<le> k" by simp_all
    have e: "x + 1 + (k - (i + 1)) = x + (k - i)" using "1.prems" False by simp
    have len: "STOP_COLUMN \<le> length (cur[i := ?v])" using "1.prems" by simp
    show ?thesis
      unfolding unfold
      using "1.IH" [OF run refl refl refl k "1.prems"(3) len] unfolding e .
  qed
qed

subsection \<open>The engine without a bound computes the notional matrix\<close>

lemma fill_row_matrix:
  assumes "length prev = Suc (length s)" "length cur = Suc (length s)" "y < length t"
    and prev: "\<And>k. k \<le> length s \<Longrightarrow> prev ! k = matrix_cell ins_c del_c sub_c s t k y"
    and cur0: "cur ! 0 = matrix_cell ins_c del_c sub_c s t 0 (Suc y)"
  shows "k \<le> length s \<Longrightarrow>
    fill_row_exact (build_s_char_len s t) s t y
      (if Suc (length t) \<noteq> VARSIZE_ANY_EXHDR t + 1 then pg_mblen t y else 1)
      ins_c del_c sub_c prev (Suc (length s)) 1 0 cur ! k
    = matrix_cell ins_c del_c sub_c s t k (Suc y)"
proof (induction k)
  case 0
  then show ?case using cur0 by (simp add: fill_row_outside)
next
  case (Suc k)
  let ?ycl = "if Suc (length t) \<noteq> VARSIZE_ANY_EXHDR t + 1 then pg_mblen t y else 1"
  let ?R = "fill_row_exact (build_s_char_len s t) s t y ?ycl ins_c del_c sub_c prev (Suc (length s)) 1 0 cur"
  from Suc.prems have k: "k < length s" "k \<le> length s" by simp_all
  have same: "char_same (build_s_char_len s t) s (0 + (Suc k - 1)) t y ?ycl (Suc k) \<longleftrightarrow> s ! k = t ! y"
    using char_same_correct [of k s y t "Suc k"] k assms(3) by simp
  have cell: "?R ! Suc k = min (min (prev ! Suc k + ins_c) (?R ! (Suc k - 1) + del_c))
      (if char_same (build_s_char_len s t) s (0 + (Suc k - 1)) t y ?ycl (Suc k) then prev ! (Suc k - 1)
       else prev ! (Suc k - 1) + sub_c)"
    using Suc.prems assms(2) by (intro fill_row_cell) simp_all
  have "?R ! Suc k = min (min (matrix_cell ins_c del_c sub_c s t (Suc k) y + ins_c)
        (matrix_cell ins_c del_c sub_c s t k (Suc y) + del_c))
      (matrix_cell ins_c del_c sub_c s t k y + (if s ! k = t ! y then 0 else sub_c))"
    unfolding cell same using Suc.IH [OF k(2)] prev [OF Suc.prems] prev [OF k(2)] by simp
  then show ?case by simp
qed

lemma rows_loop_matrix:
  assumes "length prev = Suc (length s)" "length cur = Suc (length s)" "0 < j" "j \<le> Suc (length t)"
    and "\<And>k. k \<le> length s \<Longrightarrow> prev ! k = matrix_cell ins_c del_c sub_c s t k (j - 1)"
  shows "rows_loop_exact (build_s_char_len s t) s t (VARSIZE_ANY_EXHDR t) ins_c del_c sub_c
           (Suc (length s)) (Suc (length t)) j (j - 1) prev cur
         = matrix_cell ins_c del_c sub_c s t (length s) (length t)"
  using assms
proof (induction "Suc (length t) - j" arbitrary: j prev cur)
  case 0
  then have "j = Suc (length t)" by simp
  with 0 show ?case by (subst rows_loop_exact.simps) simp
next
  case (Suc d)
  let ?ycl = "if Suc (length t) \<noteq> VARSIZE_ANY_EXHDR t + 1 then pg_mblen t (j - 1) else 1"
  let ?cur1 = "cur[0 := int j * ins_c]"
  let ?cur2 = "fill_row_exact (build_s_char_len s t) s t (j - 1) ?ycl ins_c del_c sub_c prev (Suc (length s)) 1 0 ?cur1"
  from Suc have j: "j < Suc (length t)" "j - 1 < length t" "Suc (j - 1) = j" by simp_all
  have row: "?cur2 ! k = matrix_cell ins_c del_c sub_c s t k j" if "k \<le> length s" for k
    using fill_row_matrix [of prev s ?cur1 "j - 1" t ins_c del_c sub_c k] Suc.prems that j
    by (simp add: matrix_cell_col0)
  have "rows_loop_exact (build_s_char_len s t) s t (VARSIZE_ANY_EXHDR t) ins_c del_c sub_c
           (Suc (length s)) (Suc (length t)) (j + 1) (j + 1 - 1) ?cur2 prev
         = matrix_cell ins_c del_c sub_c s t (length s) (length t)"
    using Suc.hyps Suc.prems row j by (intro Suc.hyps(1)) (simp_all add: length_fill_row)
  then show ?case using j by (subst rows_loop_exact.simps) (simp add: Let_def)
qed

lemma internal_matrix:
  assumes "s \<noteq> []" "t \<noteq> []" "length s \<le> 255" "length t \<le> 255"
  shows "dameraulevenshtein_internal_exact mem s t ins_c del_c sub_c trans_c
         = Inr (matrix_cell ins_c del_c sub_c s t (length s) (length t))"
proof -
  let ?m = "Suc (length s)"
  let ?prev = "init_row_exact del_c ?m 0 (take ?m (palloc mem (2 * ?m)))"
  let ?cur = "drop ?m (palloc mem (2 * ?m))"
  have "rows_loop_exact (build_s_char_len s t) s t (VARSIZE_ANY_EXHDR t) ins_c del_c sub_c
           ?m (Suc (length t)) 1 (1 - 1) ?prev ?cur
         = matrix_cell ins_c del_c sub_c s t (length s) (length t)"
    by (rule rows_loop_matrix)
      (simp_all add: length_init_row nth_init_row palloc_def matrix_cell_row0)
  with assms show ?thesis
    by (simp add: dameraulevenshtein_internal_exact_def pg_mbstrlen_with_len_def
        MAX_DAMERAU_LEVENSHTEIN_STRLEN_def Let_def)
qed

subsection \<open>Properties of the notional matrix\<close>

lemma matrix_cell_transpose:
  "matrix_cell ic dc sc s t i j = matrix_cell dc ic sc t s j i"
  by (induction ic dc sc s t i j rule: matrix_cell.induct) (simp_all add: min.commute eq_commute)

lemma matrix_cell_del_step: "matrix_cell ic dc sc s t (Suc i) j \<le> matrix_cell ic dc sc s t i j + dc"
  by (cases j) simp_all

lemma matrix_cell_ins_step: "matrix_cell ic dc sc s t i (Suc j) \<le> matrix_cell ic dc sc s t i j + ic"
  by (cases i) simp_all

lemma matrix_cell_sub_step:
  "0 \<le> sc \<Longrightarrow> matrix_cell ic dc sc s t (Suc i) (Suc j) \<le> matrix_cell ic dc sc s t i j + sc"
  by (simp add: min_le_iff_disj)

lemma matrix_cell_drop_source:
  assumes "0 \<le> ic" "0 \<le> dc" "0 \<le> sc"
  shows "matrix_cell ic dc sc s t i j \<le> matrix_cell ic dc sc s t (Suc i) j + ic"
proof (induction j)
  case 0
  from assms show ?case by (simp add: matrix_cell_row0 algebra_simps)
next
  case (Suc j)
  have u: "matrix_cell ic dc sc s t i (Suc j) \<le> matrix_cell ic dc sc s t i j + ic"
    by (rule matrix_cell_ins_step)
  from Suc u assms show ?case by (auto simp add: min_def)
qed

lemma matrix_cell_drop_target:
  assumes "0 \<le> ic" "0 \<le> dc" "0 \<le> sc"
  shows "matrix_cell ic dc sc s t i j \<le> matrix_cell ic dc sc s t i (Suc j) + dc"
  using matrix_cell_drop_source [of dc ic sc t s j i] assms
  by (simp add: matrix_cell_transpose [of ic dc sc s t])

lemma matrix_cell_diagonal:
  assumes "0 \<le> ic" "0 \<le> dc" "0 \<le> sc"
  shows "matrix_cell ic dc sc s t i j \<le> matrix_cell ic dc sc s t (Suc i) (Suc j)"
  using matrix_cell_drop_source [OF assms, of s t i j] matrix_cell_drop_target [OF assms, of s t i j]
    assms
  by (auto simp add: min_def)

lemma matrix_cell_capped:
  "ic + dc < sc \<Longrightarrow> matrix_cell ic dc (ic + dc) s t i j = matrix_cell ic dc sc s t i j"
proof (induction ic dc sc s t i j rule: matrix_cell.induct)
  case (4 ic dc sc s t i j)
  have "matrix_cell ic dc sc s t (Suc i) j \<le> matrix_cell ic dc sc s t i j + dc"
    by (rule matrix_cell_del_step)
  with 4 show ?case by (auto simp add: min_def)
qed simp_all

lemma matrix_cell_lower:
  assumes "0 \<le> ic" "0 \<le> dc" "0 \<le> sc"
  shows "(int j - int i) * ic \<le> matrix_cell ic dc sc s t i j \<and>
         (int i - int j) * dc \<le> matrix_cell ic dc sc s t i j \<and>
         0 \<le> matrix_cell ic dc sc s t i j"
  using assms
proof (induction ic dc sc s t i j rule: matrix_cell.induct)
  case (1 ic dc sc s t)
  then show ?case by simp
next
  case (2 ic dc sc s t i)
  then show ?case by (simp add: matrix_cell_row0 algebra_simps mult_nonneg_nonneg)
next
  case (3 ic dc sc s t j)
  then show ?case by (simp add: matrix_cell_col0 algebra_simps mult_nonneg_nonneg)
next
  case (4 ic dc sc s t i j)
  then show ?case by (auto simp add: min_def algebra_simps)
qed

lemma matrix_cell_upper:
  assumes "0 \<le> sc"
  shows "(j < i \<longrightarrow> matrix_cell ic dc sc s t i j \<le> (int i - int j) * dc + sc * int j) \<and>
         (i \<le> j \<longrightarrow> matrix_cell ic dc sc s t i j \<le> (int j - int i) * ic + sc * int i)"
  using assms
proof (induction ic dc sc s t i j rule: matrix_cell.induct)
  case (4 ic dc sc s t i j)
  have step: "matrix_cell ic dc sc s t (Suc i) (Suc j) \<le> matrix_cell ic dc sc s t i j + sc"
    using 4 by (intro matrix_cell_sub_step)
  have ih: "(j < i \<longrightarrow> matrix_cell ic dc sc s t i j \<le> (int i - int j) * dc + sc * int j) \<and>
         (i \<le> j \<longrightarrow> matrix_cell ic dc sc s t i j \<le> (int j - int i) * ic + sc * int i)"
    using 4 by simp
  show ?case
  proof (intro conjI impI)
    assume "Suc j < Suc i"
    with ih have "matrix_cell ic dc sc s t i j \<le> (int i - int j) * dc + sc * int j" by simp
    with step have "matrix_cell ic dc sc s t (Suc i) (Suc j) \<le> (int i - int j) * dc + sc * int j + sc"
      by linarith
    then show "matrix_cell ic dc sc s t (Suc i) (Suc j)
        \<le> (int (Suc i) - int (Suc j)) * dc + sc * int (Suc j)"
      by (simp add: algebra_simps)
  next
    assume "Suc i \<le> Suc j"
    with ih have "matrix_cell ic dc sc s t i j \<le> (int j - int i) * ic + sc * int i" by simp
    with step have "matrix_cell ic dc sc s t (Suc i) (Suc j) \<le> (int j - int i) * ic + sc * int i + sc"
      by linarith
    then show "matrix_cell ic dc sc s t (Suc i) (Suc j)
        \<le> (int (Suc j) - int (Suc i)) * ic + sc * int (Suc i)"
      by (simp add: algebra_simps)
  qed
qed (simp_all add: matrix_cell_row0 matrix_cell_col0 algebra_simps)

subsection \<open>The notional matrix holds the cheapest edit scripts\<close>

lemma matrix_cell_prefix:
  "i \<le> length s \<Longrightarrow> j \<le> length t \<Longrightarrow>
   matrix_cell ic dc sc (s @ s') (t @ t') i j = matrix_cell ic dc sc s t i j"
  by (induction ic dc sc s t i j rule: matrix_cell.induct) (simp_all add: nth_append)

lemma apply_script_append:
  "apply_script es1 s1 = Some t1 \<Longrightarrow> apply_script es2 s2 = Some t2 \<Longrightarrow>
   apply_script (es1 @ es2) (s1 @ s2) = Some (t1 @ t2)"
  by (induction es1 s1 arbitrary: t1 rule: apply_script.induct) auto

lemma script_cost_append:
  "script_cost ic dc sc (es1 @ es2) = script_cost ic dc sc es1 + script_cost ic dc sc es2"
  by (simp add: script_cost_def)

lemma apply_script_snoc_Insert:
  "apply_script (es @ [Insert b]) s = Some t \<Longrightarrow> \<exists>t'. t = t' @ [b] \<and> apply_script es s = Some t'"
  by (induction es s arbitrary: t rule: apply_script.induct) (fastforce+)

lemma apply_script_snoc_Delete:
  "apply_script (es @ [Delete]) s = Some t \<Longrightarrow> \<exists>s' a. s = s' @ [a] \<and> apply_script es s' = Some t"
proof (induction es s arbitrary: t rule: apply_script.induct)
  case (2 a s)
  then show ?case by (cases s) auto
next
  case (4 es a s)
  then obtain s' a' where "s = s' @ [a']" "apply_script es s' = Some t" by auto
  then have "a # s = (a # s') @ [a']" "apply_script (Delete # es) (a # s') = Some t" by simp_all
  then show ?case by blast
next
  case (5 b es a s)
  then obtain t0 where t: "t = b # t0" "apply_script (es @ [Delete]) s = Some t0" by auto
  with 5 obtain s' a' where "s = s' @ [a']" "apply_script es s' = Some t0" by blast
  with t have "a # s = (a # s') @ [a']" "apply_script (Substitute b # es) (a # s') = Some t" by simp_all
  then show ?case by blast
next
  case (6 es a s)
  then obtain t0 where t: "t = a # t0" "apply_script (es @ [Delete]) s = Some t0" by auto
  with 6 obtain s' a' where "s = s' @ [a']" "apply_script es s' = Some t0" by blast
  with t have "a # s = (a # s') @ [a']" "apply_script (Keep # es) (a # s') = Some t" by simp_all
  then show ?case by blast
qed fastforce+

lemma apply_script_snoc_Substitute:
  "apply_script (es @ [Substitute b]) s = Some t \<Longrightarrow>
   \<exists>s' a t'. s = s' @ [a] \<and> t = t' @ [b] \<and> apply_script es s' = Some t'"
proof (induction es s arbitrary: t rule: apply_script.induct)
  case (2 a s)
  then show ?case by (cases s) auto
next
  case (3 c es s)
  then obtain t0 where t: "t = c # t0" "apply_script (es @ [Substitute b]) s = Some t0" by auto
  with 3 obtain s' a' t' where "s = s' @ [a']" "t0 = t' @ [b]" "apply_script es s' = Some t'"
    by blast
  with t have "s = s' @ [a']" "t = (c # t') @ [b]" "apply_script (Insert c # es) s' = Some (c # t')"
    by simp_all
  then show ?case by blast
next
  case (4 es a s)
  then obtain s' a' t' where "s = s' @ [a']" "t = t' @ [b]" "apply_script es s' = Some t'" by auto
  then have "a # s = (a # s') @ [a']" "t = t' @ [b]" "apply_script (Delete # es) (a # s') = Some t'"
    by simp_all
  then show ?case by blast
next
  case (5 c es a s)
  then obtain t0 where t: "t = c # t0" "apply_script (es @ [Substitute b]) s = Some t0" by auto
  with 5 obtain s' a' t' where "s = s' @ [a']" "t0 = t' @ [b]" "apply_script es s' = Some t'"
    by blast
  with t have "a # s = (a # s') @ [a']" "t = (c # t') @ [b]"
    "apply_script (Substitute c # es) (a # s') = Some (c # t')" by simp_all
  then show ?case by blast
next
  case (6 es a s)
  then obtain t0 where t: "t = a # t0" "apply_script (es @ [Substitute b]) s = Some t0" by auto
  with 6 obtain s' a' t' where "s = s' @ [a']" "t0 = t' @ [b]" "apply_script es s' = Some t'"
    by blast
  with t have "a # s = (a # s') @ [a']" "t = (a # t') @ [b]"
    "apply_script (Keep # es) (a # s') = Some (a # t')" by simp_all
  then show ?case by blast
qed fastforce+

lemma apply_script_snoc_Keep:
  "apply_script (es @ [Keep]) s = Some t \<Longrightarrow>
   \<exists>s' a t'. s = s' @ [a] \<and> t = t' @ [a] \<and> apply_script es s' = Some t'"
proof (induction es s arbitrary: t rule: apply_script.induct)
  case (2 a s)
  then show ?case by (cases s) auto
next
  case (3 c es s)
  then obtain t0 where t: "t = c # t0" "apply_script (es @ [Keep]) s = Some t0" by auto
  with 3 obtain s' a' t' where "s = s' @ [a']" "t0 = t' @ [a']" "apply_script es s' = Some t'"
    by blast
  with t have "s = s' @ [a']" "t = (c # t') @ [a']" "apply_script (Insert c # es) s' = Some (c # t')"
    by simp_all
  then show ?case by blast
next
  case (4 es a s)
  then obtain s' a' t' where "s = s' @ [a']" "t = t' @ [a']" "apply_script es s' = Some t'" by auto
  then have "a # s = (a # s') @ [a']" "t = t' @ [a']" "apply_script (Delete # es) (a # s') = Some t'"
    by simp_all
  then show ?case by blast
next
  case (5 c es a s)
  then obtain t0 where t: "t = c # t0" "apply_script (es @ [Keep]) s = Some t0" by auto
  with 5 obtain s' a' t' where "s = s' @ [a']" "t0 = t' @ [a']" "apply_script es s' = Some t'"
    by blast
  with t have "a # s = (a # s') @ [a']" "t = (c # t') @ [a']"
    "apply_script (Substitute c # es) (a # s') = Some (c # t')" by simp_all
  then show ?case by blast
next
  case (6 es a s)
  then obtain t0 where t: "t = a # t0" "apply_script (es @ [Keep]) s = Some t0" by auto
  with 6 obtain s' a' t' where "s = s' @ [a']" "t0 = t' @ [a']" "apply_script es s' = Some t'"
    by blast
  with t have "a # s = (a # s') @ [a']" "t = (a # t') @ [a']"
    "apply_script (Keep # es) (a # s') = Some (a # t')" by simp_all
  then show ?case by blast
qed fastforce+
lemma script_not_cheaper:
  assumes "0 \<le> sc"
  shows "apply_script es s = Some t \<Longrightarrow>
         matrix_cell ic dc sc s t (length s) (length t) \<le> script_cost ic dc sc es"
proof (induction es arbitrary: s t rule: rev_induct)
  case Nil
  then show ?case by (cases s) (simp_all add: script_cost_def)
next
  case (snoc e es)
  have cost: "script_cost ic dc sc (es @ [e]) = script_cost ic dc sc es + op_cost ic dc sc e"
    by (simp add: script_cost_def)
  show ?case
  proof (cases e)
    case (Insert b)
    from snoc.prems have "apply_script (es @ [Insert b]) s = Some t" unfolding Insert .
    from apply_script_snoc_Insert [OF this]
    obtain t' where t: "t = t' @ [b]" and es: "apply_script es s = Some t'" by auto
    have len: "length t = Suc (length t')" using t by simp
    have "matrix_cell ic dc sc s t (length s) (length t)
          \<le> matrix_cell ic dc sc s t (length s) (length t') + ic"
      unfolding len by (rule matrix_cell_ins_step)
    moreover have "matrix_cell ic dc sc (s @ []) (t' @ [b]) (length s) (length t')
          = matrix_cell ic dc sc s t' (length s) (length t')"
      by (rule matrix_cell_prefix) simp_all
    moreover have "op_cost ic dc sc e = ic" using Insert by simp
    ultimately show ?thesis
      using snoc.IH [OF es] cost unfolding t by simp
  next
    case Delete
    from snoc.prems have "apply_script (es @ [Delete]) s = Some t" unfolding Delete .
    from apply_script_snoc_Delete [OF this]
    obtain s' a where s: "s = s' @ [a]" and es: "apply_script es s' = Some t" by auto
    have len: "length s = Suc (length s')" using s by simp
    have "matrix_cell ic dc sc s t (length s) (length t)
          \<le> matrix_cell ic dc sc s t (length s') (length t) + dc"
      unfolding len by (rule matrix_cell_del_step)
    moreover have "matrix_cell ic dc sc (s' @ [a]) (t @ []) (length s') (length t)
          = matrix_cell ic dc sc s' t (length s') (length t)"
      by (rule matrix_cell_prefix) simp_all
    moreover have "op_cost ic dc sc e = dc" using Delete by simp
    ultimately show ?thesis
      using snoc.IH [OF es] cost unfolding s by simp
  next
    case (Substitute b)
    from snoc.prems have "apply_script (es @ [Substitute b]) s = Some t" unfolding Substitute .
    from apply_script_snoc_Substitute [OF this]
    obtain s' a t' where s: "s = s' @ [a]" and t: "t = t' @ [b]"
      and es: "apply_script es s' = Some t'" by auto
    have len: "length s = Suc (length s')" "length t = Suc (length t')" using s t by simp_all
    have "matrix_cell ic dc sc s t (length s) (length t)
          \<le> matrix_cell ic dc sc s t (length s') (length t') + sc"
      unfolding len using assms by (rule matrix_cell_sub_step)
    moreover have "matrix_cell ic dc sc (s' @ [a]) (t' @ [b]) (length s') (length t')
          = matrix_cell ic dc sc s' t' (length s') (length t')"
      by (rule matrix_cell_prefix) simp_all
    moreover have "op_cost ic dc sc e = sc" using Substitute by simp
    ultimately show ?thesis
      using snoc.IH [OF es] cost unfolding s t by simp
  next
    case Keep
    from snoc.prems have "apply_script (es @ [Keep]) s = Some t" unfolding Keep .
    from apply_script_snoc_Keep [OF this]
    obtain s' a t' where s: "s = s' @ [a]" and t: "t = t' @ [a]"
      and es: "apply_script es s' = Some t'" by auto
    have len: "length s = Suc (length s')" "length t = Suc (length t')" using s t by simp_all
    have "s ! length s' = t ! length t'" using s t by simp
    then have "matrix_cell ic dc sc s t (length s) (length t)
          \<le> matrix_cell ic dc sc s t (length s') (length t')"
      unfolding len by (simp add: min_le_iff_disj)
    moreover have "matrix_cell ic dc sc (s' @ [a]) (t' @ [a]) (length s') (length t')
          = matrix_cell ic dc sc s' t' (length s') (length t')"
      by (rule matrix_cell_prefix) simp_all
    moreover have "op_cost ic dc sc e = 0" using Keep by simp
    ultimately show ?thesis
      using snoc.IH [OF es] cost unfolding s t by simp
  qed
qed

lemma min3_cases: "min (min a b) c = a \<or> min (min a b) c = b \<or> min (min a b) c = (c::int)"
  by (simp add: min_def)

lemma script_exists:
  "i \<le> length s \<Longrightarrow> j \<le> length t \<Longrightarrow>
   \<exists>es. apply_script es (take i s) = Some (take j t) \<and>
        script_cost ic dc sc es = matrix_cell ic dc sc s t i j"
proof (induction ic dc sc s t i j rule: matrix_cell.induct)
  case (1 ic dc sc s t)
  have "apply_script [] (take 0 s) = Some (take 0 t)" by simp
  then show ?case by (auto simp add: script_cost_def intro!: exI [of _ "[]"])
next
  case (2 ic dc sc s t i)
  then obtain es where es: "apply_script es (take i s) = Some (take 0 t)"
    "script_cost ic dc sc es = matrix_cell ic dc sc s t i 0" by auto
  have "apply_script (es @ [Delete]) (take i s @ [s ! i]) = Some (take 0 t @ [])"
    using es(1) by (intro apply_script_append) simp_all
  with 2 es(2) have "apply_script (es @ [Delete]) (take (Suc i) s) = Some (take 0 t) \<and>
      script_cost ic dc sc (es @ [Delete]) = matrix_cell ic dc sc s t (Suc i) 0"
    by (simp add: take_Suc_conv_app_nth script_cost_append script_cost_def)
  then show ?case by blast
next
  case (3 ic dc sc s t j)
  then obtain es where es: "apply_script es (take 0 s) = Some (take j t)"
    "script_cost ic dc sc es = matrix_cell ic dc sc s t 0 j" by auto
  have "apply_script (es @ [Insert (t ! j)]) (take 0 s @ []) = Some (take j t @ [t ! j])"
    using es(1) by (intro apply_script_append) simp_all
  with 3 es(2) have "apply_script (es @ [Insert (t ! j)]) (take 0 s) = Some (take (Suc j) t) \<and>
      script_cost ic dc sc (es @ [Insert (t ! j)]) = matrix_cell ic dc sc s t 0 (Suc j)"
    by (simp add: take_Suc_conv_app_nth script_cost_append script_cost_def)
  then show ?case by blast
next
  case (4 ic dc sc s t i j)
  let ?A = "matrix_cell ic dc sc s t (Suc i) j + ic"
  let ?B = "matrix_cell ic dc sc s t i (Suc j) + dc"
  let ?C = "matrix_cell ic dc sc s t i j + (if s ! i = t ! j then 0 else sc)"
  from 4 have i: "i < length s" "i \<le> length s" and j: "j < length t" "j \<le> length t" by simp_all
  have si: "take (Suc i) s = take i s @ [s ! i]" and tj: "take (Suc j) t = take j t @ [t ! j]"
    using i j by (simp_all add: take_Suc_conv_app_nth)
  have "matrix_cell ic dc sc s t (Suc i) (Suc j) = min (min ?A ?B) ?C" by simp
  then consider "matrix_cell ic dc sc s t (Suc i) (Suc j) = ?A"
    | "matrix_cell ic dc sc s t (Suc i) (Suc j) = ?B"
    | "matrix_cell ic dc sc s t (Suc i) (Suc j) = ?C"
    using min3_cases [of ?A ?B ?C] by metis
  then show ?case
  proof cases
    case 1
    from 4 i j obtain es where es: "apply_script es (take (Suc i) s) = Some (take j t)"
      "script_cost ic dc sc es = matrix_cell ic dc sc s t (Suc i) j" by auto
    have "apply_script (es @ [Insert (t ! j)]) (take (Suc i) s @ []) = Some (take j t @ [t ! j])"
      using es(1) by (intro apply_script_append) simp_all
    with 1 es(2) tj have "apply_script (es @ [Insert (t ! j)]) (take (Suc i) s) = Some (take (Suc j) t) \<and>
        script_cost ic dc sc (es @ [Insert (t ! j)]) = matrix_cell ic dc sc s t (Suc i) (Suc j)"
      by (simp add: script_cost_append script_cost_def)
    then show ?thesis by blast
  next
    case 2
    from 4 i j obtain es where es: "apply_script es (take i s) = Some (take (Suc j) t)"
      "script_cost ic dc sc es = matrix_cell ic dc sc s t i (Suc j)" by auto
    have "apply_script (es @ [Delete]) (take i s @ [s ! i]) = Some (take (Suc j) t @ [])"
      using es(1) by (intro apply_script_append) simp_all
    with 2 es(2) si have "apply_script (es @ [Delete]) (take (Suc i) s) = Some (take (Suc j) t) \<and>
        script_cost ic dc sc (es @ [Delete]) = matrix_cell ic dc sc s t (Suc i) (Suc j)"
      by (simp add: script_cost_append script_cost_def)
    then show ?thesis by blast
  next
    case 3
    from 4 i j obtain es where es: "apply_script es (take i s) = Some (take j t)"
      "script_cost ic dc sc es = matrix_cell ic dc sc s t i j" by auto
    let ?e = "if s ! i = t ! j then Keep else Substitute (t ! j)"
    have "apply_script [?e] [s ! i] = Some [t ! j]" by simp
    with es(1) have "apply_script (es @ [?e]) (take i s @ [s ! i]) = Some (take j t @ [t ! j])"
      by (rule apply_script_append)
    with 3 es(2) si tj have "apply_script (es @ [?e]) (take (Suc i) s) = Some (take (Suc j) t) \<and>
        script_cost ic dc sc (es @ [?e]) = matrix_cell ic dc sc s t (Suc i) (Suc j)"
      by (simp add: script_cost_append script_cost_def)
    then show ?thesis by blast
  qed
qed


subsection \<open>The result of the engine without a bound\<close>

lemma internal_total:
  assumes "length s \<le> 255" "length t \<le> 255"
  shows "dameraulevenshtein_internal_exact mem s t ins_c del_c sub_c trans_c
         = Inr (matrix_cell ins_c del_c sub_c s t (length s) (length t))"
proof (cases "s = [] \<or> t = []")
  case True
  then show ?thesis
    by (auto simp add: dameraulevenshtein_internal_exact_def pg_mbstrlen_with_len_def Let_def
        matrix_cell_row0 matrix_cell_col0)
next
  case False
  with assms show ?thesis by (simp add: internal_matrix)
qed

lemma apply_script_keep: "apply_script (replicate (length u) Keep) u = Some u"
  by (induction u) simp_all

lemma script_cost_keep: "script_cost ic dc sc (replicate k Keep) = 0"
  by (induction k) (simp_all add: script_cost_def)

lemma one_character_more:
  fixes u v :: "'a list"
  shows "matrix_cell 1 1 1 (u @ c # v) (u @ v) (length (u @ c # v)) (length (u @ v)) = 1"
proof -
  let ?es = "replicate (length u) (Keep :: 'a edit_op) @ [Delete] @ replicate (length v) Keep"
  have d: "script_cost 1 1 1 [Delete :: 'a edit_op] = 1" by (simp add: script_cost_def)
  have ku: "script_cost 1 1 1 (replicate (length u) (Keep :: 'a edit_op)) = 0"
    and kv: "script_cost 1 1 1 (replicate (length v) (Keep :: 'a edit_op)) = 0"
    by (rule script_cost_keep)+
  have mid: "apply_script ([Delete] @ replicate (length v) Keep) ([c] @ v) = Some ([] @ v)"
    by (rule apply_script_append) (simp_all add: apply_script_keep)
  have "apply_script ?es (u @ [c] @ v) = Some (u @ [] @ v)"
    by (rule apply_script_append [OF apply_script_keep mid])
  then have "matrix_cell 1 1 1 (u @ c # v) (u @ v) (length (u @ c # v)) (length (u @ v))
      \<le> script_cost 1 1 1 ?es"
    using script_not_cheaper [of 1 ?es "u @ c # v" "u @ v" 1 1] by simp
  also have "script_cost 1 1 1 ?es = 1"
    using script_cost_append [of 1 1 1 "replicate (length u) Keep"
        "[Delete :: 'a edit_op] @ replicate (length v) Keep"]
      script_cost_append [of 1 1 1 "[Delete :: 'a edit_op]" "replicate (length v) Keep"]
      ku kv d
    by simp
  finally have "matrix_cell 1 1 1 (u @ c # v) (u @ v) (length (u @ c # v)) (length (u @ v)) \<le> 1" .
  moreover have "1 \<le> matrix_cell 1 1 1 (u @ c # v) (u @ v) (length (u @ c # v)) (length (u @ v))"
    using matrix_cell_lower [of 1 1 1 "length (u @ v)" "length (u @ c # v)" "u @ c # v" "u @ v"]
    by simp
  ultimately show ?thesis by simp
qed

lemma kitten_sitting_mem7:
  "dameraulevenshtein_internal_exact mem7 (single_byte_text ''kitten'') (single_byte_text ''sitting'')
     1 1 1 1 = Inr 3"
  by code_simp

lemma flaw_lawn_mem7:
  "dameraulevenshtein_internal_exact mem7 (single_byte_text ''flaw'') (single_byte_text ''lawn'')
     1 1 1 1 = Inr 2"
  by code_simp

lemma abc_abc_mem7:
  "dameraulevenshtein_internal_exact mem7 (single_byte_text ''abc'') (single_byte_text ''abc'')
     1 1 1 1 = Inr 0"
  by code_simp

lemma ab_ba_mem7:
  "dameraulevenshtein_internal_exact mem7 (single_byte_text ''ab'') (single_byte_text ''ba'')
     1 1 1 1 = Inr 2"
  by code_simp

lemma internal_any_mem:
  assumes "length s \<le> 255" "length t \<le> 255"
  shows "dameraulevenshtein_internal_exact mem s t ins_c del_c sub_c trans_c
         = dameraulevenshtein_internal_exact mem' s t ins_c del_c sub_c trans_c'"
  using assms by (simp add: internal_total)

subsection \<open>The three-row engine computes its matrix\<close>

lemma length_init_row1: "length (init_row1_exact ins_c len2 j row1) = length row1"
  by (induction ins_c len2 j row1 rule: init_row1_exact.induct) (subst init_row1_exact.simps, simp)

lemma nth_init_row1:
  "k < length row1 \<Longrightarrow>
   init_row1_exact ins_c len2 j row1 ! k = (if j \<le> k \<and> k \<le> len2 then int k * ins_c else row1 ! k)"
proof (induction ins_c len2 j row1 rule: init_row1_exact.induct)
  case (1 ins_c len2 j row1)
  show ?case
  proof (cases "j \<le> len2")
    case True
    with 1 show ?thesis by (subst init_row1_exact.simps) (auto simp add: nth_list_update)
  next
    case False
    then show ?thesis by (subst init_row1_exact.simps) simp
  qed
qed

lemma swap_cell_update:
  assumes "j + 1 < length row2"
  shows "swap_cell_exact string1 string2 ins_c del_c sub_c trans_c i row0 row1 j row2
         = row2[j + 1 := swap_cell_value string1 string2 ins_c del_c sub_c trans_c i row0 row1 j
                           (row2 ! j)]"
  using assms by (auto simp add: swap_cell_exact_def Let_def swap_cell_value_def min_def)

lemma length_swap_cells:
  "length (swap_cells_exact string1 string2 ins_c del_c sub_c trans_c len2 i row0 row1 j row2)
     = length row2"
  by (induction string1 string2 ins_c del_c sub_c trans_c len2 i row0 row1 j row2
      rule: swap_cells_exact.induct)
    (subst swap_cells_exact.simps, simp add: swap_cell_exact_def Let_def)

lemma swap_cells_outside:
  "k \<le> j \<or> len2 < k \<Longrightarrow>
   swap_cells_exact string1 string2 ins_c del_c sub_c trans_c len2 i row0 row1 j row2 ! k = row2 ! k"
proof (induction string1 string2 ins_c del_c sub_c trans_c len2 i row0 row1 j row2
    rule: swap_cells_exact.induct)
  case (1 string1 string2 ins_c del_c sub_c trans_c len2 i row0 row1 j row2)
  show ?case
  proof (cases "j < len2")
    case True
    have "swap_cell_exact string1 string2 ins_c del_c sub_c trans_c i row0 row1 j row2 ! k = row2 ! k"
      using "1.prems" True by (auto simp add: swap_cell_exact_def Let_def)
    with 1 True show ?thesis by (subst swap_cells_exact.simps) auto
  next
    case False
    then show ?thesis by (subst swap_cells_exact.simps) simp
  qed
qed

lemma swap_cells_cell:
  "j \<le> k \<Longrightarrow> k < len2 \<Longrightarrow> len2 < length row2 \<Longrightarrow>
   swap_cells_exact string1 string2 ins_c del_c sub_c trans_c len2 i row0 row1 j row2 ! (k + 1)
     = swap_cell_value string1 string2 ins_c del_c sub_c trans_c i row0 row1 k
         (swap_cells_exact string1 string2 ins_c del_c sub_c trans_c len2 i row0 row1 j row2 ! k)"
proof (induction string1 string2 ins_c del_c sub_c trans_c len2 i row0 row1 j row2
    rule: swap_cells_exact.induct)
  case (1 string1 string2 ins_c del_c sub_c trans_c len2 i row0 row1 j row2)
  let ?v = "swap_cell_value string1 string2 ins_c del_c sub_c trans_c i row0 row1 j (row2 ! j)"
  let ?next = "swap_cells_exact string1 string2 ins_c del_c sub_c trans_c len2 i row0 row1 (j + 1)
                 (row2[j + 1 := ?v])"
  from "1.prems" have run: "j < len2" by simp
  have upd: "swap_cell_exact string1 string2 ins_c del_c sub_c trans_c i row0 row1 j row2
             = row2[j + 1 := ?v]"
    using "1.prems" by (intro swap_cell_update) simp
  have unfold: "swap_cells_exact string1 string2 ins_c del_c sub_c trans_c len2 i row0 row1 j row2 = ?next"
    using run by (subst swap_cells_exact.simps) (simp add: upd)
  show ?case
  proof (cases "k = j")
    case True
    have a: "?next ! (j + 1) = row2[j + 1 := ?v] ! (j + 1)" by (rule swap_cells_outside) simp
    have b: "?next ! j = row2[j + 1 := ?v] ! j" by (rule swap_cells_outside) simp
    have c: "row2[j + 1 := ?v] ! (j + 1) = ?v" using "1.prems" by simp
    have d: "row2[j + 1 := ?v] ! j = row2 ! j" by simp
    show ?thesis unfolding unfold True a b c d ..
  next
    case False
    with "1.prems" have k: "j + 1 \<le> k" by simp
    have len: "len2 < length (row2[j + 1 := ?v])" using "1.prems" by simp
    show ?thesis
      unfolding unfold using "1.IH" [OF run, unfolded upd, OF k "1.prems"(2) len] .
  qed
qed

lemma swap_cells_matrix:
  assumes len: "length row1 = Suc len2" "length row2 = Suc len2"
    and row1: "\<And>j. j \<le> len2 \<Longrightarrow> row1 ! j = swap_matrix ic dc sc tc s1 s2 i j"
    and row0: "\<And>j. 0 < i \<Longrightarrow> j \<le> len2 \<Longrightarrow> row0 ! j = swap_matrix ic dc sc tc s1 s2 (i - 1) j"
  shows "k \<le> len2 \<Longrightarrow>
    swap_cells_exact s1 s2 ic dc sc tc len2 i row0 row1 0 (row2[0 := (int i + 1) * dc]) ! k
      = swap_matrix ic dc sc tc s1 s2 (Suc i) k"
proof (induction k)
  case 0
  then show ?case using len by (simp add: swap_cells_outside)
next
  case (Suc k)
  let ?R = "swap_cells_exact s1 s2 ic dc sc tc len2 i row0 row1 0 (row2[0 := (int i + 1) * dc])"
  from Suc.prems have k: "k < len2" "k \<le> len2" "k - 1 \<le> len2" by simp_all
  have "?R ! (k + 1) = swap_cell_value s1 s2 ic dc sc tc i row0 row1 k (?R ! k)"
    using k len by (intro swap_cells_cell) simp_all
  also have "\<dots> = swap_matrix ic dc sc tc s1 s2 (Suc i) (Suc k)"
    using Suc.IH [OF k(2)] row1 [OF k(2)] row1 [OF Suc.prems] row0 [OF _ k(3)]
    by (simp add: swap_cell_value_def Let_def)
  finally show ?case by simp
qed

lemma swap_rows_matrix:
  assumes "length row0 = Suc len2" "length row1 = Suc len2" "length row2 = Suc len2" "i \<le> len1"
    and "\<And>j. j \<le> len2 \<Longrightarrow> row1 ! j = swap_matrix ic dc sc tc s1 s2 i j"
    and "\<And>j. 0 < i \<Longrightarrow> j \<le> len2 \<Longrightarrow> row0 ! j = swap_matrix ic dc sc tc s1 s2 (i - 1) j"
  shows "swap_rows_exact s1 s2 ic dc sc tc len1 len2 i row0 row1 row2
         = swap_matrix ic dc sc tc s1 s2 len1 len2"
  using assms
proof (induction "len1 - i" arbitrary: i row0 row1 row2)
  case 0
  then have "i = len1" by simp
  with 0 show ?case by (subst swap_rows_exact.simps) simp
next
  case (Suc d)
  let ?row2 = "swap_cells_exact s1 s2 ic dc sc tc len2 i row0 row1 0 (row2[0 := (int i + 1) * dc])"
  from Suc have i: "i < len1" by simp
  have new: "?row2 ! j = swap_matrix ic dc sc tc s1 s2 (Suc i) j" if "j \<le> len2" for j
    using swap_cells_matrix [of row1 len2 row2 ic dc sc tc s1 s2 i row0 j] Suc.prems that
    by simp
  have "swap_rows_exact s1 s2 ic dc sc tc len1 len2 (i + 1) row1 ?row2 row0
        = swap_matrix ic dc sc tc s1 s2 len1 len2"
    using Suc.hyps(2) Suc.prems i new by (intro Suc.hyps(1)) (simp_all add: length_swap_cells)
  then show ?case using i by (subst swap_rows_exact.simps) (simp add: Let_def)
qed

lemma noncompatible_matrix:
  "dameraulevenshtein_internal_noncompatible_exact mem s t ins_c del_c sub_c trans_c
   = swap_matrix ins_c del_c sub_c trans_c (bytes_from s 0) (bytes_from t 0) (length s) (length t)"
proof -
  let ?n = "Suc (length t)"
  let ?buf = "palloc mem (3 * ?n)"
  have "swap_rows_exact (bytes_from s 0) (bytes_from t 0) ins_c del_c sub_c trans_c (length s) (length t) 0
          (take ?n ?buf) (init_row1_exact ins_c (length t) 0 (take ?n (drop ?n ?buf))) (drop (2 * ?n) ?buf)
        = swap_matrix ins_c del_c sub_c trans_c (bytes_from s 0) (bytes_from t 0) (length s) (length t)"
    by (rule swap_rows_matrix) (simp_all add: length_init_row1 nth_init_row1 palloc_def)
  then show ?thesis
    by (simp add: dameraulevenshtein_internal_noncompatible_exact_def pg_mbstrlen_with_len_def Let_def)
qed

lemma bytes_single_byte_text: "bytes_from (single_byte_text str) 0 = str"
  by (induction str) (simp_all add: bytes_from_def single_byte_text_def mb_bytes_def)

lemma length_single_byte_text: "length (single_byte_text str) = length str"
  by (simp add: single_byte_text_def)

lemma noncompatible_ab_ba:
  "dameraulevenshtein_internal_noncompatible_exact mem (single_byte_text ''ab'') (single_byte_text ''ba'')
     1 1 1 trans_c = swap_matrix 1 1 1 trans_c ''ab'' ''ba'' (Suc (Suc 0)) (Suc (Suc 0))"
  by (simp only: noncompatible_matrix bytes_single_byte_text length_single_byte_text) simp

subsection \<open>Viable cells\<close>

lemma residual_nonneg: "0 \<le> ic \<Longrightarrow> 0 \<le> dc \<Longrightarrow> 0 \<le> residual ic dc k"
  by (simp add: residual_def mult_nonneg_nonneg mult_nonpos_nonneg)

lemma residual_up: "0 \<le> ic \<Longrightarrow> 0 \<le> dc \<Longrightarrow> residual ic dc (k + 1) \<le> residual ic dc k + ic"
proof -
  assume a: "0 \<le> ic" "0 \<le> dc"
  consider "k > 0" | "k = 0" | "k < 0" by linarith
  then show ?thesis
  proof cases
    case 1
    then show ?thesis by (simp add: residual_def algebra_simps)
  next
    case 2
    then show ?thesis by (simp add: residual_def)
  next
    case 3
    then have "\<not> k + 1 > 0" by simp
    with 3 a show ?thesis by (simp add: residual_def algebra_simps)
  qed
qed

lemma residual_left: "0 \<le> ic \<Longrightarrow> 0 \<le> dc \<Longrightarrow> residual ic dc (k - 1) \<le> residual ic dc k + dc"
proof -
  assume a: "0 \<le> ic" "0 \<le> dc"
  consider "k > 1" | "k = 1" | "k < 1" by linarith
  then show ?thesis
  proof cases
    case 1
    with a show ?thesis by (simp add: residual_def algebra_simps)
  next
    case 2
    with a show ?thesis by (simp add: residual_def)
  next
    case 3
    then have "\<not> k - 1 > 0" "\<not> k > 0" by simp_all
    with a show ?thesis by (simp add: residual_def algebra_simps)
  qed
qed

lemma net_inserts_at_diagonal: "net_inserts_at s t (Suc j) (Suc i) = net_inserts_at s t j i"
  by (simp add: net_inserts_at_def)

lemma net_inserts_at_up: "net_inserts_at s t j i = net_inserts_at s t (Suc j) i + 1"
  by (simp add: net_inserts_at_def)

lemma net_inserts_at_left: "net_inserts_at s t j i = net_inserts_at s t j (Suc i) - 1"
  by (simp add: net_inserts_at_def)

lemma viable_diagonal:
  assumes "0 \<le> ic" "0 \<le> dc" "0 \<le> sc" "viable ic dc sc max_d s t (Suc j) (Suc i)"
  shows "viable ic dc sc max_d s t j i"
  using assms(4) matrix_cell_diagonal [OF assms(1-3), of s t i j]
  unfolding viable_def net_inserts_at_diagonal by linarith

lemma viable_first_column:
  assumes "0 \<le> ic" "0 \<le> dc" "viable ic dc sc max_d s t (Suc j) 0"
  shows "viable ic dc sc max_d s t j 0"
proof -
  have "residual ic dc (net_inserts_at s t (Suc j) 0 + 1)
        \<le> residual ic dc (net_inserts_at s t (Suc j) 0) + ic"
    using assms by (intro residual_up)
  moreover have "matrix_cell ic dc sc s t 0 (Suc j) = matrix_cell ic dc sc s t 0 j + ic" by simp
  ultimately show ?thesis
    using assms(3) unfolding viable_def net_inserts_at_up [of s t j 0] by linarith
qed

lemma viable_has_predecessor:
  assumes "0 \<le> ic" "0 \<le> dc" "0 \<le> sc" "viable ic dc sc max_d s t (Suc j) i"
  shows "viable ic dc sc max_d s t j (i - 1)"
proof (cases i)
  case 0
  with assms show ?thesis by (simp add: viable_first_column)
next
  case (Suc i')
  with assms show ?thesis by (simp add: viable_diagonal)
qed

lemma no_viable_later:
  assumes "0 \<le> ic" "0 \<le> dc" "0 \<le> sc"
    and "\<And>i. i \<le> m \<Longrightarrow> \<not> viable ic dc sc max_d s t j i"
  shows "i \<le> m \<Longrightarrow> \<not> viable ic dc sc max_d s t (j + k) i"
proof (induction k arbitrary: i)
  case 0
  with assms show ?case by simp
next
  case (Suc k)
  have "i - 1 \<le> m" using Suc.prems by simp
  then have "\<not> viable ic dc sc max_d s t (j + k) (i - 1)" by (rule Suc.IH)
  then show ?case using viable_has_predecessor [OF assms(1-3), of max_d s t "j + k" i] by auto
qed

text \<open>The arithmetic of one cell: good values around a cell make its value good.\<close>

lemma good_step_arith:
  fixes B :: int
  assumes D: "D = min (min (Du + ic) (Dl + dc)) (Dd + c)"
    and v: "v = min (min (u + ic) (l + dc)) (d + c)"
    and ru: "ru \<le> r + ic" and rl: "rl \<le> r + dc" and rd: "rd \<le> r + c"
    and gu: "if Du + ru \<le> B then u = Du else B < u + ru"
    and gl: "if Dl + rl \<le> B then l = Dl else B < l + rl"
    and gd: "if Dd + rd \<le> B then d = Dd else B < d + rd"
  shows "if D + r \<le> B then v = D else B < v + r"
proof -
  have u: "u + ic = Du + ic \<or> B < u + ic + r" using gu ru by (cases "Du + ru \<le> B") simp_all
  have l: "l + dc = Dl + dc \<or> B < l + dc + r" using gl rl by (cases "Dl + rl \<le> B") simp_all
  have d: "d + c = Dd + c \<or> B < d + c + r" using gd rd by (cases "Dd + rd \<le> B") simp_all
  have uu: "Du + ic + r \<le> B \<Longrightarrow> u + ic = Du + ic" using gu ru by (cases "Du + ru \<le> B") simp_all
  have ll: "Dl + dc + r \<le> B \<Longrightarrow> l + dc = Dl + dc" using gl rl by (cases "Dl + rl \<le> B") simp_all
  have dd: "Dd + c + r \<le> B \<Longrightarrow> d + c = Dd + c" using gd rd by (cases "Dd + rd \<le> B") simp_all
  have Dle: "D \<le> Du + ic" "D \<le> Dl + dc" "D \<le> Dd + c" unfolding D by simp_all
  have Dis: "D = Du + ic \<or> D = Dl + dc \<or> D = Dd + c" unfolding D by (simp add: min_def)
  have vle: "v \<le> u + ic" "v \<le> l + dc" "v \<le> d + c" unfolding v by simp_all
  have vis: "v = u + ic \<or> v = l + dc \<or> v = d + c" unfolding v by (simp add: min_def)
  show ?thesis
  proof (cases "D + r \<le> B")
    case True
    have "v \<le> D"
      using Dis
    proof (elim disjE)
      assume "D = Du + ic" with True uu vle(1) show ?thesis by simp
    next
      assume "D = Dl + dc" with True ll vle(2) show ?thesis by simp
    next
      assume "D = Dd + c" with True dd vle(3) show ?thesis by simp
    qed
    moreover have "D \<le> v"
      using vis
    proof (elim disjE)
      assume "v = u + ic" with u True Dle(1) show ?thesis by linarith
    next
      assume "v = l + dc" with l True Dle(2) show ?thesis by linarith
    next
      assume "v = d + c" with d True Dle(3) show ?thesis by linarith
    qed
    ultimately show ?thesis using True by simp
  next
    case False
    have "B < v + r"
      using vis
    proof (elim disjE)
      assume "v = u + ic" with u False Dle(1) show ?thesis by linarith
    next
      assume "v = l + dc" with l False Dle(2) show ?thesis by linarith
    next
      assume "v = d + c" with d False Dle(3) show ?thesis by linarith
    qed
    then show ?thesis using False by simp
  qed
qed

lemma good_cell:
  assumes costs: "0 \<le> ic" "0 \<le> dc" "0 \<le> sc"
    and up: "good_value ic dc sc B s t j (Suc k) up"
    and left: "good_value ic dc sc B s t (Suc j) k left"
    and diag: "good_value ic dc sc B s t j k diag"
  shows "good_value ic dc sc B s t (Suc j) (Suc k)
           (min (min (up + ic) (left + dc)) (if s ! k = t ! j then diag else diag + sc))"
proof -
  let ?c = "if s ! k = t ! j then 0 else sc"
  let ?r = "residual ic dc (net_inserts_at s t (Suc j) (Suc k))"
  have v: "min (min (up + ic) (left + dc)) (if s ! k = t ! j then diag else diag + sc)
           = min (min (up + ic) (left + dc)) (diag + ?c)" by simp
  have D: "matrix_cell ic dc sc s t (Suc k) (Suc j)
           = min (min (matrix_cell ic dc sc s t (Suc k) j + ic) (matrix_cell ic dc sc s t k (Suc j) + dc))
               (matrix_cell ic dc sc s t k j + ?c)" by simp
  have ru: "residual ic dc (net_inserts_at s t j (Suc k)) \<le> ?r + ic"
    unfolding net_inserts_at_up [of s t j "Suc k"] using costs by (intro residual_up)
  have rl: "residual ic dc (net_inserts_at s t (Suc j) k) \<le> ?r + dc"
    unfolding net_inserts_at_left [of s t "Suc j" k] using costs by (intro residual_left)
  have rd: "residual ic dc (net_inserts_at s t j k) \<le> ?r + ?c"
    unfolding net_inserts_at_diagonal using costs by simp
  show ?thesis
    unfolding v good_value_def viable_def
    using D refl ru rl rd up [unfolded good_value_def viable_def]
      left [unfolded good_value_def viable_def] diag [unfolded good_value_def viable_def]
    by (rule good_step_arith)
qed

lemma good_value_outside:
  assumes "0 \<le> ic" "0 \<le> dc" "\<not> viable ic dc sc B s t j i"
  shows "good_value ic dc sc B s t j i (B + 1)"
  using assms residual_nonneg [of ic dc "net_inserts_at s t j i"]
  by (simp add: good_value_def)

lemma good_value_exact: "good_value ic dc sc B s t j i (matrix_cell ic dc sc s t i j)"
  by (simp add: good_value_def viable_def)

lemma good_value_test:
  "good_value ic dc sc B s t j i v \<Longrightarrow>
   v + residual ic dc (net_inserts_at s t j i) \<le> B \<longleftrightarrow> viable ic dc sc B s t j i"
  by (auto simp add: good_value_def viable_def split: if_splits)

subsection \<open>The two sliding loops\<close>

lemma slide_stop_0: "slide_stop_exact ins_c del_c max_d zp prev 0 = 0"
  by (subst slide_stop_exact.simps) simp

lemma slide_stop_Suc:
  "slide_stop_exact ins_c del_c max_d zp prev (Suc k)
   = (if prev ! k + residual ins_c del_c (int k - zp) \<le> max_d then Suc k
      else slide_stop_exact ins_c del_c max_d zp prev k)"
  by (subst slide_stop_exact.simps) (simp add: Let_def residual_def)

lemma slide_stop_le: "slide_stop_exact ins_c del_c max_d zp prev stop_column \<le> stop_column"
  by (induction stop_column) (simp_all add: slide_stop_0 slide_stop_Suc le_SucI)

lemma slide_stop_dropped:
  "slide_stop_exact ins_c del_c max_d zp prev stop_column \<le> i \<Longrightarrow> i < stop_column \<Longrightarrow>
   \<not> prev ! i + residual ins_c del_c (int i - zp) \<le> max_d"
proof (induction stop_column)
  case 0
  then show ?case by simp
next
  case (Suc k)
  show ?case
  proof (cases "prev ! k + residual ins_c del_c (int k - zp) \<le> max_d")
    case True
    with Suc.prems show ?thesis by (simp add: slide_stop_Suc)
  next
    case False
    show ?thesis
    proof (cases "i = k")
      case True
      with False show ?thesis by simp
    next
      case ne: False
      with Suc.prems False show ?thesis by (intro Suc.IH) (simp_all add: slide_stop_Suc)
    qed
  qed
qed

lemma slide_stop_kept:
  "0 < slide_stop_exact ins_c del_c max_d zp prev stop_column \<Longrightarrow>
   prev ! (slide_stop_exact ins_c del_c max_d zp prev stop_column - 1)
     + residual ins_c del_c (int (slide_stop_exact ins_c del_c max_d zp prev stop_column - 1) - zp) \<le> max_d"
proof (induction stop_column)
  case 0
  then show ?case by (simp add: slide_stop_0)
next
  case (Suc k)
  show ?case
  proof (cases "prev ! k + residual ins_c del_c (int k - zp) \<le> max_d")
    case True
    then show ?thesis by (simp add: slide_stop_Suc)
  next
    case False
    with Suc show ?thesis by (simp add: slide_stop_Suc)
  qed
qed

lemma slide_start_unfold:
  "slide_start_exact ins_c del_c max_d zp stop_column (prev, cur, start_column, s_data)
   = (if start_column < stop_column then
        (if prev ! start_column + residual ins_c del_c (int start_column - zp) \<le> max_d
         then (prev, cur, start_column, s_data)
         else slide_start_exact ins_c del_c max_d zp stop_column
                (prev[start_column := max_d + 1], cur[start_column := max_d + 1],
                 start_column + 1, if start_column \<noteq> 0 then s_data + 1 else s_data))
      else (prev, cur, start_column, s_data))"
  by (subst slide_start_exact.simps) (simp add: Let_def residual_def)

text \<open>
  What the loop that slides the start column leaves: the columns it passes fail the test
  and hold \<open>max_d + 1\<close> in both rows, the other columns are as before, the new start
  column passes the test unless the window is empty, and \<open>s_data\<close> has moved with it.
\<close>

lemma slide_start_spec:
  assumes "slide_start_exact ins_c del_c max_d zp stop_column (prev, cur, start_column, s_data)
           = (prev', cur', start', s_data')"
    and "stop_column \<le> length prev" "length cur = length prev" "s_data = start_column - 1"
  shows "length prev' = length prev \<and> length cur' = length cur \<and>
         start_column \<le> start' \<and> (start_column \<le> stop_column \<longrightarrow> start' \<le> stop_column) \<and>
         (stop_column \<le> start_column \<longrightarrow> start' = start_column) \<and>
         s_data' = start' - 1 \<and>
         (\<forall>i. start_column \<le> i \<and> i < start' \<longrightarrow>
              prev' ! i = max_d + 1 \<and> cur' ! i = max_d + 1 \<and>
              \<not> prev ! i + residual ins_c del_c (int i - zp) \<le> max_d) \<and>
         (\<forall>i. i < start_column \<or> start' \<le> i \<longrightarrow> prev' ! i = prev ! i \<and> cur' ! i = cur ! i) \<and>
         (start' < stop_column \<longrightarrow>
            prev ! start' + residual ins_c del_c (int start' - zp) \<le> max_d)"
  using assms
proof (induction "stop_column - start_column" arbitrary: prev cur start_column s_data)
  case 0
  then have ge: "\<not> start_column < stop_column" by simp
  have "(prev', cur', start', s_data') = (prev, cur, start_column, s_data)"
    using "0.prems"(1) ge by (subst (asm) slide_start_unfold) simp
  with 0 show ?case by auto
next
  case (Suc d)
  then have lt: "start_column < stop_column" by simp
  show ?case
  proof (cases "prev ! start_column + residual ins_c del_c (int start_column - zp) \<le> max_d")
    case True
    have "(prev', cur', start', s_data') = (prev, cur, start_column, s_data)"
      using Suc.prems(1) lt True by (subst (asm) slide_start_unfold) simp
    with True lt Suc.prems(4) show ?thesis by auto
  next
    case False
    let ?prev = "prev[start_column := max_d + 1]" and ?cur = "cur[start_column := max_d + 1]"
    let ?sd = "if start_column \<noteq> 0 then s_data + 1 else s_data"
    have eq: "slide_start_exact ins_c del_c max_d zp stop_column (?prev, ?cur, start_column + 1, ?sd)
              = (prev', cur', start', s_data')"
      using Suc.prems(1) lt False by (subst (asm) slide_start_unfold) simp
    have d: "d = stop_column - (start_column + 1)" using Suc.hyps(2) by simp
    have sd: "?sd = start_column + 1 - 1" using Suc.prems(4) by auto
    have IH: "length prev' = length ?prev \<and> length cur' = length ?cur \<and>
         start_column + 1 \<le> start' \<and> (start_column + 1 \<le> stop_column \<longrightarrow> start' \<le> stop_column) \<and>
         (stop_column \<le> start_column + 1 \<longrightarrow> start' = start_column + 1) \<and>
         s_data' = start' - 1 \<and>
         (\<forall>i. start_column + 1 \<le> i \<and> i < start' \<longrightarrow>
              prev' ! i = max_d + 1 \<and> cur' ! i = max_d + 1 \<and>
              \<not> ?prev ! i + residual ins_c del_c (int i - zp) \<le> max_d) \<and>
         (\<forall>i. i < start_column + 1 \<or> start' \<le> i \<longrightarrow> prev' ! i = ?prev ! i \<and> cur' ! i = ?cur ! i) \<and>
         (start' < stop_column \<longrightarrow>
            ?prev ! start' + residual ins_c del_c (int start' - zp) \<le> max_d)"
      using Suc.prems(2,3) by (intro Suc.hyps(1) [OF d eq _ _ sd]) simp_all
    from IH have ge: "start_column + 1 \<le> start'" by simp
    have in_range: "start_column < length prev" "start_column < length cur"
      using lt Suc.prems(2,3) by simp_all
    have at: "prev' ! start_column = max_d + 1" "cur' ! start_column = max_d + 1"
      using IH in_range by simp_all
    have other: "?prev ! i = prev ! i" "?cur ! i = cur ! i" if "i \<noteq> start_column" for i
      using that by simp_all
    show ?thesis
    proof (intro conjI allI impI)
      show "length prev' = length prev" "length cur' = length cur" using IH by simp_all
      show "start_column \<le> start'" using ge by simp
      show "start' \<le> stop_column" using IH lt by simp
      show "start' = start_column" if "stop_column \<le> start_column" using that lt by simp
      show "s_data' = start' - 1" using IH by simp
    next
      fix i assume i: "start_column \<le> i \<and> i < start'"
      show "prev' ! i = max_d + 1" using i IH at by (cases "i = start_column") auto
      show "cur' ! i = max_d + 1" using i IH at by (cases "i = start_column") auto
      show "\<not> prev ! i + residual ins_c del_c (int i - zp) \<le> max_d"
      proof (cases "i = start_column")
        case True
        with False show ?thesis by simp
      next
        case ne: False
        with i have "start_column + 1 \<le> i \<and> i < start'" by simp
        with IH have "\<not> ?prev ! i + residual ins_c del_c (int i - zp) \<le> max_d" by blast
        with ne show ?thesis by (simp add: other)
      qed
    next
      fix i assume i: "i < start_column \<or> start' \<le> i"
      with ge have ne: "i \<noteq> start_column" by auto
      from i ge have "i < start_column + 1 \<or> start' \<le> i" by auto
      with IH have "prev' ! i = ?prev ! i \<and> cur' ! i = ?cur ! i" by blast
      with ne show "prev' ! i = prev ! i" "cur' ! i = cur ! i" by (simp_all add: other)
    next
      assume "start' < stop_column"
      with IH have "?prev ! start' + residual ins_c del_c (int start' - zp) \<le> max_d" by blast
      moreover have "start' \<noteq> start_column" using ge by simp
      ultimately show "prev ! start' + residual ins_c del_c (int start' - zp) \<le> max_d"
        by (simp add: other)
    qed
  qed
qed

subsection \<open>One pass over a row keeps the window right\<close>

lemma fill_pass_eq:
  "fill_pass_exact s_char_len s t t_bytes ins_c del_c sub_c max_d m n j y
     (prev, cur, start_column, stop_column, s_data)
   = (fill_row_exact s_char_len s t y (if n \<noteq> t_bytes + 1 then pg_mblen t y else 1) ins_c del_c sub_c
        (if stop_column < m then prev[stop_column := max_d + 1] else prev)
        (if stop_column < m then stop_column + 1 else stop_column)
        (if start_column = 0 then 1 else start_column) s_data
        (if start_column = 0 then cur[0 := int j * ins_c] else cur),
      if stop_column < m then prev[stop_column := max_d + 1] else prev,
      start_column,
      if stop_column < m then stop_column + 1 else stop_column,
      s_data)"
  by (simp add: fill_pass_exact_def Let_def)

lemma fill_row_good:
  assumes costs: "0 \<le> ic" "0 \<le> dc" "0 \<le> sc"
    and bounds: "0 < i0" "stop \<le> Suc (length s)" "stop \<le> length cur" "j < length t"
    and up: "\<And>k. i0 \<le> k \<Longrightarrow> k < stop \<Longrightarrow> good_value ic dc sc B s t j k (prev ! k)"
    and diag: "\<And>k. i0 \<le> k \<Longrightarrow> k < stop \<Longrightarrow> good_value ic dc sc B s t j (k - 1) (prev ! (k - 1))"
    and left: "good_value ic dc sc B s t (Suc j) (i0 - 1) (cur ! (i0 - 1))"
  shows "i0 - 1 \<le> k \<Longrightarrow> k < stop \<Longrightarrow>
    good_value ic dc sc B s t (Suc j) k
      (fill_row_exact (build_s_char_len s t) s t j
         (if Suc (length t) \<noteq> VARSIZE_ANY_EXHDR t + 1 then pg_mblen t j else 1)
         ic dc sc prev stop i0 (i0 - 1) cur ! k)"
proof (induction k)
  case 0
  with bounds(1) have "i0 - 1 = 0" by simp
  with left bounds(1) show ?case by (simp add: fill_row_outside)
next
  case (Suc k)
  let ?ycl = "if Suc (length t) \<noteq> VARSIZE_ANY_EXHDR t + 1 then pg_mblen t j else 1"
  let ?R = "fill_row_exact (build_s_char_len s t) s t j ?ycl ic dc sc prev stop i0 (i0 - 1) cur"
  show ?case
  proof (cases "Suc k = i0 - 1")
    case True
    then have "?R ! Suc k = cur ! (i0 - 1)" using bounds(1) by (simp add: fill_row_outside)
    with left True show ?thesis by simp
  next
    case False
    with Suc.prems have k: "i0 \<le> Suc k" "i0 - 1 \<le> k" "k < stop" by simp_all
    from Suc.prems bounds have ks: "k < length s" by simp
    have x: "i0 - 1 + (Suc k - i0) = k" using k(1) bounds(1) by simp
    have same: "char_same (build_s_char_len s t) s (i0 - 1 + (Suc k - i0)) t j ?ycl (Suc k)
        \<longleftrightarrow> s ! k = t ! j"
      unfolding x using ks bounds(4) by (intro char_same_correct) simp_all
    have cell: "?R ! Suc k = min (min (prev ! Suc k + ic) (?R ! (Suc k - 1) + dc))
        (if char_same (build_s_char_len s t) s (i0 - 1 + (Suc k - i0)) t j ?ycl (Suc k)
         then prev ! (Suc k - 1) else prev ! (Suc k - 1) + sc)"
      using bounds(1,3) k(1) Suc.prems(2) by (intro fill_row_cell) simp_all
    have sk: "Suc k - 1 = k" by simp
    have "good_value ic dc sc B s t (Suc j) (Suc k)
        (min (min (prev ! Suc k + ic) (?R ! k + dc)) (if s ! k = t ! j then prev ! k else prev ! k + sc))"
      using costs up [OF k(1) Suc.prems(2)] Suc.IH [OF k(2,3)]
        diag [OF k(1) Suc.prems(2), unfolded sk]
      by (rule good_cell)
    then show ?thesis unfolding cell same sk .
  qed
qed

lemma window_inv_parts:
  assumes "window_inv ic dc sc B s t j (prev, cur, start_column, stop_column, s_data)"
  shows "length prev = Suc (length s)" "length cur = Suc (length s)"
    "start_column < stop_column" "stop_column \<le> Suc (length s)" "s_data = start_column - 1"
    "\<And>i. start_column \<le> i \<Longrightarrow> i < stop_column \<Longrightarrow> good_value ic dc sc B s t j i (prev ! i)"
    "\<And>i. i < start_column \<Longrightarrow> prev ! i = B + 1"
    "\<And>i. i < start_column \<Longrightarrow> cur ! i = B + 1"
    "\<And>i. i \<le> length s \<Longrightarrow> viable ic dc sc B s t j i \<Longrightarrow> start_column \<le> i"
    "\<And>i. i \<le> length s \<Longrightarrow> viable ic dc sc B s t j i \<Longrightarrow> i < stop_column"
    "viable ic dc sc B s t j start_column"
  using assms by (simp_all add: window_inv_def window_ok_def)

lemma fill_pass_ok:
  assumes costs: "0 \<le> ic" "0 \<le> dc" "0 \<le> sc"
    and inv: "window_inv ic dc sc B s t j (prev, cur, start_column, stop_column, s_data)"
    and j: "j < length t"
  shows "window_ok ic dc sc B s t (Suc j)
           (fill_pass_exact (build_s_char_len s t) s t (VARSIZE_ANY_EXHDR t) ic dc sc B
              (Suc (length s)) (Suc (length t)) (Suc j) j
              (prev, cur, start_column, stop_column, s_data))"
proof -
  note p = window_inv_parts [OF inv]
  define prev1 where "prev1 = (if stop_column < Suc (length s) then prev[stop_column := B + 1] else prev)"
  define stop1 where "stop1 = (if stop_column < Suc (length s) then stop_column + 1 else stop_column)"
  define i0 where "i0 = (if start_column = 0 then 1 else start_column)"
  define cur1 where "cur1 = (if start_column = 0 then cur[0 := int (Suc j) * ic] else cur)"
  define R where "R = fill_row_exact (build_s_char_len s t) s t j
         (if Suc (length t) \<noteq> VARSIZE_ANY_EXHDR t + 1 then pg_mblen t j else 1)
         ic dc sc prev1 stop1 i0 (i0 - 1) cur1"
  have sd: "s_data = i0 - 1" using p(5) by (simp add: i0_def)
  have eq: "fill_pass_exact (build_s_char_len s t) s t (VARSIZE_ANY_EXHDR t) ic dc sc B
              (Suc (length s)) (Suc (length t)) (Suc j) j
              (prev, cur, start_column, stop_column, s_data)
            = (R, prev1, start_column, stop1, s_data)"
    unfolding fill_pass_eq R_def prev1_def stop1_def i0_def cur1_def sd [unfolded i0_def] ..
  have len: "length prev1 = Suc (length s)" "length cur1 = Suc (length s)" "length R = Suc (length s)"
    using p(1,2) by (simp_all add: prev1_def cur1_def R_def length_fill_row)
  have stop1: "stop1 \<le> Suc (length s)" "start_column < stop1" "stop_column \<le> stop1"
    using p(3,4) by (simp_all add: stop1_def)
  have i0: "0 < i0" "start_column \<le> i0" "i0 - 1 \<le> start_column" by (simp_all add: i0_def)
  have not_viable_j: "\<not> viable ic dc sc B s t j i" if "i < start_column" for i
    using p(9) [of i] p(3,4) that by auto
  have viable_in: "start_column \<le> i \<and> i < stop1" if "i \<le> length s" "viable ic dc sc B s t (Suc j) i" for i
  proof -
    have v: "viable ic dc sc B s t j (i - 1)" using costs that(2) by (rule viable_has_predecessor)
    have "i - 1 \<le> length s" using that(1) by simp
    then have "start_column \<le> i - 1" "i - 1 < stop_column" using v p(9,10) by blast+
    then show ?thesis using that(1) by (auto simp add: stop1_def)
  qed
  have not_viable_j1: "\<not> viable ic dc sc B s t (Suc j) i" if "i < start_column" for i
    using viable_in [of i] p(3,4) that by auto
  have prev1_old: "prev1 ! k = prev ! k" if "k < stop_column" for k
    using that by (simp add: prev1_def)
  have up: "good_value ic dc sc B s t j k (prev1 ! k)" if "i0 \<le> k" "k < stop1" for k
  proof (cases "k < stop_column")
    case True
    with that i0 p(6) [of k] show ?thesis by (simp add: prev1_old)
  next
    case False
    with that have k: "k = stop_column" "stop_column < Suc (length s)"
      by (auto simp add: stop1_def split: if_splits)
    then have "prev1 ! k = B + 1" using p(1) by (simp add: prev1_def)
    moreover have "\<not> viable ic dc sc B s t j k" using p(10) [of k] k by auto
    ultimately show ?thesis using costs by (simp add: good_value_outside)
  qed
  have diag: "good_value ic dc sc B s t j (k - 1) (prev1 ! (k - 1))" if "i0 \<le> k" "k < stop1" for k
  proof -
    have lt: "k - 1 < stop_column" using that i0 by (auto simp add: stop1_def split: if_splits)
    show ?thesis
    proof (cases "start_column \<le> k - 1")
      case True
      with lt p(6) [of "k - 1"] show ?thesis by (simp add: prev1_old)
    next
      case False
      then have "prev1 ! (k - 1) = B + 1" using lt p(7) [of "k - 1"] by (simp add: prev1_old)
      moreover have "\<not> viable ic dc sc B s t j (k - 1)" using False by (intro not_viable_j) simp
      ultimately show ?thesis using costs by (simp add: good_value_outside)
    qed
  qed
  have left: "good_value ic dc sc B s t (Suc j) (i0 - 1) (cur1 ! (i0 - 1))"
  proof (cases "start_column = 0")
    case True
    then have "cur1 ! (i0 - 1) = matrix_cell ic dc sc s t 0 (Suc j)"
      using p(2) by (simp add: cur1_def i0_def matrix_cell_col0 del: matrix_cell.simps)
    moreover have "i0 - 1 = 0" using True by (simp add: i0_def)
    ultimately show ?thesis using good_value_exact [of ic dc sc B s t "Suc j" 0] by simp
  next
    case False
    then have "cur1 ! (i0 - 1) = B + 1" using p(8) [of "start_column - 1"] by (simp add: cur1_def i0_def)
    moreover have "\<not> viable ic dc sc B s t (Suc j) (i0 - 1)"
      using False by (intro not_viable_j1) (simp add: i0_def)
    ultimately show ?thesis using costs by (simp add: good_value_outside)
  qed
  have good: "good_value ic dc sc B s t (Suc j) k (R ! k)" if "start_column \<le> k" "k < stop1" for k
    unfolding R_def using costs i0(1) stop1(1) _ j up diag left
  proof (rule fill_row_good)
    show "stop1 \<le> length cur1" using stop1(1) len(2) by simp
    show "i0 - 1 \<le> k" using that(1) i0(3) by simp
    show "k < stop1" by (rule that(2))
  qed
  have below_R: "R ! i = B + 1" if "i < start_column" for i
  proof -
    from that have "start_column \<noteq> 0" by simp
    then have "cur1 = cur" "i < i0" using that by (simp_all add: cur1_def i0_def)
    then show ?thesis using p(8) [OF that] by (simp add: R_def fill_row_outside)
  qed
  have below_prev1: "prev1 ! i = B + 1" if "i < start_column" for i
    using that p(3) p(7) [OF that] by (simp add: prev1_old)
  show ?thesis
    unfolding eq window_ok_def
    using len stop1 p(5) good below_R below_prev1 viable_in by simp
qed

lemma window_ok_parts:
  assumes "window_ok ic dc sc B s t j (prev, cur, start_column, stop_column, s_data)"
  shows "length prev = Suc (length s)" "length cur = Suc (length s)"
    "start_column < stop_column" "stop_column \<le> Suc (length s)" "s_data = start_column - 1"
    "\<And>i. start_column \<le> i \<Longrightarrow> i < stop_column \<Longrightarrow> good_value ic dc sc B s t j i (prev ! i)"
    "\<And>i. i < start_column \<Longrightarrow> prev ! i = B + 1"
    "\<And>i. i < start_column \<Longrightarrow> cur ! i = B + 1"
    "\<And>i. i \<le> length s \<Longrightarrow> viable ic dc sc B s t j i \<Longrightarrow> start_column \<le> i"
    "\<And>i. i \<le> length s \<Longrightarrow> viable ic dc sc B s t j i \<Longrightarrow> i < stop_column"
  using assms by (simp_all add: window_ok_def)

lemma slide_pass_eq:
  "slide_pass_exact ins_c del_c max_d m n j (prev, cur, start_column, stop_column, s_data)
   = (case slide_start_exact ins_c del_c max_d (int j - (int n - int m))
             (slide_stop_exact ins_c del_c max_d (int j - (int n - int m)) prev stop_column)
             (prev, cur, start_column, s_data) of
        (prev', cur', start', s_data') \<Rightarrow>
          (prev', cur', start',
           slide_stop_exact ins_c del_c max_d (int j - (int n - int m)) prev stop_column, s_data'))"
  by (simp add: slide_pass_exact_def Let_def)

lemma slide_pass_inv:
  assumes costs: "0 \<le> ic" "0 \<le> dc" "0 \<le> sc"
    and ok: "window_ok ic dc sc B s t j (prev, cur, start_column, stop_column, s_data)"
    and res: "slide_pass_exact ic dc B (Suc (length s)) (Suc (length t)) j
                (prev, cur, start_column, stop_column, s_data)
              = (prev', cur', start', stop', s_data')"
  shows "stop' \<le> stop_column"
    and "stop' \<le> start' \<Longrightarrow> i \<le> length s \<Longrightarrow> \<not> viable ic dc sc B s t j i"
    and "start' < stop' \<Longrightarrow> window_inv ic dc sc B s t j (prev', cur', start', stop', s_data')"
proof -
  note p = window_ok_parts [OF ok]
  define zp where "zp = int j - (int (Suc (length t)) - int (Suc (length s)))"
  have net: "int i - zp = net_inserts_at s t j i" for i
    by (simp add: zp_def net_inserts_at_def)
  define stop2 where "stop2 = slide_stop_exact ic dc B zp prev stop_column"
  from res have start_res: "slide_start_exact ic dc B zp stop2 (prev, cur, start_column, s_data)
      = (prev', cur', start', s_data')" and stop': "stop' = stop2"
    unfolding slide_pass_eq zp_def [symmetric] stop2_def [symmetric]
    by (auto split: prod.splits)
  have stop2: "stop2 \<le> stop_column" unfolding stop2_def by (rule slide_stop_le)
  then show "stop' \<le> stop_column" using stop' by simp
  have test: "prev ! i + residual ic dc (int i - zp) \<le> B \<longleftrightarrow> viable ic dc sc B s t j i"
    if "i < stop_column" for i
  proof (cases "start_column \<le> i")
    case True
    then show ?thesis unfolding net using that by (intro good_value_test p(6))
  next
    case False
    then have "prev ! i = B + 1" by (intro p(7)) simp
    moreover have "0 \<le> residual ic dc (int i - zp)" using costs by (intro residual_nonneg)
    moreover have "\<not> viable ic dc sc B s t j i" using p(9) [of i] False that p(4) by auto
    ultimately show ?thesis by simp
  qed
  have in_stop: "i < stop2" if "i \<le> length s" "viable ic dc sc B s t j i" for i
  proof (rule ccontr)
    assume "\<not> i < stop2"
    then have "stop2 \<le> i" by simp
    moreover have lt: "i < stop_column" using that by (rule p(10))
    ultimately have "\<not> prev ! i + residual ic dc (int i - zp) \<le> B"
      unfolding stop2_def by (rule slide_stop_dropped)
    with test [OF lt] that(2) show False by simp
  qed
  have spec: "length prev' = length prev \<and> length cur' = length cur \<and>
         start_column \<le> start' \<and> (start_column \<le> stop2 \<longrightarrow> start' \<le> stop2) \<and>
         (stop2 \<le> start_column \<longrightarrow> start' = start_column) \<and>
         s_data' = start' - 1 \<and>
         (\<forall>i. start_column \<le> i \<and> i < start' \<longrightarrow>
              prev' ! i = B + 1 \<and> cur' ! i = B + 1 \<and>
              \<not> prev ! i + residual ic dc (int i - zp) \<le> B) \<and>
         (\<forall>i. i < start_column \<or> start' \<le> i \<longrightarrow> prev' ! i = prev ! i \<and> cur' ! i = cur ! i) \<and>
         (start' < stop2 \<longrightarrow> prev ! start' + residual ic dc (int start' - zp) \<le> B)"
    using start_res
  proof (rule slide_start_spec)
    show "stop2 \<le> length prev" using stop2 p(1,4) by simp
    show "length cur = length prev" using p(1,2) by simp
    show "s_data = start_column - 1" by (rule p(5))
  qed
  have in_start: "start' \<le> i" if "i \<le> length s" "viable ic dc sc B s t j i" for i
  proof (rule ccontr)
    assume "\<not> start' \<le> i"
    moreover have "start_column \<le> i" using that by (rule p(9))
    ultimately have "\<not> prev ! i + residual ic dc (int i - zp) \<le> B" using spec by simp
    moreover have "i < stop_column" using that by (rule p(10))
    ultimately show False using test that(2) by simp
  qed
  show "\<not> viable ic dc sc B s t j i" if "stop' \<le> start'" "i \<le> length s" for i
    using in_start [of i] in_stop [of i] that stop' by auto
  show "window_inv ic dc sc B s t j (prev', cur', start', stop', s_data')" if lt: "start' < stop'"
  proof -
    have good: "good_value ic dc sc B s t j i (prev' ! i)" if "start' \<le> i" "i < stop2" for i
    proof -
      have "prev' ! i = prev ! i" using spec that(1) by simp
      moreover have "start_column \<le> i" "i < stop_column" using spec that stop2 by simp_all
      ultimately show ?thesis using p(6) [of i] by simp
    qed
    have below: "prev' ! i = B + 1 \<and> cur' ! i = B + 1" if "i < start'" for i
    proof (cases "i < start_column")
      case True
      then have "prev' ! i = prev ! i" "cur' ! i = cur ! i" using spec by simp_all
      with p(7,8) [OF True] show ?thesis by simp
    next
      case False
      with that spec show ?thesis by simp
    qed
    have "prev ! start' + residual ic dc (int start' - zp) \<le> B" using spec lt stop' by simp
    moreover have "start' < stop_column" using lt stop' stop2 by simp
    ultimately have vs: "viable ic dc sc B s t j start'" using test by simp
    show ?thesis
      unfolding window_inv_def window_ok_def
      using spec p(1,2,4) lt stop' stop2 good below in_start in_stop vs by simp
  qed
qed

subsection \<open>The loop over the rows with a window\<close>

lemma window_row_cases:
  assumes costs: "0 \<le> ic" "0 \<le> dc" "0 \<le> sc" and B: "0 \<le> B"
    and inv: "window_inv ic dc sc B s t j st" and j: "j < length t"
  shows "case window_row_exact (build_s_char_len s t) s t (VARSIZE_ANY_EXHDR t) ic dc sc B
                (Suc (length s)) (Suc (length t)) (Suc j) j st of
           Inl d \<Rightarrow> d = B + 1 \<and> (\<forall>i \<le> length s. \<not> viable ic dc sc B s t (Suc j) i)
         | Inr st' \<Rightarrow> window_inv ic dc sc B s t (Suc j) st'"
proof -
  obtain prev cur start_column stop_column s_data
    where st: "st = (prev, cur, start_column, stop_column, s_data)" by (cases st) auto
  let ?fp = "fill_pass_exact (build_s_char_len s t) s t (VARSIZE_ANY_EXHDR t) ic dc sc B
              (Suc (length s)) (Suc (length t)) (Suc j) j st"
  obtain prev1 cur1 start1 stop1 s_data1
    where fp: "?fp = (prev1, cur1, start1, stop1, s_data1)" by (cases ?fp) auto
  have ok: "window_ok ic dc sc B s t (Suc j) (prev1, cur1, start1, stop1, s_data1)"
    using fill_pass_ok [OF costs inv [unfolded st] j] fp [unfolded st] by simp
  let ?sp = "slide_pass_exact ic dc B (Suc (length s)) (Suc (length t)) (Suc j)
               (prev1, cur1, start1, stop1, s_data1)"
  obtain prev' cur' start' stop' s_data'
    where sp: "?sp = (prev', cur', start', stop', s_data')" by (cases ?sp) auto
  note r = slide_pass_inv [OF costs ok sp]
  have row: "window_row_exact (build_s_char_len s t) s t (VARSIZE_ANY_EXHDR t) ic dc sc B
                (Suc (length s)) (Suc (length t)) (Suc j) j st
             = (if start' \<ge> stop' then Inl (B + 1) else Inr (prev', cur', start', stop', s_data'))"
    using B by (simp add: window_row_exact_def fp sp Let_def)
  show ?thesis
  proof (cases "start' \<ge> stop'")
    case True
    with r(2) row show ?thesis by simp
  next
    case False
    with r(3) row show ?thesis by simp
  qed
qed

lemma matrix_cell_del_steps:
  "matrix_cell ic dc sc s t (i + k) j \<le> matrix_cell ic dc sc s t i j + int k * dc"
proof (induction k)
  case 0
  show ?case by simp
next
  case (Suc k)
  have "matrix_cell ic dc sc s t (Suc (i + k)) j \<le> matrix_cell ic dc sc s t (i + k) j + dc"
    by (rule matrix_cell_del_step)
  with Suc show ?case by (simp add: algebra_simps)
qed

lemma window_inv_last_row:
  assumes costs: "0 \<le> ic" "0 \<le> dc" "0 \<le> sc"
    and inv: "window_inv ic dc sc B s t (length t) (prev, cur, start_column, stop_column, s_data)"
  shows "prev ! length s = matrix_cell ic dc sc s t (length s) (length t)"
    and "matrix_cell ic dc sc s t (length s) (length t) \<le> B"
proof -
  note p = window_inv_parts [OF inv]
  let ?k = "length s - start_column"
  have k: "start_column + ?k = length s" using p(3,4) by simp
  have "net_inserts_at s t (length t) start_column = - int ?k"
    using p(3,4) by (simp add: net_inserts_at_def)
  then have "residual ic dc (net_inserts_at s t (length t) start_column) = int ?k * dc"
    by (simp add: residual_def)
  with p(11) have "matrix_cell ic dc sc s t start_column (length t) + int ?k * dc \<le> B"
    by (simp add: viable_def)
  moreover have "matrix_cell ic dc sc s t (start_column + ?k) (length t)
      \<le> matrix_cell ic dc sc s t start_column (length t) + int ?k * dc"
    by (rule matrix_cell_del_steps)
  ultimately show le: "matrix_cell ic dc sc s t (length s) (length t) \<le> B"
    unfolding k by linarith
  have "net_inserts_at s t (length t) (length s) = 0" by (simp add: net_inserts_at_def)
  with le have v: "viable ic dc sc B s t (length t) (length s)"
    by (simp add: viable_def residual_def)
  then have "start_column \<le> length s" "length s < stop_column" using p(9,10) by simp_all
  then have "good_value ic dc sc B s t (length t) (length s) (prev ! length s)" by (rule p(6))
  with v show "prev ! length s = matrix_cell ic dc sc s t (length s) (length t)"
    by (simp add: good_value_def)
qed

lemma window_rows_result:
  assumes costs: "0 \<le> ic" "0 \<le> dc" "0 \<le> sc" and B: "0 \<le> B"
  shows "window_inv ic dc sc B s t j st \<Longrightarrow> j \<le> length t \<Longrightarrow>
    window_rows_exact (build_s_char_len s t) s t (VARSIZE_ANY_EXHDR t) ic dc sc B
      (Suc (length s)) (Suc (length t)) (Suc j) j st
    = min (matrix_cell ic dc sc s t (length s) (length t)) (B + 1)"
proof (induction "length t - j" arbitrary: j st)
  case 0
  then have j: "j = length t" by simp
  obtain prev cur start_column stop_column s_data
    where st: "st = (prev, cur, start_column, stop_column, s_data)" by (cases st) auto
  note last = window_inv_last_row [OF costs "0.prems"(1) [unfolded st j]]
  have "window_rows_exact (build_s_char_len s t) s t (VARSIZE_ANY_EXHDR t) ic dc sc B
      (Suc (length s)) (Suc (length t)) (Suc j) j st = prev ! length s"
    unfolding j st by (subst window_rows_exact.simps) simp
  with last show ?case by simp
next
  case (Suc d)
  then have j: "j < length t" by simp
  let ?row = "window_row_exact (build_s_char_len s t) s t (VARSIZE_ANY_EXHDR t) ic dc sc B
                (Suc (length s)) (Suc (length t)) (Suc j) j st"
  note step = window_row_cases [OF costs B Suc.prems(1) j]
  show ?case
  proof (cases ?row)
    case (Inl d')
    with step have d': "d' = B + 1" and none: "\<And>i. i \<le> length s \<Longrightarrow> \<not> viable ic dc sc B s t (Suc j) i"
      by simp_all
    have nv: "\<not> viable ic dc sc B s t (Suc j + (length t - Suc j)) (length s)"
      by (rule no_viable_later [where m = "length s", OF costs none]) simp_all
    have eq: "Suc j + (length t - Suc j) = length t" using j by simp
    have "net_inserts_at s t (length t) (length s) = 0" by (simp add: net_inserts_at_def)
    with nv [unfolded eq] have "B < matrix_cell ic dc sc s t (length s) (length t)"
      by (simp add: viable_def residual_def)
    moreover have "window_rows_exact (build_s_char_len s t) s t (VARSIZE_ANY_EXHDR t) ic dc sc B
        (Suc (length s)) (Suc (length t)) (Suc j) j st = d'"
      using j Inl by (subst window_rows_exact.simps) simp
    ultimately show ?thesis using d' by simp
  next
    case (Inr st')
    with step have inv': "window_inv ic dc sc B s t (Suc j) st'" by simp
    have "window_rows_exact (build_s_char_len s t) s t (VARSIZE_ANY_EXHDR t) ic dc sc B
        (Suc (length s)) (Suc (length t)) (Suc (Suc j)) (Suc j) st'
      = min (matrix_cell ic dc sc s t (length s) (length t)) (B + 1)"
      using Suc.hyps(2) j inv' by (intro Suc.hyps(1)) simp_all
    moreover have "window_rows_exact (build_s_char_len s t) s t (VARSIZE_ANY_EXHDR t) ic dc sc B
        (Suc (length s)) (Suc (length t)) (Suc j) j st
      = window_rows_exact (build_s_char_len s t) s t (VARSIZE_ANY_EXHDR t) ic dc sc B
        (Suc (length s)) (Suc (length t)) (Suc (Suc j)) (Suc j) st'"
      using j Inr by (subst window_rows_exact.simps) simp
    ultimately show ?thesis by simp
  qed
qed

subsection \<open>Setting up the window\<close>

lemma c_div_nonneg: "0 \<le> a \<Longrightarrow> 0 < b \<Longrightarrow> c_div a b = Inr (a div b)"
  by (cases "a = 0") (simp_all add: c_div_def)

lemma min_theo_residual:
  "(if k < 0 then - k * dc else k * ic) = residual ic dc (k :: int)"
  by (cases "k = 0") (auto simp add: residual_def)

lemma init_window_reject:
  assumes "0 \<le> max_d" "max_d < residual ins_c del_c (int n - int m)"
  shows "init_window_exact m n ins_c del_c sub_c max_d = Inr (Return_now_exact (max_d + 1))"
  using assms by (simp add: init_window_exact_def Let_def min_theo_residual)

lemma init_window_disabled:
  assumes "0 \<le> max_d" "residual ins_c del_c (int n - int m) \<le> max_d"
    and "residual ins_c del_c (int n - int m)
           + (if ins_c + del_c < sub_c then ins_c + del_c else sub_c) * int (min m n) \<le> max_d"
  shows "init_window_exact m n ins_c del_c sub_c max_d
         = Inr (Proceed_exact (- 1) (if ins_c + del_c < sub_c then ins_c + del_c else sub_c) (m + 1))"
  using assms by (simp add: init_window_exact_def Let_def min_theo_residual)

lemma init_window_window:
  assumes "0 \<le> max_d" "residual ins_c del_c (int n - int m) \<le> max_d"
    and "max_d < residual ins_c del_c (int n - int m)
           + (if ins_c + del_c < sub_c then ins_c + del_c else sub_c) * int (min m n)"
    and "0 < ins_c + del_c"
  shows "init_window_exact m n ins_c del_c sub_c max_d
         = Inr (Proceed_exact max_d (if ins_c + del_c < sub_c then ins_c + del_c else sub_c)
             (if (if int n - int m < 0 then - (int n - int m) else 0)
                   + (max_d - residual ins_c del_c (int n - int m)) div (ins_c + del_c) + 1 > int m
              then m + 1
              else nat ((if int n - int m < 0 then - (int n - int m) else 0)
                   + (max_d - residual ins_c del_c (int n - int m)) div (ins_c + del_c) + 1)))"
proof -
  have "c_div (max_d - residual ins_c del_c (int n - int m)) (ins_c + del_c)
        = Inr ((max_d - residual ins_c del_c (int n - int m)) div (ins_c + del_c))"
    using assms(2,4) by (intro c_div_nonneg) simp_all
  with assms show ?thesis
    by (simp add: init_window_exact_def Let_def min_theo_residual)
qed

lemma beyond_stop_not_viable:
  assumes costs: "0 \<le> ic" "0 \<le> dc" and c: "0 < ic + dc"
    and slack: "residual ic dc k \<le> max_d"
    and i: "(if k < 0 then - k else 0) + (max_d - residual ic dc k) div (ic + dc) + 1 \<le> int i"
  shows "max_d < int i * dc + residual ic dc (int i + k)"
proof -
  define best where "best = (if k < 0 then - k else 0)"
  define q where "q = (max_d - residual ic dc k) div (ic + dc)"
  define a where "a = int i - best"
  have q0: "0 \<le> q" unfolding q_def using slack c by (intro pos_imp_zdiv_nonneg_iff [THEN iffD2]) simp_all
  have a: "q + 1 \<le> a" using i by (simp add: a_def best_def q_def)
  have "max_d - residual ic dc k = q * (ic + dc) + (max_d - residual ic dc k) mod (ic + dc)"
    unfolding q_def by (rule div_mult_mod_eq [symmetric])
  moreover have "(max_d - residual ic dc k) mod (ic + dc) < ic + dc" using c by simp
  ultimately have "max_d - residual ic dc k < (q + 1) * (ic + dc)" by (simp add: algebra_simps)
  moreover have "(q + 1) * (ic + dc) \<le> a * (ic + dc)" using a c by (intro mult_right_mono) simp_all
  ultimately have gap: "max_d < a * (ic + dc) + residual ic dc k" by linarith
  have apos: "0 < a" using a q0 by simp
  have "int i * dc + residual ic dc (int i + k) = a * (ic + dc) + residual ic dc k"
  proof (cases "k < 0")
    case True
    then have e: "int i + k = a" "int i = a - k" by (simp_all add: a_def best_def)
    have "(a - k) * dc + residual ic dc a = a * (ic + dc) + residual ic dc k"
      using True apos by (simp add: residual_def algebra_simps)
    then show ?thesis unfolding e(1) unfolding e(2) .
  next
    case False
    then have e: "int i = a" by (simp add: a_def best_def)
    have "a * dc + residual ic dc (a + k) = a * (ic + dc) + residual ic dc k"
      using False apos by (cases "k = 0") (simp_all add: residual_def algebra_simps)
    then show ?thesis unfolding e .
  qed
  with gap show ?thesis by simp
qed

lemma window_start_inv:
  assumes costs: "0 \<le> ic" "0 \<le> dc"
    and stop: "0 < stop_column" "stop_column \<le> Suc (length s)"
    and v0: "viable ic dc sc B s t 0 0"
    and vin: "\<And>i. i \<le> length s \<Longrightarrow> viable ic dc sc B s t 0 i \<Longrightarrow> i < stop_column"
  shows "window_inv ic dc sc B s t 0 (window_start_exact mem (Suc (length s)) dc stop_column)"
proof -
  let ?m = "Suc (length s)"
  let ?prev = "init_row_exact dc stop_column 0 (take ?m (palloc mem (2 * ?m)))"
  have len: "length ?prev = ?m" by (simp add: length_init_row palloc_def)
  have "good_value ic dc sc B s t 0 i (?prev ! i)" if "i < stop_column" for i
  proof -
    have "?prev ! i = int i * dc" using that stop(2) by (simp add: nth_init_row palloc_def)
    then show ?thesis using good_value_exact [of ic dc sc B s t 0 i] by (simp add: matrix_cell_row0)
  qed
  then show ?thesis
    using len stop v0 vin
    by (simp add: window_inv_def window_ok_def window_start_exact_def Let_def palloc_def)
qed

text \<open>With a negative bound the loop with the window is the loop without it.\<close>

lemma window_rows_no_window:
  "B < 0 \<Longrightarrow>
   window_rows_exact s_char_len s t t_bytes ins_c del_c sub_c B m n j y (prev, cur, 0, m, 0)
   = rows_loop_exact s_char_len s t t_bytes ins_c del_c sub_c m n j y prev cur"
proof (induction "n - j" arbitrary: j y prev cur)
  case 0
  then have "\<not> j < n" by simp
  then show ?case
    by (subst window_rows_exact.simps, subst rows_loop_exact.simps) simp
next
  case (Suc d)
  then have j: "j < n" by simp
  let ?R = "fill_row_exact s_char_len s t y (if n \<noteq> t_bytes + 1 then pg_mblen t y else 1)
              ins_c del_c sub_c prev m 1 0 (cur[0 := int j * ins_c])"
  have row: "window_row_exact s_char_len s t t_bytes ins_c del_c sub_c B m n j y (prev, cur, 0, m, 0)
             = Inr (?R, prev, 0, m, 0)"
    using Suc.prems by (simp add: window_row_exact_def fill_pass_eq Let_def)
  have "window_rows_exact s_char_len s t t_bytes ins_c del_c sub_c B m n (j + 1) (y + 1) (?R, prev, 0, m, 0)
        = rows_loop_exact s_char_len s t t_bytes ins_c del_c sub_c m n (j + 1) (y + 1) ?R prev"
    using Suc.hyps(2) Suc.prems by (intro Suc.hyps(1)) simp_all
  then show ?case
    using j row by (subst window_rows_exact.simps, subst rows_loop_exact.simps) (simp add: Let_def)
qed

lemma less_equal_entry:
  assumes "s \<noteq> []" "t \<noteq> []" "length s \<le> 255" "length t \<le> 255"
  shows "dameraulevenshtein_less_equal_internal_exact mem s t ins_c del_c sub_c trans_c max_d
         = (case init_window_exact (length s) (length t) ins_c del_c sub_c max_d of
              Inl e \<Rightarrow> Inl e
            | Inr (Return_now_exact d) \<Rightarrow> Inr d
            | Inr (Proceed_exact B sc stop_column) \<Rightarrow>
                Inr (window_rows_exact (build_s_char_len s t) s t (VARSIZE_ANY_EXHDR t) ins_c del_c sc B
                       (Suc (length s)) (Suc (length t)) 1 0
                       (window_start_exact mem (Suc (length s)) del_c stop_column)))"
  using assms
  by (simp add: dameraulevenshtein_less_equal_internal_exact_def pg_mbstrlen_with_len_def
      MAX_DAMERAU_LEVENSHTEIN_STRLEN_def Let_def split: sum.splits bound_setup_exact.splits)

lemma matrix_cell_effective_sub:
  "matrix_cell ic dc (if ic + dc < sc then ic + dc else sc) s t i j = matrix_cell ic dc sc s t i j"
  by (simp add: matrix_cell_capped)

lemma less_equal_result:
  assumes costs: "0 \<le> ic" "0 \<le> dc" "0 \<le> sc" and B: "0 \<le> max_d"
    and inputs: "s \<noteq> []" "t \<noteq> []" "length s \<le> 255" "length t \<le> 255"
  shows "dameraulevenshtein_less_equal_internal_exact mem s t ic dc sc trans_c max_d
         = Inr (min (matrix_cell ic dc sc s t (length s) (length t)) (max_d + 1))"
proof -
  define k where "k = int (length t) - int (length s)"
  define mt where "mt = residual ic dc k"
  define sc' where "sc' = (if ic + dc < sc then ic + dc else sc)"
  define D where "D = matrix_cell ic dc sc s t (length s) (length t)"
  have sc': "0 \<le> sc'" using costs by (simp add: sc'_def)
  have D': "matrix_cell ic dc sc' s t i j = matrix_cell ic dc sc s t i j" for i j
    unfolding sc'_def by (rule matrix_cell_effective_sub)
  note entry = less_equal_entry [OF inputs, of mem ic dc sc trans_c max_d]
  have lower: "mt \<le> D"
    using matrix_cell_lower [OF costs, of "length t" "length s" s t]
    by (simp add: mt_def residual_def k_def D_def)
  consider (reject) "max_d < mt"
    | (disabled) "mt \<le> max_d" "mt + sc' * int (min (length s) (length t)) \<le> max_d"
    | (window) "mt \<le> max_d" "max_d < mt + sc' * int (min (length s) (length t))"
    by linarith
  then show ?thesis
  proof cases
    case reject
    then have "init_window_exact (length s) (length t) ic dc sc max_d = Inr (Return_now_exact (max_d + 1))"
      using B by (intro init_window_reject) (simp_all add: mt_def k_def)
    with entry lower reject show ?thesis by (simp add: D_def)
  next
    case disabled
    have "init_window_exact (length s) (length t) ic dc sc max_d
          = Inr (Proceed_exact (- 1) sc' (length s + 1))"
      unfolding sc'_def using B disabled
      by (intro init_window_disabled) (simp_all add: mt_def k_def sc'_def)
    then have "dameraulevenshtein_less_equal_internal_exact mem s t ic dc sc trans_c max_d
        = Inr (window_rows_exact (build_s_char_len s t) s t (VARSIZE_ANY_EXHDR t) ic dc sc' (- 1)
                 (Suc (length s)) (Suc (length t)) 1 0
                 (window_start_exact mem (Suc (length s)) dc (Suc (length s))))"
      using entry by simp
    also have "window_rows_exact (build_s_char_len s t) s t (VARSIZE_ANY_EXHDR t) ic dc sc' (- 1)
                 (Suc (length s)) (Suc (length t)) 1 0
                 (window_start_exact mem (Suc (length s)) dc (Suc (length s)))
        = rows_loop_exact (build_s_char_len s t) s t (VARSIZE_ANY_EXHDR t) ic dc sc'
            (Suc (length s)) (Suc (length t)) 1 (1 - 1)
            (init_row_exact dc (Suc (length s)) 0 (take (Suc (length s)) (palloc mem (2 * Suc (length s)))))
            (drop (Suc (length s)) (palloc mem (2 * Suc (length s))))"
      by (simp add: window_start_exact_def Let_def window_rows_no_window)
    also have "\<dots> = matrix_cell ic dc sc' s t (length s) (length t)"
      by (rule rows_loop_matrix)
        (simp_all add: length_init_row nth_init_row palloc_def matrix_cell_row0)
    finally have res: "dameraulevenshtein_less_equal_internal_exact mem s t ic dc sc trans_c max_d = Inr D"
      by (simp add: D' D_def)
    have "matrix_cell ic dc sc' s t (length s) (length t) \<le> mt + sc' * int (min (length s) (length t))"
      using matrix_cell_upper [OF sc', of "length t" "length s" ic dc s t]
      by (cases "length t < length s")
        (auto simp add: mt_def k_def residual_def min_def)
    with disabled have "D \<le> max_d" by (simp add: D' D_def)
    with res show ?thesis by (simp add: D_def)
  next
    case window
    have c: "0 < ic + dc"
    proof (rule ccontr)
      assume "\<not> 0 < ic + dc"
      with costs have "ic = 0" "dc = 0" by simp_all
      with costs have "mt = 0" "sc' = 0" by (simp_all add: mt_def residual_def sc'_def)
      with window show False by simp
    qed
    define stop0 where "stop0 =
        (if (if k < 0 then - k else 0) + (max_d - mt) div (ic + dc) + 1 > int (length s)
         then length s + 1
         else nat ((if k < 0 then - k else 0) + (max_d - mt) div (ic + dc) + 1))"
    have "init_window_exact (length s) (length t) ic dc sc max_d = Inr (Proceed_exact max_d sc' stop0)"
      unfolding sc'_def stop0_def mt_def k_def using B window c
      by (intro init_window_window) (simp_all add: mt_def k_def sc'_def)
    then have run: "dameraulevenshtein_less_equal_internal_exact mem s t ic dc sc trans_c max_d
        = Inr (window_rows_exact (build_s_char_len s t) s t (VARSIZE_ANY_EXHDR t) ic dc sc' max_d
                 (Suc (length s)) (Suc (length t)) (Suc 0) 0
                 (window_start_exact mem (Suc (length s)) dc stop0))"
      using entry by simp
    have q: "0 \<le> (max_d - mt) div (ic + dc)"
      using window(1) c by (intro pos_imp_zdiv_nonneg_iff [THEN iffD2]) simp_all
    have stop0: "0 < stop0" "stop0 \<le> Suc (length s)"
      using q by (auto simp add: stop0_def)
    have v0: "viable ic dc sc' max_d s t 0 0"
      using window(1) by (simp add: viable_def net_inserts_at_def mt_def k_def)
    have vin: "i < stop0" if "i \<le> length s" "viable ic dc sc' max_d s t 0 i" for i
    proof (rule ccontr)
      assume "\<not> i < stop0"
      with that(1) have "(if k < 0 then - k else 0) + (max_d - mt) div (ic + dc) + 1 \<le> int i"
        by (auto simp add: stop0_def split: if_splits)
      then have "max_d < int i * dc + residual ic dc (int i + k)"
        unfolding mt_def using costs(1,2) c window(1) [unfolded mt_def]
        by (intro beyond_stop_not_viable)
      moreover have "net_inserts_at s t 0 i = int i + k" by (simp add: net_inserts_at_def k_def)
      ultimately show False using that(2) by (simp add: viable_def matrix_cell_row0)
    qed
    have inv: "window_inv ic dc sc' max_d s t 0 (window_start_exact mem (Suc (length s)) dc stop0)"
      using costs(1,2) stop0 v0 vin by (rule window_start_inv)
    have "window_rows_exact (build_s_char_len s t) s t (VARSIZE_ANY_EXHDR t) ic dc sc' max_d
            (Suc (length s)) (Suc (length t)) (Suc 0) 0
            (window_start_exact mem (Suc (length s)) dc stop0)
          = min (matrix_cell ic dc sc' s t (length s) (length t)) (max_d + 1)"
      using costs(1,2) sc' B inv by (rule window_rows_result) simp
    with run show ?thesis by (simp add: D')
  qed
qed

subsection \<open>The results of the bounded variant over the mathematical integers\<close>

lemma init_window_exact_no_error: "init_window_exact m n ins_c del_c sub_c max_d \<noteq> Inl e"
  by (simp add: init_window_exact_def c_div_def Let_def)

lemma bounded_distance_exact:
  "0 \<le> ins_c \<Longrightarrow> 0 \<le> del_c \<Longrightarrow> 0 \<le> sub_c \<Longrightarrow> 0 \<le> max_d \<Longrightarrow>
   length s \<le> 255 \<Longrightarrow> length t \<le> 255 \<Longrightarrow>
   \<exists>d. dameraulevenshtein_internal_exact mem' s t ins_c del_c sub_c trans_c = Inr d \<and>
       dameraulevenshtein_less_equal_internal_exact mem s t ins_c del_c sub_c trans_c max_d
         = Inr (if s = [] \<or> t = [] then d else min d (max_d + 1))"
proof -
  assume a: "0 \<le> ins_c" "0 \<le> del_c" "0 \<le> sub_c" "0 \<le> max_d" "length s \<le> 255" "length t \<le> 255"
  let ?d = "matrix_cell ins_c del_c sub_c s t (length s) (length t)"
  have d: "dameraulevenshtein_internal_exact mem' s t ins_c del_c sub_c trans_c = Inr ?d"
    using a(5,6) by (rule internal_total)
  have "dameraulevenshtein_less_equal_internal_exact mem s t ins_c del_c sub_c trans_c max_d
         = Inr (if s = [] \<or> t = [] then ?d else min ?d (max_d + 1))"
  proof (cases "s = [] \<or> t = []")
    case True
    then show ?thesis
      by (auto simp add: dameraulevenshtein_less_equal_internal_exact_def pg_mbstrlen_with_len_def
          Let_def matrix_cell_row0 matrix_cell_col0)
  next
    case False
    with a show ?thesis by (simp add: less_equal_result)
  qed
  with d show ?thesis by blast
qed

lemma bound_decided_exact:
  "(s \<noteq> [] \<and> t \<noteq> [] \<and> length s \<le> 255 \<and> length t \<le> 255 \<and> 0 \<le> max_d \<and>
    max_d < (if length t < length s then (int (length s) - int (length t)) * del_c
             else (int (length t) - int (length s)) * ins_c) \<longrightarrow>
      init_window_exact (length s) (length t) ins_c del_c sub_c max_d = Inr (Return_now_exact (max_d + 1)) \<and>
      dameraulevenshtein_less_equal_internal_exact mem s t ins_c del_c sub_c trans_c max_d
        = Inr (max_d + 1)) \<and>
   (s \<noteq> [] \<and> t \<noteq> [] \<and> length s \<le> 255 \<and> length t \<le> 255 \<and> 0 \<le> max_d \<and>
    0 \<le> ins_c \<and> 0 \<le> del_c \<and> 0 \<le> sub_c \<and>
    (if length t < length s then (int (length s) - int (length t)) * del_c
     else (int (length t) - int (length s)) * ins_c)
      + min sub_c (ins_c + del_c) * int (min (length s) (length t)) \<le> max_d \<longrightarrow>
      init_window_exact (length s) (length t) ins_c del_c sub_c max_d
        = Inr (Proceed_exact (- 1) (min sub_c (ins_c + del_c)) (length s + 1)) \<and>
      dameraulevenshtein_less_equal_internal_exact mem s t ins_c del_c sub_c trans_c max_d
        = dameraulevenshtein_internal_exact mem' s t ins_c del_c sub_c trans_c)"
proof -
  let ?k = "int (length t) - int (length s)"
  have mt: "(if length t < length s then (int (length s) - int (length t)) * del_c
             else (int (length t) - int (length s)) * ins_c) = residual ins_c del_c ?k"
    by (cases "length t = length s") (auto simp add: residual_def algebra_simps)
  have sc: "min sub_c (ins_c + del_c) = (if ins_c + del_c < sub_c then ins_c + del_c else sub_c)"
    by (simp add: min_def)
  have first: "init_window_exact (length s) (length t) ins_c del_c sub_c max_d = Inr (Return_now_exact (max_d + 1)) \<and>
      dameraulevenshtein_less_equal_internal_exact mem s t ins_c del_c sub_c trans_c max_d
        = Inr (max_d + 1)"
    if "s \<noteq> []" "t \<noteq> []" "length s \<le> 255" "length t \<le> 255" "0 \<le> max_d"
      "max_d < residual ins_c del_c ?k"
  proof -
    have "init_window_exact (length s) (length t) ins_c del_c sub_c max_d = Inr (Return_now_exact (max_d + 1))"
      using that(5,6) by (rule init_window_reject)
    then show ?thesis
      using less_equal_entry [OF that(1-4), of mem ins_c del_c sub_c trans_c max_d] by simp
  qed
  have second: "init_window_exact (length s) (length t) ins_c del_c sub_c max_d
        = Inr (Proceed_exact (- 1) (min sub_c (ins_c + del_c)) (length s + 1)) \<and>
      dameraulevenshtein_less_equal_internal_exact mem s t ins_c del_c sub_c trans_c max_d
        = dameraulevenshtein_internal_exact mem' s t ins_c del_c sub_c trans_c"
    if "s \<noteq> []" "t \<noteq> []" "length s \<le> 255" "length t \<le> 255" "0 \<le> max_d"
      "0 \<le> ins_c" "0 \<le> del_c" "0 \<le> sub_c"
      "residual ins_c del_c ?k + min sub_c (ins_c + del_c) * int (min (length s) (length t)) \<le> max_d"
  proof -
    have "0 \<le> min sub_c (ins_c + del_c) * int (min (length s) (length t))"
      using that(6-8) by (intro mult_nonneg_nonneg) simp_all
    with that(9) have le: "residual ins_c del_c ?k \<le> max_d" by linarith
    have iw: "init_window_exact (length s) (length t) ins_c del_c sub_c max_d
        = Inr (Proceed_exact (- 1) (min sub_c (ins_c + del_c)) (length s + 1))"
      unfolding sc using that(5) le that(9) [unfolded sc] by (rule init_window_disabled)
    let ?d = "matrix_cell ins_c del_c sub_c s t (length s) (length t)"
    have "?d \<le> max_d"
      using matrix_cell_upper [of "min sub_c (ins_c + del_c)" "length t" "length s" ins_c del_c s t]
        that(6-9) matrix_cell_effective_sub [of ins_c del_c sub_c s t "length s" "length t"]
      by (cases "length t < length s") (auto simp add: sc residual_def min_def split: if_splits)
    then have "dameraulevenshtein_less_equal_internal_exact mem s t ins_c del_c sub_c trans_c max_d = Inr ?d"
      using that(1-8) by (simp add: less_equal_result)
    with iw that(3,4) show ?thesis by (simp add: internal_total)
  qed
  show ?thesis unfolding mt using first second by blast
qed

subsection \<open>Values that do not overflow\<close>

lemma wrap_id: "- 2147483648 \<le> x \<Longrightarrow> x \<le> 2147483647 \<Longrightarrow> wrap x = x"
  by (simp add: wrap_def)

lemma wrap_0: "wrap 0 = 0"
  by (simp add: wrap_def)

lemma wrap_nonneg: "0 \<le> x \<Longrightarrow> x \<le> 2147483647 \<Longrightarrow> wrap x = x"
  by (simp add: wrap_id)

lemma wrap_range: "- 2147483648 \<le> wrap x \<and> wrap x \<le> 2147483647"
proof -
  have "0 \<le> (x + 2147483648) mod 4294967296" "(x + 2147483648) mod 4294967296 < 4294967296"
    by simp_all
  then show ?thesis unfolding wrap_def by linarith
qed

lemma scaled_le: "0 \<le> c \<Longrightarrow> c \<le> C \<Longrightarrow> k \<le> K \<Longrightarrow> int k * c \<le> int K * C"
  by (intro mult_mono) simp_all

lemma scaled_nonneg: "0 \<le> c \<Longrightarrow> 0 \<le> int k * c"
  by simp

subsection \<open>The two-row engine without overflow\<close>

lemma init_row_no_overflow:
  assumes "0 \<le> del_c" "del_c \<le> C" "int STOP_COLUMN * C \<le> 2147483647"
  shows "init_row del_c STOP_COLUMN i prev = init_row_exact del_c STOP_COLUMN i prev"
  using assms
proof (induction del_c STOP_COLUMN i prev rule: init_row.induct)
  case (1 del_c STOP_COLUMN i prev)
  show ?case
  proof (cases "i < STOP_COLUMN")
    case True
    have "int i * del_c \<le> int STOP_COLUMN * C"
      using "1.prems"(1,2) True by (intro scaled_le) simp_all
    with "1.prems" have w: "wrap (int i * del_c) = int i * del_c"
      by (intro wrap_nonneg) simp_all
    show ?thesis
      using "1.IH" [OF True "1.prems"] True
      by (subst init_row.simps, subst init_row_exact.simps) (simp add: w)
  next
    case False
    then show ?thesis by (subst init_row.simps, subst init_row_exact.simps) simp
  qed
qed

lemma fill_row_no_overflow:
  assumes "0 \<le> ins_c" "ins_c \<le> C" "0 \<le> del_c" "del_c \<le> C" "0 \<le> sub_c" "sub_c \<le> C"
    and "U + 2 * C \<le> 2147483647"
    and "\<forall>k<STOP_COLUMN. 0 \<le> prev ! k \<and> prev ! k \<le> U"
    and "\<forall>k<i. 0 \<le> cur ! k \<and> cur ! k \<le> U + C"
    and "0 < i" "STOP_COLUMN \<le> length cur"
  shows "fill_row s_char_len s t y y_char_len ins_c del_c sub_c prev STOP_COLUMN i x cur
           = fill_row_exact s_char_len s t y y_char_len ins_c del_c sub_c prev STOP_COLUMN i x cur \<and>
         (\<forall>k<STOP_COLUMN.
            0 \<le> fill_row_exact s_char_len s t y y_char_len ins_c del_c sub_c prev STOP_COLUMN i x cur ! k \<and>
            fill_row_exact s_char_len s t y y_char_len ins_c del_c sub_c prev STOP_COLUMN i x cur ! k
              \<le> U + C)"
  using assms
proof (induction s_char_len s t y y_char_len ins_c del_c sub_c prev STOP_COLUMN i x cur
    rule: fill_row.induct)
  case (1 s_char_len s t y y_char_len ins_c del_c sub_c prev STOP_COLUMN i x cur)
  show ?case
  proof (cases "i < STOP_COLUMN")
    case False
    with "1.prems"(9) show ?thesis
      by (subst fill_row.simps, subst fill_row_exact.simps, subst fill_row_exact.simps,
          subst fill_row_exact.simps) simp
  next
    case True
    let ?same = "char_same s_char_len s x t y y_char_len i"
    let ?ins = "prev ! i + ins_c"
    let ?del = "cur ! (i - 1) + del_c"
    let ?sub = "if ?same then prev ! (i - 1) else prev ! (i - 1) + sub_c"
    let ?v = "min (min ?ins ?del) ?sub"
    have p: "0 \<le> prev ! i" "prev ! i \<le> U" "0 \<le> prev ! (i - 1)" "prev ! (i - 1) \<le> U"
      using "1.prems"(8,10) True by simp_all
    have c: "0 \<le> cur ! (i - 1)" "cur ! (i - 1) \<le> U + C"
      using "1.prems"(9,10) by simp_all
    have wi: "wrap ?ins = ?ins" using p "1.prems"(1-7) by (intro wrap_nonneg) linarith+
    have wd: "wrap ?del = ?del" using c "1.prems"(1-7) by (intro wrap_nonneg) linarith+
    have ws: "wrap (prev ! (i - 1) + sub_c) = prev ! (i - 1) + sub_c"
      using p "1.prems"(1-7) by (intro wrap_nonneg) linarith+
    have w0: "wrap (prev ! (i - 1)) = prev ! (i - 1)"
      using p "1.prems"(1-7) by (intro wrap_nonneg) linarith+
    have sub: "(case s_char_len of
                  Some tbl \<Rightarrow> (if ?same then prev ! (i - 1) else wrap (prev ! (i - 1) + sub_c))
                | None \<Rightarrow> wrap (prev ! (i - 1) + (if ?same then 0 else sub_c))) = ?sub"
      using ws w0 by (cases s_char_len) simp_all
    have v: "0 \<le> ?v" "?v \<le> U + C"
      using p c "1.prems"(1-7) by (auto simp add: min_def)
    have unfold: "fill_row s_char_len s t y y_char_len ins_c del_c sub_c prev STOP_COLUMN i x cur
        = fill_row s_char_len s t y y_char_len ins_c del_c sub_c prev STOP_COLUMN (i + 1) (x + 1)
            (cur[i := ?v])"
      by (subst fill_row.simps) (simp only: True if_True Let_def wi wd sub)
    have unfold': "fill_row_exact s_char_len s t y y_char_len ins_c del_c sub_c prev STOP_COLUMN i x cur
        = fill_row_exact s_char_len s t y y_char_len ins_c del_c sub_c prev STOP_COLUMN (i + 1) (x + 1)
            (cur[i := ?v])"
      by (subst fill_row_exact.simps) (simp only: True if_True Let_def)
    have cur': "\<forall>k<i + 1. 0 \<le> cur[i := ?v] ! k \<and> cur[i := ?v] ! k \<le> U + C"
    proof (intro allI impI)
      fix k assume "k < i + 1"
      show "0 \<le> cur[i := ?v] ! k \<and> cur[i := ?v] ! k \<le> U + C"
      proof (cases "k = i")
        case True
        then show ?thesis using v \<open>i < STOP_COLUMN\<close> "1.prems"(11) by simp
      next
        case False
        with \<open>k < i + 1\<close> have "k < i" by simp
        with "1.prems"(9) False show ?thesis by simp
      qed
    qed
    have len: "STOP_COLUMN \<le> length (cur[i := ?v])" using "1.prems"(11) by simp
    show ?thesis
      unfolding unfold unfold'
      by (rule "1.IH" [OF True wi [symmetric] wd [symmetric] sub [symmetric] "1.prems"(1-8) cur' _ len])
        simp
  qed
qed

lemma rows_loop_no_overflow:
  assumes "0 \<le> ins_c" "ins_c \<le> C" "0 \<le> del_c" "del_c \<le> C" "0 \<le> sub_c" "sub_c \<le> C"
  shows "\<forall>k<m. 0 \<le> prev ! k \<and> prev ! k \<le> U \<Longrightarrow> U + int (n - j) * C + C \<le> 2147483647 \<Longrightarrow>
         int j * C \<le> U + C \<Longrightarrow> 0 < m \<Longrightarrow> m \<le> length prev \<Longrightarrow> m \<le> length cur \<Longrightarrow>
         rows_loop s_char_len s t t_bytes ins_c del_c sub_c m n j y prev cur
           = rows_loop_exact s_char_len s t t_bytes ins_c del_c sub_c m n j y prev cur"
proof (induction "n - j" arbitrary: j y prev cur U)
  case 0
  then have "\<not> j < n" by simp
  then show ?case by (subst rows_loop.simps, subst rows_loop_exact.simps) simp
next
  case (Suc d)
  from Suc.hyps(2) have j: "j < n" and d: "n - j = Suc d" "n - (j + 1) = d" by simp_all
  have C: "0 \<le> C" using assms by simp
  then have dC: "0 \<le> int d * C" by simp
  have U2: "U + 2 * C \<le> 2147483647"
    using Suc.prems(2) dC unfolding d by (simp add: algebra_simps)
  let ?ycl = "if n \<noteq> t_bytes + 1 then pg_mblen t y else 1"
  let ?ca = "cur[0 := int j * ins_c]"
  have ji: "0 \<le> int j * ins_c" "int j * ins_c \<le> U + C"
    using assms(1,2) Suc.prems(3) scaled_le [of ins_c C j j] by simp_all
  then have w: "wrap (int j * ins_c) = int j * ins_c"
    using U2 C by (intro wrap_nonneg) linarith+
  have "0 < length cur" using Suc.prems(4,6) by linarith
  then have c0: "\<forall>k<1. 0 \<le> ?ca ! k \<and> ?ca ! k \<le> U + C"
    using ji by simp
  have len: "m \<le> length ?ca" using Suc.prems(6) by simp
  note fill = fill_row_no_overflow [OF assms U2 Suc.prems(1) c0 _ len,
      of s_char_len s t y ?ycl 0]
  let ?cb = "fill_row_exact s_char_len s t y ?ycl ins_c del_c sub_c prev m 1 0 ?ca"
  have eq: "fill_row s_char_len s t y ?ycl ins_c del_c sub_c prev m 1 0 ?ca = ?cb"
    and c1: "\<forall>k<m. 0 \<le> ?cb ! k \<and> ?cb ! k \<le> U + C"
    using fill by simp_all
  have next_bound: "U + C + int (n - (j + 1)) * C + C \<le> 2147483647"
    using Suc.prems(2) unfolding d by (simp add: algebra_simps)
  have next_j: "int (j + 1) * C \<le> U + C + C"
    using Suc.prems(3) by (simp add: algebra_simps)
  have len1: "m \<le> length ?cb" using len by (simp add: length_fill_row)
  have "rows_loop s_char_len s t t_bytes ins_c del_c sub_c m n (j + 1) (y + 1) ?cb prev
          = rows_loop_exact s_char_len s t t_bytes ins_c del_c sub_c m n (j + 1) (y + 1) ?cb prev"
    by (rule Suc.hyps(1) [OF d(2) [symmetric] c1 next_bound next_j Suc.prems(4) len1 Suc.prems(5)])
  then show ?case
    by (subst rows_loop.simps, subst rows_loop_exact.simps) (simp only: j if_True Let_def w eq)
qed

lemma internal_no_overflow:
  assumes "0 \<le> ins_c" "ins_c \<le> C" "0 \<le> del_c" "del_c \<le> C" "0 \<le> sub_c" "sub_c \<le> C"
    and "(int (length s) + int (length t) + 1) * C \<le> 2147483647"
  shows "dameraulevenshtein_internal mem s t ins_c del_c sub_c trans_c
           = dameraulevenshtein_internal_exact mem s t ins_c del_c sub_c trans_c"
proof -
  let ?m = "length s" and ?n = "length t"
  have top: "int (?m + ?n + 1) * C \<le> 2147483647" using assms(7) by (simp add: ac_simps)
  have small: "int k * c \<le> 2147483647" if "0 \<le> c" "c \<le> C" "k \<le> ?m + ?n + 1" for k c
    using scaled_le [OF that] top by linarith
  have wi: "wrap (int ?n * ins_c) = int ?n * ins_c"
    using assms(1,2) by (intro wrap_nonneg small) simp_all
  have wd: "wrap (int ?m * del_c) = int ?m * del_c"
    using assms(3,4) by (intro wrap_nonneg small) simp_all
  let ?buf = "palloc mem (2 * (?m + 1))"
  let ?prev = "init_row_exact del_c (?m + 1) 0 (take (?m + 1) ?buf)"
  have init: "init_row del_c (?m + 1) 0 (take (?m + 1) ?buf) = ?prev"
    using assms(3,4) by (rule init_row_no_overflow) (rule small [of C], use assms in simp_all)
  have cells: "\<forall>k<?m + 1. 0 \<le> ?prev ! k \<and> ?prev ! k \<le> int ?m * C"
  proof (intro allI impI)
    fix k assume k: "k < ?m + 1"
    then have "?prev ! k = int k * del_c" by (simp add: nth_init_row palloc_def)
    moreover have "int k * del_c \<le> int ?m * C" using assms(3,4) k by (intro scaled_le) simp_all
    ultimately show "0 \<le> ?prev ! k \<and> ?prev ! k \<le> int ?m * C" using assms(3) by simp
  qed
  have C: "0 \<le> C" using assms by simp
  have rows: "rows_loop (build_s_char_len s t) s t (VARSIZE_ANY_EXHDR t) ins_c del_c sub_c
                (?m + 1) (?n + 1) 1 0 ?prev (drop (?m + 1) ?buf)
              = rows_loop_exact (build_s_char_len s t) s t (VARSIZE_ANY_EXHDR t) ins_c del_c sub_c
                (?m + 1) (?n + 1) 1 0 ?prev (drop (?m + 1) ?buf)"
    using assms(1-6) cells
  proof (rule rows_loop_no_overflow)
    show "int ?m * C + int (?n + 1 - 1) * C + C \<le> 2147483647"
      using assms(7) by (simp add: algebra_simps)
    show "int 1 * C \<le> int ?m * C + C" using C by simp
  qed (simp_all add: length_init_row palloc_def)
  show ?thesis
    unfolding dameraulevenshtein_internal_def dameraulevenshtein_internal_exact_def Let_def
      pg_mbstrlen_with_len_def wi wd init rows ..
qed

subsection \<open>The three-row engine without overflow\<close>

lemma init_row1_no_overflow:
  assumes "0 \<le> ins_c" "ins_c \<le> C" "int len2 * C \<le> 2147483647"
  shows "init_row1 ins_c len2 j row1 = init_row1_exact ins_c len2 j row1"
  using assms
proof (induction ins_c len2 j row1 rule: init_row1.induct)
  case (1 ins_c len2 j row1)
  show ?case
  proof (cases "j \<le> len2")
    case True
    have "int j * ins_c \<le> int len2 * C"
      using "1.prems"(1,2) True by (intro scaled_le) simp_all
    with "1.prems" have w: "wrap (int j * ins_c) = int j * ins_c"
      by (intro wrap_nonneg) simp_all
    show ?thesis
      using "1.IH" [OF True "1.prems"] True
      by (subst init_row1.simps, subst init_row1_exact.simps) (simp add: w)
  next
    case False
    then show ?thesis by (subst init_row1.simps, subst init_row1_exact.simps) simp
  qed
qed

lemma swap_cell_value_le:
  "swap_cell_value string1 string2 ins_c del_c sub_c trans_c i row0 row1 j left
     \<le> row1 ! j + (if string1 ! i \<noteq> string2 ! j then sub_c else 0)"
  by (simp add: swap_cell_value_def Let_def min_def)

lemma swap_cell_value_nonneg:
  assumes "0 \<le> ins_c" "0 \<le> del_c" "0 \<le> sub_c" "0 \<le> trans_c"
    and "0 \<le> row1 ! j" "0 \<le> row1 ! (j + 1)" "0 \<le> left"
    and "i > 0 \<and> j > 0 \<longrightarrow> 0 \<le> row0 ! (j - 1)"
  shows "0 \<le> swap_cell_value string1 string2 ins_c del_c sub_c trans_c i row0 row1 j left"
  using assms by (simp add: swap_cell_value_def Let_def min_def)

lemma swap_cell_no_overflow:
  assumes "0 \<le> ins_c" "ins_c \<le> C" "0 \<le> del_c" "del_c \<le> C" "0 \<le> sub_c" "sub_c \<le> C"
    "0 \<le> trans_c" "trans_c \<le> C"
    and "U + 2 * C \<le> 2147483647"
    and "0 \<le> row1 ! j" "row1 ! j \<le> U" "0 \<le> row1 ! (j + 1)" "row1 ! (j + 1) \<le> U"
    and "i > 0 \<and> j > 0 \<longrightarrow> 0 \<le> row0 ! (j - 1) \<and> row0 ! (j - 1) \<le> U"
    and "0 \<le> row2 ! j" "row2 ! j \<le> U + C"
    and "j + 1 < length row2"
  shows "swap_cell string1 string2 ins_c del_c sub_c trans_c i row0 row1 j row2
           = swap_cell_exact string1 string2 ins_c del_c sub_c trans_c i row0 row1 j row2"
    and "0 \<le> swap_cell_exact string1 string2 ins_c del_c sub_c trans_c i row0 row1 j row2 ! (j + 1)"
    and "swap_cell_exact string1 string2 ins_c del_c sub_c trans_c i row0 row1 j row2 ! (j + 1)
           \<le> U + C"
proof -
  have C: "0 \<le> C" "0 \<le> U" using assms by linarith+
  let ?b = "if string1 ! i \<noteq> string2 ! j then 1 else 0 :: int"
  have b: "sub_c * ?b = 0 \<or> sub_c * ?b = sub_c" by simp
  have w1: "wrap (sub_c * ?b) = sub_c * ?b"
  proof (rule wrap_nonneg)
    show "0 \<le> sub_c * ?b" using b assms(5) by auto
    show "sub_c * ?b \<le> 2147483647" using b assms(5,6,9) C by auto
  qed
  have w2: "wrap (row1 ! j + sub_c * ?b) = row1 ! j + sub_c * ?b"
  proof (rule wrap_nonneg)
    show "0 \<le> row1 ! j + sub_c * ?b" using b assms(5,10) by auto
    show "row1 ! j + sub_c * ?b \<le> 2147483647" using b assms(5,6,9,11) C by auto
  qed
  have w3: "wrap (row1 ! (j + 1) + del_c) = row1 ! (j + 1) + del_c"
    using assms(3,4,9,12,13) C by (intro wrap_nonneg) linarith+
  have w4: "wrap (row2 ! j + ins_c) = row2 ! j + ins_c"
    using assms(1,2,9,15,16) C by (intro wrap_nonneg) linarith+
  have keep: "(if c then r[j + 1 := x] else r) ! j = r ! j" for c and r :: "int list" and x
    by simp
  have keep0: "row2[j + 1 := x] ! j = row2 ! j" for x by simp
  show "swap_cell string1 string2 ins_c del_c sub_c trans_c i row0 row1 j row2
           = swap_cell_exact string1 string2 ins_c del_c sub_c trans_c i row0 row1 j row2"
  proof (cases "i > 0 \<and> j > 0")
    case True
    have w5: "wrap (row0 ! (j - 1) + trans_c) = row0 ! (j - 1) + trans_c"
      using assms(7,8,9,14) True C by (intro wrap_nonneg) linarith+
    show ?thesis
      unfolding swap_cell_def swap_cell_exact_def Let_def w1 w2 w3 w5 keep keep0 w4 ..
  next
    case False
    then have f: "(i > 0 \<and> j > 0 \<and> P) = False" for P by blast
    show ?thesis
      unfolding swap_cell_def swap_cell_exact_def Let_def w1 w2 w3 f if_False keep keep0 w4 ..
  qed
  have v: "swap_cell_exact string1 string2 ins_c del_c sub_c trans_c i row0 row1 j row2 ! (j + 1)
        = swap_cell_value string1 string2 ins_c del_c sub_c trans_c i row0 row1 j (row2 ! j)"
    using assms(17) by (simp add: swap_cell_update)
  show "0 \<le> swap_cell_exact string1 string2 ins_c del_c sub_c trans_c i row0 row1 j row2 ! (j + 1)"
    unfolding v using assms(1,3,5,7,10,12,15,14) by (intro swap_cell_value_nonneg) simp_all
  have "swap_cell_value string1 string2 ins_c del_c sub_c trans_c i row0 row1 j (row2 ! j)
          \<le> row1 ! j + (if string1 ! i \<noteq> string2 ! j then sub_c else 0)"
    by (rule swap_cell_value_le)
  also have "\<dots> \<le> U + C" using assms(5,6,11) C by simp
  finally show "swap_cell_exact string1 string2 ins_c del_c sub_c trans_c i row0 row1 j row2 ! (j + 1)
           \<le> U + C"
    unfolding v .
qed

lemma swap_cells_no_overflow:
  assumes "0 \<le> ins_c" "ins_c \<le> C" "0 \<le> del_c" "del_c \<le> C" "0 \<le> sub_c" "sub_c \<le> C"
    "0 \<le> trans_c" "trans_c \<le> C"
    and "U + 2 * C \<le> 2147483647"
    and "\<forall>k\<le>len2. 0 \<le> row1 ! k \<and> row1 ! k \<le> U"
    and "i > 0 \<longrightarrow> (\<forall>k\<le>len2. 0 \<le> row0 ! k \<and> row0 ! k \<le> U)"
  shows "\<forall>k\<le>j. 0 \<le> row2 ! k \<and> row2 ! k \<le> U + C \<Longrightarrow> len2 < length row2 \<Longrightarrow>
         swap_cells string1 string2 ins_c del_c sub_c trans_c len2 i row0 row1 j row2
           = swap_cells_exact string1 string2 ins_c del_c sub_c trans_c len2 i row0 row1 j row2 \<and>
         (\<forall>k\<le>len2.
            0 \<le> swap_cells_exact string1 string2 ins_c del_c sub_c trans_c len2 i row0 row1 j row2 ! k \<and>
            swap_cells_exact string1 string2 ins_c del_c sub_c trans_c len2 i row0 row1 j row2 ! k
              \<le> U + C)"
proof (induction "len2 - j" arbitrary: j row2)
  case 0
  then have "\<not> j < len2" by simp
  with 0 show ?case
    by (subst swap_cells.simps, subst swap_cells_exact.simps, subst swap_cells_exact.simps,
        subst swap_cells_exact.simps) simp
next
  case (Suc d)
  from Suc.hyps(2) have j: "j < len2" and d: "d = len2 - (j + 1)" by simp_all
  let ?r = "swap_cell_exact string1 string2 ins_c del_c sub_c trans_c i row0 row1 j row2"
  have len: "j + 1 < length row2" using j Suc.prems(2) by simp
  have r1: "0 \<le> row1 ! j" "row1 ! j \<le> U" "0 \<le> row1 ! (j + 1)" "row1 ! (j + 1) \<le> U"
    using assms(10) j by simp_all
  have r0: "i > 0 \<and> j > 0 \<longrightarrow> 0 \<le> row0 ! (j - 1) \<and> row0 ! (j - 1) \<le> U"
    using assms(11) j by simp
  have r2: "0 \<le> row2 ! j" "row2 ! j \<le> U + C" using Suc.prems(1) by simp_all
  note cell = swap_cell_no_overflow [OF assms(1-9) r1 r0 r2 len, of string1 string2]
  have upd: "?r = row2[j + 1 := swap_cell_value string1 string2 ins_c del_c sub_c trans_c i row0 row1 j
                           (row2 ! j)]"
    using len by (rule swap_cell_update)
  have r': "\<forall>k\<le>j + 1. 0 \<le> ?r ! k \<and> ?r ! k \<le> U + C"
  proof (intro allI impI)
    fix k assume k: "k \<le> j + 1"
    show "0 \<le> ?r ! k \<and> ?r ! k \<le> U + C"
    proof (cases "k = j + 1")
      case True
      then show ?thesis using cell(2,3) by simp
    next
      case False
      with k have "k \<le> j" by simp
      moreover have "?r ! k = row2 ! k" unfolding upd using False by simp
      ultimately show ?thesis using Suc.prems(1) by simp
    qed
  qed
  have len': "len2 < length ?r" unfolding upd using Suc.prems(2) by simp
  have unfold: "swap_cells string1 string2 ins_c del_c sub_c trans_c len2 i row0 row1 j row2
      = swap_cells string1 string2 ins_c del_c sub_c trans_c len2 i row0 row1 (j + 1) ?r"
    by (subst swap_cells.simps) (simp only: j if_True cell(1))
  have unfold': "swap_cells_exact string1 string2 ins_c del_c sub_c trans_c len2 i row0 row1 j row2
      = swap_cells_exact string1 string2 ins_c del_c sub_c trans_c len2 i row0 row1 (j + 1) ?r"
    by (subst swap_cells_exact.simps) (simp only: j if_True)
  show ?case unfolding unfold unfold' by (rule Suc.hyps(1) [OF d r' len'])
qed

lemma swap_rows_no_overflow:
  assumes "0 \<le> ins_c" "ins_c \<le> C" "0 \<le> del_c" "del_c \<le> C" "0 \<le> sub_c" "sub_c \<le> C"
    "0 \<le> trans_c" "trans_c \<le> C"
  shows "\<forall>k\<le>len2. 0 \<le> row1 ! k \<and> row1 ! k \<le> U \<Longrightarrow>
         i > 0 \<longrightarrow> (\<forall>k\<le>len2. 0 \<le> row0 ! k \<and> row0 ! k \<le> U) \<Longrightarrow>
         U + int (len1 - i) * C + C \<le> 2147483647 \<Longrightarrow> (int i + 1) * C \<le> U + C \<Longrightarrow>
         len2 < length row0 \<Longrightarrow> len2 < length row1 \<Longrightarrow> len2 < length row2 \<Longrightarrow>
         swap_rows string1 string2 ins_c del_c sub_c trans_c len1 len2 i row0 row1 row2
           = swap_rows_exact string1 string2 ins_c del_c sub_c trans_c len1 len2 i row0 row1 row2"
proof (induction "len1 - i" arbitrary: i row0 row1 row2 U)
  case 0
  then have "\<not> i < len1" by simp
  then show ?case by (subst swap_rows.simps, subst swap_rows_exact.simps) simp
next
  case (Suc d)
  from Suc.hyps(2) have i: "i < len1" and d: "len1 - i = Suc d" "d = len1 - (i + 1)" by simp_all
  have C: "0 \<le> C" using assms by simp
  then have dC: "0 \<le> int d * C" by simp
  have U2: "U + 2 * C \<le> 2147483647"
    using Suc.prems(3) dC unfolding d(1) by (simp add: algebra_simps)
  have id: "0 \<le> (int i + 1) * del_c" "(int i + 1) * del_c \<le> U + C"
  proof -
    show "0 \<le> (int i + 1) * del_c" using assms(3) by simp
    have "(int i + 1) * del_c \<le> (int i + 1) * C" using assms(4) by (intro mult_left_mono) simp_all
    then show "(int i + 1) * del_c \<le> U + C" using Suc.prems(4) by linarith
  qed
  then have w: "wrap ((int i + 1) * del_c) = (int i + 1) * del_c"
    using U2 C by (intro wrap_nonneg) linarith+
  let ?ra = "row2[0 := (int i + 1) * del_c]"
  have "0 < length row2" using Suc.prems(7) by linarith
  then have r0: "\<forall>k\<le>0. 0 \<le> ?ra ! k \<and> ?ra ! k \<le> U + C"
    using id by simp
  have len: "len2 < length ?ra" using Suc.prems(7) by simp
  note cells = swap_cells_no_overflow [OF assms U2 Suc.prems(1,2) r0 len, of string1 string2]
  let ?r = "swap_cells_exact string1 string2 ins_c del_c sub_c trans_c len2 i row0 row1 0 ?ra"
  have eq: "swap_cells string1 string2 ins_c del_c sub_c trans_c len2 i row0 row1 0 ?ra = ?r"
    and r: "\<forall>k\<le>len2. 0 \<le> ?r ! k \<and> ?r ! k \<le> U + C"
    using cells by simp_all
  have old: "i + 1 > 0 \<longrightarrow> (\<forall>k\<le>len2. 0 \<le> row1 ! k \<and> row1 ! k \<le> U + C)"
    using Suc.prems(1) C by auto
  have next_bound: "U + C + int (len1 - (i + 1)) * C + C \<le> 2147483647"
    using Suc.prems(3) unfolding d(1) d(2) [symmetric] by (simp add: algebra_simps)
  have next_i: "(int (i + 1) + 1) * C \<le> U + C + C"
    using Suc.prems(4) by (simp add: algebra_simps)
  have len': "len2 < length ?r" using len by (simp add: length_swap_cells)
  have "swap_rows string1 string2 ins_c del_c sub_c trans_c len1 len2 (i + 1) row1 ?r row0
        = swap_rows_exact string1 string2 ins_c del_c sub_c trans_c len1 len2 (i + 1) row1 ?r row0"
    by (rule Suc.hyps(1) [OF d(2) r old next_bound next_i Suc.prems(6) len' Suc.prems(5)])
  then show ?case
    by (subst swap_rows.simps, subst swap_rows_exact.simps) (simp only: i if_True Let_def w eq)
qed

lemma noncompatible_no_overflow:
  assumes "0 \<le> ins_c" "ins_c \<le> C" "0 \<le> del_c" "del_c \<le> C" "0 \<le> sub_c" "sub_c \<le> C"
    "0 \<le> trans_c" "trans_c \<le> C"
    and "(int (length s) + int (length t) + 1) * C \<le> 2147483647"
  shows "dameraulevenshtein_internal_noncompatible mem s t ins_c del_c sub_c trans_c
           = dameraulevenshtein_internal_noncompatible_exact mem s t ins_c del_c sub_c trans_c"
proof -
  let ?m = "length s" and ?n = "length t"
  have C: "0 \<le> C" using assms by simp
  have top: "int ?n * C \<le> 2147483647"
  proof -
    have "int ?n * C \<le> (int ?m + int ?n + 1) * C" using C by (intro mult_right_mono) simp_all
    with assms(9) show ?thesis by linarith
  qed
  let ?buf = "palloc mem (3 * (?n + 1))"
  let ?row1 = "init_row1_exact ins_c ?n 0 (take (?n + 1) (drop (?n + 1) ?buf))"
  have init: "init_row1 ins_c ?n 0 (take (?n + 1) (drop (?n + 1) ?buf)) = ?row1"
    using assms(1,2) top by (rule init_row1_no_overflow)
  have cells: "\<forall>k\<le>?n. 0 \<le> ?row1 ! k \<and> ?row1 ! k \<le> int ?n * C"
  proof (intro allI impI)
    fix k assume k: "k \<le> ?n"
    then have "?row1 ! k = int k * ins_c" by (simp add: nth_init_row1 palloc_def)
    moreover have "int k * ins_c \<le> int ?n * C" using assms(1,2) k by (intro scaled_le) simp_all
    ultimately show "0 \<le> ?row1 ! k \<and> ?row1 ! k \<le> int ?n * C" using assms(1) by simp
  qed
  have rows: "swap_rows (bytes_from s 0) (bytes_from t 0) ins_c del_c sub_c trans_c ?m ?n 0
                (take (?n + 1) ?buf) ?row1 (drop (2 * (?n + 1)) ?buf)
              = swap_rows_exact (bytes_from s 0) (bytes_from t 0) ins_c del_c sub_c trans_c ?m ?n 0
                (take (?n + 1) ?buf) ?row1 (drop (2 * (?n + 1)) ?buf)"
    using assms(1-8) cells
  proof (rule swap_rows_no_overflow)
    show "int ?n * C + int (?m - 0) * C + C \<le> 2147483647"
      using assms(9) by (simp add: algebra_simps)
    show "(int 0 + 1) * C \<le> int ?n * C + C" using C by simp
  qed (simp_all add: length_init_row1 palloc_def)
  show ?thesis
    unfolding dameraulevenshtein_internal_noncompatible_def
      dameraulevenshtein_internal_noncompatible_exact_def Let_def
      pg_mbstrlen_with_len_def init rows ..
qed

subsection \<open>The start of the bounded variant without overflow\<close>

lemma wrap_times:
  assumes "0 \<le> c" "c \<le> C" "\<bar>a\<bar> \<le> K" "K * C \<le> 2147483647"
  shows "wrap (a * c) = a * c" and "\<bar>a * c\<bar> \<le> K * C"
proof -
  have "\<bar>a * c\<bar> = \<bar>a\<bar> * c" using assms(1) by (simp add: abs_mult)
  also have "\<dots> \<le> K * C" using assms(1-3) by (intro mult_mono) simp_all
  finally show le: "\<bar>a * c\<bar> \<le> K * C" .
  with assms(4) show "wrap (a * c) = a * c" by (intro wrap_id) linarith+
qed

lemma init_window_no_overflow:
  assumes "0 \<le> ins_c" "ins_c \<le> C" "0 \<le> del_c" "del_c \<le> C" "0 \<le> sub_c" "sub_c \<le> C"
    and "max_d \<le> 2147483647"
    and "3 * ((int m + int n + 1) * C) \<le> 2147483647"
  shows "init_window m n ins_c del_c sub_c max_d
         = (case init_window_exact m n ins_c del_c sub_c max_d of
              Inl e \<Rightarrow> Inl e
            | Inr (Return_now_exact d) \<Rightarrow> Inr (Return_now d)
            | Inr (Proceed_exact B sc stop_column) \<Rightarrow> Inr (Proceed B sc (int stop_column)))"
proof (cases "0 \<le> max_d")
  case False
  then show ?thesis by (simp add: init_window_def init_window_exact_def)
next
  case True
  let ?k = "int n - int m"
  let ?MT = "if ?k < 0 then - ?k * del_c else ?k * ins_c"
  let ?SC = "if ins_c + del_c < sub_c then ins_c + del_c else sub_c"
  let ?P = "?SC * int (min m n)"
  define T where "T = (int m + int n + 1) * C"
  have C: "0 \<le> C" using assms by simp
  have T: "3 * T \<le> 2147483647" using assms(8) by (simp add: T_def)
  have T0: "0 \<le> T" unfolding T_def using C by simp
  have KT: "K * C \<le> T" if "K \<le> int m + int n + 1" for K
    unfolding T_def using that C by (intro mult_right_mono) simp_all
  have CT: "C \<le> T" using KT [of 1] by simp
  have k: "\<bar>?k\<bar> \<le> int (max m n) - int (min m n)" "\<bar>- ?k\<bar> \<le> int (max m n) - int (min m n)"
    by (simp_all add: max_def min_def)
  let ?K = "int (max m n) - int (min m n)"
  have K: "?K * C \<le> 2147483647" "int (min m n) * C \<le> 2147483647" "int (max m n) * C \<le> T"
  proof -
    have "?K * C \<le> T" by (rule KT) (simp add: max_def min_def)
    then show "?K * C \<le> 2147483647" using T T0 by linarith
    have "int (min m n) * C \<le> T" by (rule KT) (simp add: min_def)
    then show "int (min m n) * C \<le> 2147483647" using T T0 by linarith
    show "int (max m n) * C \<le> T" by (rule KT) (simp add: max_def)
  qed
  note wa = wrap_times [OF assms(3,4) k(2) K(1)]
  note wb = wrap_times [OF assms(1,2) k(1) K(1)]
  have MT: "0 \<le> ?MT" "?MT \<le> ?K * C"
  proof -
    show "0 \<le> ?MT" using assms(1,3) by (simp add: mult_nonneg_nonneg)
    show "?MT \<le> ?K * C"
    proof (cases "?k < 0")
      case True
      have "- ?k * del_c \<le> \<bar>- ?k * del_c\<bar>" by (rule abs_ge_self)
      from this wa(2) have "- ?k * del_c \<le> ?K * C" by (rule order_trans)
      then show ?thesis by (simp only: True if_True)
    next
      case False
      have "?k * ins_c \<le> \<bar>?k * ins_c\<bar>" by (rule abs_ge_self)
      from this wb(2) have "?k * ins_c \<le> ?K * C" by (rule order_trans)
      then show ?thesis by (simp only: False if_False)
    qed
  qed
  have wsum: "wrap (ins_c + del_c) = ins_c + del_c"
    using assms(1-4) CT T T0 by (intro wrap_nonneg) linarith+
  have SC: "0 \<le> ?SC" "?SC \<le> C" using assms(1-6) by simp_all
  have P: "0 \<le> ?P" "?P \<le> int (min m n) * C"
  proof -
    show "0 \<le> ?P" using SC(1) by (intro mult_nonneg_nonneg) simp_all
    have "?SC * int (min m n) \<le> C * int (min m n)" using SC(2) by (intro mult_right_mono) simp_all
    then show "?P \<le> int (min m n) * C" by (simp add: mult.commute)
  qed
  have wp: "wrap ?P = ?P" using P K(2) by (intro wrap_nonneg) linarith+
  have sum: "?MT + ?P \<le> T"
  proof -
    have "?MT + ?P \<le> ?K * C + int (min m n) * C" using MT(2) P(2) by linarith
    also have "\<dots> = int (max m n) * C" by (simp add: algebra_simps)
    finally show ?thesis using K(3) by linarith
  qed
  have wmax: "wrap (?MT + ?P) = ?MT + ?P"
    using MT(1) P(1) sum T T0 by (intro wrap_nonneg) linarith+
  note real = init_window_def [of m n ins_c del_c sub_c max_d, unfolded Let_def wa(1) wb(1) wsum wp wmax]
  have res: "?MT = residual ins_c del_c ?k" by (rule min_theo_residual)
  consider (reject) "max_d < ?MT"
    | (disabled) "?MT \<le> max_d" "?MT + ?P \<le> max_d"
    | (window) "?MT \<le> max_d" "max_d < ?MT + ?P"
    by linarith
  then show ?thesis
  proof cases
    case reject
    have w: "wrap (max_d + 1) = max_d + 1"
      using True reject MT(2) K(1) by (intro wrap_nonneg) linarith+
    have "init_window_exact m n ins_c del_c sub_c max_d = Inr (Return_now_exact (max_d + 1))"
      using True reject unfolding res by (rule init_window_reject)
    moreover have "init_window m n ins_c del_c sub_c max_d = Inr (Return_now (max_d + 1))"
      unfolding real w using True reject by simp
    ultimately show ?thesis by simp
  next
    case disabled
    have "init_window_exact m n ins_c del_c sub_c max_d = Inr (Proceed_exact (- 1) ?SC (m + 1))"
      using True disabled unfolding res by (rule init_window_disabled)
    moreover have "init_window m n ins_c del_c sub_c max_d = Inr (Proceed (- 1) ?SC (int m + 1))"
      unfolding real using True disabled by simp
    ultimately show ?thesis by simp
  next
    case window
    have c: "0 < ins_c + del_c"
    proof (rule ccontr)
      assume "\<not> 0 < ins_c + del_c"
      with assms(1,3) have z: "ins_c = 0" "del_c = 0" by simp_all
      have "?MT = 0" "?SC = 0" using assms(5) unfolding z by simp_all
      with window show False by simp
    qed
    then have C1: "1 \<le> C" using assms(1-4) by linarith
    let ?slack = "max_d - ?MT"
    let ?q = "?slack div (ins_c + del_c)"
    let ?best = "if ?k < 0 then - ?k else 0"
    have wslack: "wrap ?slack = ?slack"
      using window(1) MT(1) assms(7) by (intro wrap_nonneg) linarith+
    have div: "c_div ?slack (ins_c + del_c) = Inr ?q"
      using window(1) c by (intro c_div_nonneg) simp_all
    have q: "0 \<le> ?q" using window(1) c by (intro pos_imp_zdiv_nonneg_iff [THEN iffD2]) simp_all
    have "?q \<le> ?slack div 1" using window(1) c by (intro zdiv_mono2) simp_all
    then have "?q \<le> ?slack" by simp
    then have q': "?q < T" using window(2) sum MT(1) by linarith
    have best: "0 \<le> ?best" "?best \<le> T"
    proof -
      show "0 \<le> ?best" by simp
      have "?best \<le> int m" by simp
      also have "\<dots> \<le> int m * C" using C1 by (simp add: mult_le_cancel_left1)
      also have "\<dots> \<le> T" by (rule KT) simp
      finally show "?best \<le> T" .
    qed
    have w1: "wrap (?best + ?q) = ?best + ?q"
      using best q q' T by (intro wrap_nonneg) linarith+
    have w2: "wrap (?best + ?q + 1) = ?best + ?q + 1"
      using best q q' T by (intro wrap_nonneg) linarith+
    have "init_window_exact m n ins_c del_c sub_c max_d
         = Inr (Proceed_exact max_d ?SC
             (if ?best + (max_d - residual ins_c del_c ?k) div (ins_c + del_c) + 1 > int m
              then m + 1
              else nat (?best + (max_d - residual ins_c del_c ?k) div (ins_c + del_c) + 1)))"
      using True window c unfolding res by (rule init_window_window)
    moreover have "init_window m n ins_c del_c sub_c max_d
         = Inr (Proceed max_d ?SC (if ?best + ?q + 1 > int m then int m + 1 else ?best + ?q + 1))"
      unfolding real wslack div sum.case w1 w2 using True window c by simp
    ultimately show ?thesis using best(1) q unfolding res [symmetric] by simp
  qed
qed

subsection \<open>The sliding loops without overflow\<close>

lemma slide_test_no_overflow:
  assumes "0 \<le> ins_c" "ins_c \<le> C" "0 \<le> del_c" "del_c \<le> C"
    and "0 \<le> v" "v \<le> V" "\<bar>net\<bar> \<le> K" "V + K * C \<le> 2147483647"
  shows "wrap (v + (if net > 0 then wrap (net * ins_c) else wrap (- net * del_c)))
         = v + residual ins_c del_c net"
proof -
  have KC: "K * C \<le> 2147483647" using assms(5,6,8) by linarith
  have n': "\<bar>- net\<bar> \<le> K" using assms(7) by simp
  note wi = wrap_times [OF assms(1,2,7) KC]
  note wd = wrap_times [OF assms(3,4) n' KC]
  have r: "(if net > 0 then wrap (net * ins_c) else wrap (- net * del_c)) = residual ins_c del_c net"
    unfolding wi(1) wd(1) residual_def ..
  have "residual ins_c del_c net \<le> \<bar>residual ins_c del_c net\<bar>" by (rule abs_ge_self)
  moreover have "\<bar>residual ins_c del_c net\<bar> \<le> K * C"
    using wi(2) wd(2) by (simp only: residual_def split: if_splits) simp
  moreover have "0 \<le> residual ins_c del_c net" using assms(1,3) by (rule residual_nonneg)
  ultimately have "0 \<le> v + residual ins_c del_c net" "v + residual ins_c del_c net \<le> 2147483647"
    using assms(5,6,8) by linarith+
  then show ?thesis unfolding r by (rule wrap_nonneg)
qed

lemma slide_stop_no_overflow:
  assumes "0 \<le> ins_c" "ins_c \<le> C" "0 \<le> del_c" "del_c \<le> C"
    and "V + K * C \<le> 2147483647"
  shows "\<forall>k<stop_column. 0 \<le> prev ! k \<and> prev ! k \<le> V \<Longrightarrow>
         \<forall>k<stop_column. \<bar>int k - zp\<bar> \<le> K \<Longrightarrow>
         slide_stop ins_c del_c max_d zp prev stop_column
           = slide_stop_exact ins_c del_c max_d zp prev stop_column"
proof (induction stop_column)
  case 0
  show ?case by (subst slide_stop.simps, subst slide_stop_exact.simps) simp
next
  case (Suc k)
  have p: "0 \<le> prev ! k" "prev ! k \<le> V" and net: "\<bar>int k - zp\<bar> \<le> K"
    using Suc.prems by simp_all
  note test = slide_test_no_overflow [OF assms(1-4) p net assms(5)]
  have IH: "slide_stop ins_c del_c max_d zp prev k = slide_stop_exact ins_c del_c max_d zp prev k"
    using Suc.prems by (intro Suc.IH) simp_all
  have "slide_stop ins_c del_c max_d zp prev (Suc k)
        = (if prev ! k + residual ins_c del_c (int k - zp) \<le> max_d then Suc k
           else slide_stop ins_c del_c max_d zp prev k)"
    by (subst slide_stop.simps) (simp only: zero_less_Suc if_True Let_def diff_Suc_1 test)
  then show ?case unfolding IH slide_stop_Suc .
qed

lemma slide_start_no_overflow:
  assumes "0 \<le> ins_c" "ins_c \<le> C" "0 \<le> del_c" "del_c \<le> C"
    and "0 \<le> max_d + 1" "max_d + 1 \<le> V" "V + K * C \<le> 2147483647" "0 \<le> K"
  shows "\<forall>k<stop_column. 0 \<le> prev ! k \<and> prev ! k \<le> V \<Longrightarrow>
         \<forall>k<stop_column. \<bar>int k - zp\<bar> \<le> K \<Longrightarrow> stop_column \<le> length prev \<Longrightarrow>
         slide_start ins_c del_c max_d zp stop_column (prev, cur, start_column, s_data)
           = slide_start_exact ins_c del_c max_d zp stop_column (prev, cur, start_column, s_data)"
proof (induction "stop_column - start_column" arbitrary: prev cur start_column s_data)
  case 0
  then have "\<not> start_column < stop_column" by simp
  then show ?case by (subst slide_start.simps, subst slide_start_exact.simps) simp
next
  case (Suc d)
  from Suc.hyps(2) have run: "start_column < stop_column"
    and d: "d = stop_column - (start_column + 1)" by simp_all
  have C: "0 \<le> K * C" using assms(1,2,8) by simp
  have w: "wrap (max_d + 1) = max_d + 1" using assms(5-7) C by (intro wrap_nonneg) linarith+
  have p: "0 \<le> prev ! start_column" "prev ! start_column \<le> V"
    and net: "\<bar>int start_column - zp\<bar> \<le> K"
    using Suc.prems run by simp_all
  note test = slide_test_no_overflow [OF assms(1-4) p net assms(7)]
  let ?prev = "prev[start_column := max_d + 1]"
  have prev': "\<forall>k<stop_column. 0 \<le> ?prev ! k \<and> ?prev ! k \<le> V"
  proof (intro allI impI)
    fix k assume k: "k < stop_column"
    show "0 \<le> ?prev ! k \<and> ?prev ! k \<le> V"
    proof (cases "k = start_column")
      case True
      then show ?thesis using assms(5,6) run Suc.prems(3) by simp
    next
      case False
      then show ?thesis using Suc.prems(1) k by simp
    qed
  qed
  have len: "stop_column \<le> length ?prev" using Suc.prems(3) by simp
  note IH = Suc.hyps(1) [OF d prev' Suc.prems(2) len]
  have "slide_start ins_c del_c max_d zp stop_column (prev, cur, start_column, s_data)
        = (if prev ! start_column + residual ins_c del_c (int start_column - zp) \<le> max_d
           then (prev, cur, start_column, s_data)
           else slide_start ins_c del_c max_d zp stop_column
                  (?prev, cur[start_column := max_d + 1], start_column + 1,
                   if start_column \<noteq> 0 then s_data + 1 else s_data))"
    by (subst slide_start.simps) (simp only: run if_True Let_def test w)
  then show ?case unfolding IH by (subst slide_start_unfold) (simp only: run if_True)
qed

subsection \<open>The passes over a row without overflow\<close>

lemma window_in_range_parts:
  assumes "window_in_range U m (prev, cur, start_column, stop_column, s_data)"
  shows "length prev = m" "length cur = m" "start_column \<le> stop_column" "stop_column \<le> m"
    "s_data = start_column - 1"
    "\<And>k. k < stop_column \<Longrightarrow> 0 \<le> prev ! k \<and> prev ! k \<le> U"
    "\<And>k. k < start_column \<Longrightarrow> 0 \<le> cur ! k \<and> cur ! k \<le> U"
  using assms by (simp_all add: window_in_range_def)

lemma fill_pass_real_eq:
  "fill_pass s_char_len s t t_bytes ins_c del_c sub_c max_d m n j y
     (prev, cur, start_column, stop_column, s_data)
   = (fill_row s_char_len s t y (if n \<noteq> t_bytes + 1 then pg_mblen t y else 1) ins_c del_c sub_c
        (if stop_column < m then prev[stop_column := wrap (max_d + 1)] else prev)
        (if stop_column < m then stop_column + 1 else stop_column)
        (if start_column = 0 then 1 else start_column) s_data
        (if start_column = 0 then cur[0 := wrap (int j * ins_c)] else cur),
      if stop_column < m then prev[stop_column := wrap (max_d + 1)] else prev,
      start_column,
      if stop_column < m then stop_column + 1 else stop_column,
      s_data)"
  by (simp add: fill_pass_def Let_def)

lemma fill_pass_no_overflow:
  assumes "0 \<le> ins_c" "ins_c \<le> C" "0 \<le> del_c" "del_c \<le> C" "0 \<le> sub_c" "sub_c \<le> C"
    and "U + 2 * C \<le> 2147483647"
    and inv: "window_in_range U m (prev, cur, start_column, stop_column, s_data)"
    and "0 \<le> B + 1" "B + 1 \<le> U" "int j * C \<le> U + C" "0 < m"
  shows "fill_pass s_char_len s t t_bytes ins_c del_c sub_c B m n j y
           (prev, cur, start_column, stop_column, s_data)
         = fill_pass_exact s_char_len s t t_bytes ins_c del_c sub_c B m n j y
             (prev, cur, start_column, stop_column, s_data)"
    and "window_in_range (U + C) m
           (fill_pass_exact s_char_len s t t_bytes ins_c del_c sub_c B m n j y
              (prev, cur, start_column, stop_column, s_data))"
proof -
  note p = window_in_range_parts [OF inv]
  have C: "0 \<le> C" using assms by simp
  have wB: "wrap (B + 1) = B + 1" using assms(7,9,10) C by (intro wrap_nonneg) linarith+
  have ji: "0 \<le> int j * ins_c" "int j * ins_c \<le> U + C"
    using assms(1,2,11) scaled_le [of ins_c C j j] by simp_all
  then have wj: "wrap (int j * ins_c) = int j * ins_c"
    using assms(7) C by (intro wrap_nonneg) linarith+
  let ?ycl = "if n \<noteq> t_bytes + 1 then pg_mblen t y else 1"
  let ?prev = "if stop_column < m then prev[stop_column := B + 1] else prev"
  let ?stop = "if stop_column < m then stop_column + 1 else stop_column"
  let ?i = "if start_column = 0 then 1 else start_column"
  let ?cur = "if start_column = 0 then cur[0 := int j * ins_c] else cur"
  have prev': "\<forall>k<?stop. 0 \<le> ?prev ! k \<and> ?prev ! k \<le> U"
  proof (intro allI impI)
    fix k assume k: "k < ?stop"
    show "0 \<le> ?prev ! k \<and> ?prev ! k \<le> U"
    proof (cases "stop_column < m \<and> k = stop_column")
      case True
      then show ?thesis using assms(9,10) p(1) by simp
    next
      case False
      with k have "k < stop_column" by (simp split: if_splits)
      with False p(6) [of k] show ?thesis by (simp split: if_splits)
    qed
  qed
  have cur': "\<forall>k<?i. 0 \<le> ?cur ! k \<and> ?cur ! k \<le> U + C"
  proof (intro allI impI)
    fix k assume k: "k < ?i"
    show "0 \<le> ?cur ! k \<and> ?cur ! k \<le> U + C"
    proof (cases "start_column = 0")
      case True
      with k have "k = 0" by simp
      with True ji p(2) assms(12) show ?thesis by simp
    next
      case False
      with k p(7) [of k] C show ?thesis by simp
    qed
  qed
  have i: "0 < ?i" by simp
  have len: "?stop \<le> length ?cur" using p(2,4) by simp
  note fill = fill_row_no_overflow [OF assms(1-7) prev' cur' i len, of s_char_len s t y ?ycl s_data]
  let ?R = "fill_row_exact s_char_len s t y ?ycl ins_c del_c sub_c ?prev ?stop ?i s_data ?cur"
  have eq: "fill_row s_char_len s t y ?ycl ins_c del_c sub_c ?prev ?stop ?i s_data ?cur = ?R"
    and R: "\<forall>k<?stop. 0 \<le> ?R ! k \<and> ?R ! k \<le> U + C"
    using fill by simp_all
  show "fill_pass s_char_len s t t_bytes ins_c del_c sub_c B m n j y
           (prev, cur, start_column, stop_column, s_data)
         = fill_pass_exact s_char_len s t t_bytes ins_c del_c sub_c B m n j y
             (prev, cur, start_column, stop_column, s_data)"
    unfolding fill_pass_real_eq fill_pass_eq wB wj eq ..
  have old: "\<forall>k<start_column. 0 \<le> ?prev ! k \<and> ?prev ! k \<le> U + C"
  proof (intro allI impI)
    fix k assume "k < start_column"
    with p(3) have "k < ?stop" by simp
    with prev' C show "0 \<le> ?prev ! k \<and> ?prev ! k \<le> U + C" by fastforce
  qed
  have "length ?R = m" using p(2) by (simp add: length_fill_row)
  moreover have "length ?prev = m" using p(1) by simp
  moreover have "start_column \<le> ?stop" "?stop \<le> m" using p(3,4) by simp_all
  ultimately show "window_in_range (U + C) m
           (fill_pass_exact s_char_len s t t_bytes ins_c del_c sub_c B m n j y
              (prev, cur, start_column, stop_column, s_data))"
    unfolding fill_pass_eq window_in_range_def using R old p(5) by simp
qed

lemma slide_pass_real_eq:
  "slide_pass ins_c del_c max_d m n j (prev, cur, start_column, stop_column, s_data)
   = (case slide_start ins_c del_c max_d (int j - (int n - int m))
             (slide_stop ins_c del_c max_d (int j - (int n - int m)) prev stop_column)
             (prev, cur, start_column, s_data) of
        (prev', cur', start', s_data') \<Rightarrow>
          (prev', cur', start',
           slide_stop ins_c del_c max_d (int j - (int n - int m)) prev stop_column, s_data'))"
  by (simp add: slide_pass_def Let_def)

lemma slide_pass_no_overflow:
  assumes "0 \<le> ins_c" "ins_c \<le> C" "0 \<le> del_c" "del_c \<le> C"
    and "0 \<le> B + 1" "B + 1 \<le> V" "V + K * C \<le> 2147483647" "0 \<le> K"
    and inv: "window_in_range V m (prev, cur, start_column, stop_column, s_data)"
    and net: "\<forall>k<m. \<bar>int k - (int j - (int n - int m))\<bar> \<le> K"
  shows "slide_pass ins_c del_c B m n j (prev, cur, start_column, stop_column, s_data)
         = slide_pass_exact ins_c del_c B m n j (prev, cur, start_column, stop_column, s_data)"
    and "slide_pass_exact ins_c del_c B m n j (prev, cur, start_column, stop_column, s_data)
           = (prev', cur', start', stop', s_data') \<Longrightarrow> start' < stop' \<Longrightarrow>
         window_in_range V m (prev', cur', start', stop', s_data')"
proof -
  note p = window_in_range_parts [OF inv]
  let ?zp = "int j - (int n - int m)"
  let ?stop = "slide_stop_exact ins_c del_c B ?zp prev stop_column"
  have le: "?stop \<le> stop_column" by (rule slide_stop_le)
  have cells: "\<forall>k<stop_column. 0 \<le> prev ! k \<and> prev ! k \<le> V" using p(6) by simp
  have nets: "\<forall>k<stop_column. \<bar>int k - ?zp\<bar> \<le> K" using net p(4) by simp
  have stop: "slide_stop ins_c del_c B ?zp prev stop_column = ?stop"
    using assms(1-4,7) cells nets by (rule slide_stop_no_overflow)
  have cells': "\<forall>k<?stop. 0 \<le> prev ! k \<and> prev ! k \<le> V" using cells le by simp
  have nets': "\<forall>k<?stop. \<bar>int k - ?zp\<bar> \<le> K" using nets le by simp
  have len: "?stop \<le> length prev" using le p(1,4) by simp
  have start: "slide_start ins_c del_c B ?zp ?stop (prev, cur, start_column, s_data)
      = slide_start_exact ins_c del_c B ?zp ?stop (prev, cur, start_column, s_data)"
    using assms(1-8) cells' nets' len by (rule slide_start_no_overflow)
  show "slide_pass ins_c del_c B m n j (prev, cur, start_column, stop_column, s_data)
         = slide_pass_exact ins_c del_c B m n j (prev, cur, start_column, stop_column, s_data)"
    unfolding slide_pass_real_eq slide_pass_eq stop start ..
  assume res: "slide_pass_exact ins_c del_c B m n j (prev, cur, start_column, stop_column, s_data)
           = (prev', cur', start', stop', s_data')"
    and run: "start' < stop'"
  from res have st: "stop' = ?stop"
    and ss: "slide_start_exact ins_c del_c B ?zp ?stop (prev, cur, start_column, s_data)
             = (prev', cur', start', s_data')"
    unfolding slide_pass_eq by (auto split: prod.splits)
  have lc: "length cur = length prev" using p(1,2) by simp
  note sp = slide_start_spec [OF ss len lc p(5)]
  have l: "length prev' = m" "length cur' = m" and s: "s_data' = start' - 1"
    and ge: "start_column \<le> start'"
    using sp p(1,2) by simp_all
  have dropped: "prev' ! i = B + 1 \<and> cur' ! i = B + 1" if "start_column \<le> i" "i < start'" for i
    using sp that by blast
  have kept: "prev' ! i = prev ! i \<and> cur' ! i = cur ! i" if "i < start_column \<or> start' \<le> i" for i
    using sp that by blast
  have a: "0 \<le> prev' ! k \<and> prev' ! k \<le> V" if "k < stop'" for k
  proof (cases "start_column \<le> k \<and> k < start'")
    case True
    then show ?thesis using dropped [of k] assms(5,6) by simp
  next
    case False
    then have "prev' ! k = prev ! k" using kept [of k] by auto
    moreover have "k < stop_column" using that st le by simp
    ultimately show ?thesis using p(6) [of k] by simp
  qed
  have b: "0 \<le> cur' ! k \<and> cur' ! k \<le> V" if "k < start'" for k
  proof (cases "start_column \<le> k")
    case True
    then show ?thesis using dropped [of k] that assms(5,6) by simp
  next
    case False
    then have "cur' ! k = cur ! k" using kept [of k] by auto
    with False p(7) [of k] show ?thesis by simp
  qed
  have "stop' \<le> m" using st le p(4) by simp
  with l s run a b show "window_in_range V m (prev', cur', start', stop', s_data')"
    by (simp add: window_in_range_def)
qed

lemma window_row_no_overflow:
  assumes "0 \<le> ins_c" "ins_c \<le> C" "0 \<le> del_c" "del_c \<le> C" "0 \<le> sub_c" "sub_c \<le> C"
    and "0 \<le> B + 1" "B + 1 \<le> U" "int j * C \<le> U + C" "0 < m" "1 \<le> K"
    and "U + C + K * C \<le> 2147483647"
    and inv: "window_in_range U m st"
    and net: "\<forall>k<m. \<bar>int k - (int j - (int n - int m))\<bar> \<le> K"
  shows "window_row s_char_len s t t_bytes ins_c del_c sub_c B m n j y st
         = window_row_exact s_char_len s t t_bytes ins_c del_c sub_c B m n j y st"
    and "window_row_exact s_char_len s t t_bytes ins_c del_c sub_c B m n j y st = Inr st' \<Longrightarrow>
         window_in_range (U + C) m st'"
proof -
  obtain prev cur start_column stop_column s_data
    where st: "st = (prev, cur, start_column, stop_column, s_data)" by (cases st) auto
  have C: "0 \<le> C" using assms by simp
  have "C \<le> K * C" using assms(11) C by (simp add: mult_le_cancel_right1)
  then have U2: "U + 2 * C \<le> 2147483647" using assms(12) by linarith
  have w: "wrap (B + 1) = B + 1" using assms(7,8) U2 C by (intro wrap_nonneg) linarith+
  note fp = fill_pass_no_overflow [OF assms(1-6) U2 inv [unfolded st] assms(7-10),
      of s_char_len s t t_bytes n y]
  let ?f = "fill_pass_exact s_char_len s t t_bytes ins_c del_c sub_c B m n j y st"
  obtain prev1 cur1 start1 stop1 s_data1
    where f: "?f = (prev1, cur1, start1, stop1, s_data1)" by (cases ?f) auto
  have inv1: "window_in_range (U + C) m (prev1, cur1, start1, stop1, s_data1)"
    using fp(2) f unfolding st by simp
  have B1: "B + 1 \<le> U + C" using assms(8) C by linarith
  have K0: "0 \<le> K" using assms(11) by simp
  note sp = slide_pass_no_overflow [OF assms(1-4,7) B1 assms(12) K0 inv1 net]
  show "window_row s_char_len s t t_bytes ins_c del_c sub_c B m n j y st
         = window_row_exact s_char_len s t t_bytes ins_c del_c sub_c B m n j y st"
    unfolding window_row_def window_row_exact_def Let_def fp(1) [folded st] f sp(1) w ..
  assume res: "window_row_exact s_char_len s t t_bytes ins_c del_c sub_c B m n j y st = Inr st'"
  show "window_in_range (U + C) m st'"
  proof (cases "0 \<le> B")
    case False
    with res f have "st' = (prev1, cur1, start1, stop1, s_data1)"
      by (simp add: window_row_exact_def Let_def)
    with inv1 show ?thesis by simp
  next
    case True
    let ?s = "slide_pass_exact ins_c del_c B m n j (prev1, cur1, start1, stop1, s_data1)"
    obtain prev2 cur2 start2 stop2 s_data2
      where s: "?s = (prev2, cur2, start2, stop2, s_data2)" by (cases ?s) auto
    from res True f s have "start2 < stop2" "st' = (prev2, cur2, start2, stop2, s_data2)"
      by (simp_all add: window_row_exact_def Let_def split: if_splits)
    with sp(2) [OF s] show ?thesis by simp
  qed
qed

lemma window_rows_no_overflow:
  assumes "0 \<le> ins_c" "ins_c \<le> C" "0 \<le> del_c" "del_c \<le> C" "0 \<le> sub_c" "sub_c \<le> C"
    and "0 \<le> B + 1" "0 < m" "1 \<le> K"
    and net: "\<forall>j' k. j' < n \<and> k < m \<longrightarrow> \<bar>int k - (int j' - (int n - int m))\<bar> \<le> K"
  shows "window_in_range U m st \<Longrightarrow> B + 1 \<le> U \<Longrightarrow> int j * C \<le> U + C \<Longrightarrow>
         U + int (n - j) * C + K * C \<le> 2147483647 \<Longrightarrow>
         window_rows s_char_len s t t_bytes ins_c del_c sub_c B m n j y st
           = window_rows_exact s_char_len s t t_bytes ins_c del_c sub_c B m n j y st"
proof (induction "n - j" arbitrary: j y st U)
  case 0
  then have "\<not> j < n" by simp
  then show ?case by (subst window_rows.simps, subst window_rows_exact.simps) simp
next
  case (Suc d)
  from Suc.hyps(2) have j: "j < n" and d: "n - j = Suc d" "d = n - (j + 1)" by simp_all
  have C: "0 \<le> C" using assms by simp
  then have dC: "0 \<le> int d * C" by simp
  have bound: "U + C + K * C \<le> 2147483647"
    using Suc.prems(4) dC unfolding d(1) by (simp add: algebra_simps)
  have netj: "\<forall>k<m. \<bar>int k - (int j - (int n - int m))\<bar> \<le> K" using net j by simp
  note row = window_row_no_overflow [OF assms(1-7) Suc.prems(2,3) assms(8,9) bound Suc.prems(1) netj,
      of s_char_len s t t_bytes y]
  let ?r = "window_row_exact s_char_len s t t_bytes ins_c del_c sub_c B m n j y st"
  have unfold: "window_rows s_char_len s t t_bytes ins_c del_c sub_c B m n j y st
      = (case ?r of Inl d \<Rightarrow> d
         | Inr st' \<Rightarrow> window_rows s_char_len s t t_bytes ins_c del_c sub_c B m n (j + 1) (y + 1) st')"
    by (subst window_rows.simps) (simp only: j if_True row(1))
  have unfold': "window_rows_exact s_char_len s t t_bytes ins_c del_c sub_c B m n j y st
      = (case ?r of Inl d \<Rightarrow> d
         | Inr st' \<Rightarrow> window_rows_exact s_char_len s t t_bytes ins_c del_c sub_c B m n (j + 1) (y + 1) st')"
    by (subst window_rows_exact.simps) (simp only: j if_True)
  show ?case
  proof (cases ?r)
    case (Inl v)
    then show ?thesis unfolding unfold unfold' by simp
  next
    case (Inr st')
    have inv': "window_in_range (U + C) m st'" using Inr by (rule row(2))
    have B': "B + 1 \<le> U + C" using Suc.prems(2) C by linarith
    have j': "int (j + 1) * C \<le> U + C + C" using Suc.prems(3) by (simp add: algebra_simps)
    have bound': "U + C + int (n - (j + 1)) * C + K * C \<le> 2147483647"
      using Suc.prems(4) unfolding d(1) d(2) [symmetric] by (simp add: algebra_simps)
    show ?thesis
      unfolding unfold unfold' Inr sum.case
      by (rule Suc.hyps(1) [OF d(2) inv' B' j' bound'])
  qed
qed

subsection \<open>The bounded variant without overflow\<close>

lemma max_theo_bound:
  assumes "0 \<le> ins_c" "ins_c \<le> C" "0 \<le> del_c" "del_c \<le> C" "0 \<le> sc" "sc \<le> C"
  shows "residual ins_c del_c (int n - int m) + sc * int (min m n) \<le> int (max m n) * C"
proof -
  let ?k = "int n - int m"
  have r: "residual ins_c del_c ?k \<le> (int (max m n) - int (min m n)) * C"
  proof (cases "?k > 0")
    case True
    then have e: "int (max m n) - int (min m n) = ?k" by (simp add: max_def min_def)
    have "residual ins_c del_c ?k = ?k * ins_c" using True by (simp add: residual_def)
    moreover have "?k * ins_c \<le> ?k * C" using True assms(2) by (intro mult_left_mono) simp_all
    ultimately show ?thesis unfolding e by simp
  next
    case False
    then have e: "int (max m n) - int (min m n) = - ?k" by (simp add: max_def min_def)
    have "residual ins_c del_c ?k = - ?k * del_c" using False by (simp add: residual_def)
    moreover have "- ?k * del_c \<le> - ?k * C" using False assms(4) by (intro mult_left_mono) simp_all
    ultimately show ?thesis unfolding e by simp
  qed
  have "sc * int (min m n) \<le> C * int (min m n)" using assms(6) by (intro mult_right_mono) simp_all
  with r show ?thesis by (simp add: algebra_simps)
qed

lemma init_window_exact_proceed:
  assumes "0 \<le> max_d"
    and "init_window_exact m n ins_c del_c sub_c max_d = Inr (Proceed_exact B sc stop_column)"
  shows "sc = (if ins_c + del_c < sub_c then ins_c + del_c else sub_c)"
    and "stop_column \<le> m + 1"
    and "B = - 1 \<or> B = max_d \<and> max_d < residual ins_c del_c (int n - int m) + sc * int (min m n)"
proof -
  let ?k = "int n - int m"
  let ?SC = "if ins_c + del_c < sub_c then ins_c + del_c else sub_c"
  note iw = assms(2) [unfolded init_window_exact_def Let_def min_theo_residual]
  show "sc = ?SC" using iw assms(1) by (auto simp add: c_div_def split: if_splits)
  show "stop_column \<le> m + 1" using iw assms(1) by (auto simp add: c_div_def split: if_splits)
  have "B = - 1 \<or> B = max_d \<and> max_d < residual ins_c del_c ?k + ?SC * int (min m n)"
    using iw assms(1) by (auto simp add: c_div_def split: if_splits)
  with \<open>sc = ?SC\<close> show "B = - 1 \<or> B = max_d \<and> max_d < residual ins_c del_c ?k + sc * int (min m n)"
    by simp
qed

lemma window_start_no_overflow:
  assumes "0 \<le> del_c" "del_c \<le> C" "stop_column \<le> m" "0 < m" "int m * C \<le> U + C"
    and "U + C \<le> 2147483647"
  shows "window_start mem m del_c stop_column = window_start_exact mem m del_c stop_column"
    and "window_in_range U m (window_start_exact mem m del_c stop_column)"
proof -
  have C: "0 \<le> C" using assms by simp
  have "int stop_column * C \<le> int m * C" using assms(3) C by (intro mult_right_mono) simp_all
  with assms(5,6) have top: "int stop_column * C \<le> 2147483647" by linarith
  let ?buf = "palloc mem (2 * m)"
  have init: "init_row del_c stop_column 0 (take m ?buf) = init_row_exact del_c stop_column 0 (take m ?buf)"
    using assms(1,2) top by (rule init_row_no_overflow)
  show "window_start mem m del_c stop_column = window_start_exact mem m del_c stop_column"
    unfolding window_start_def window_start_exact_def Let_def init ..
  have cells: "0 \<le> init_row_exact del_c stop_column 0 (take m ?buf) ! k \<and>
               init_row_exact del_c stop_column 0 (take m ?buf) ! k \<le> U" if "k < stop_column" for k
  proof -
    have k: "k < m" "k \<le> m - 1" using that assms(3) by simp_all
    then have "init_row_exact del_c stop_column 0 (take m ?buf) ! k = int k * del_c"
      using that by (simp add: nth_init_row palloc_def)
    moreover have "int k * del_c \<le> int (m - 1) * C" using assms(1,2) k(2) by (rule scaled_le)
    moreover have "int (m - 1) * C = int m * C - C" using assms(4) by (simp add: of_nat_diff algebra_simps)
    ultimately show ?thesis using assms(1,5) by simp
  qed
  then show "window_in_range U m (window_start_exact mem m del_c stop_column)"
    using assms(3) by (simp add: window_in_range_def window_start_exact_def Let_def length_init_row palloc_def)
qed

lemma less_equal_no_overflow:
  assumes "0 \<le> ins_c" "ins_c \<le> C" "0 \<le> del_c" "del_c \<le> C" "0 \<le> sub_c" "sub_c \<le> C"
    and "0 \<le> max_d" "max_d \<le> 2147483647"
    and "3 * ((int (length s) + int (length t) + 1) * C) \<le> 2147483647"
  shows "dameraulevenshtein_less_equal_internal mem s t ins_c del_c sub_c trans_c max_d
           = dameraulevenshtein_less_equal_internal_exact mem s t ins_c del_c sub_c trans_c max_d"
proof -
  let ?m = "length s" and ?n = "length t"
  define T where "T = (int ?m + int ?n + 1) * C"
  have C: "0 \<le> C" using assms by simp
  have T: "3 * T \<le> 2147483647" using assms(9) by (simp add: T_def)
  have T0: "0 \<le> T" unfolding T_def using C by simp
  have KT: "K * C \<le> T" if "K \<le> int ?m + int ?n + 1" for K
    unfolding T_def using that C by (intro mult_right_mono) simp_all
  have small: "int k * c \<le> 2147483647" if "0 \<le> c" "c \<le> C" "k \<le> ?m + ?n + 1" for k c
  proof -
    have "int k * c \<le> int (?m + ?n + 1) * C" using that by (rule scaled_le)
    also have "\<dots> \<le> T" by (rule KT) simp
    finally show ?thesis using T T0 by linarith
  qed
  have wi: "wrap (int ?n * ins_c) = int ?n * ins_c"
    using assms(1,2) by (intro wrap_nonneg small) simp_all
  have wd: "wrap (int ?m * del_c) = int ?m * del_c"
    using assms(3,4) by (intro wrap_nonneg small) simp_all
  note iw = init_window_no_overflow [OF assms(1-6,8,9), of ]
  note real = dameraulevenshtein_less_equal_internal_def [of mem s t ins_c del_c sub_c trans_c max_d,
      unfolded Let_def pg_mbstrlen_with_len_def wi wd iw]
  note exact = dameraulevenshtein_less_equal_internal_exact_def [of mem s t ins_c del_c sub_c trans_c max_d,
      unfolded Let_def pg_mbstrlen_with_len_def]
  show ?thesis
  proof (cases "init_window_exact ?m ?n ins_c del_c sub_c max_d")
    case (Inl e)
    then show ?thesis unfolding real exact by simp
  next
    case (Inr r)
    show ?thesis
    proof (cases r)
      case (Return_now_exact d)
      with Inr show ?thesis unfolding real exact by simp
    next
      case (Proceed_exact B sc stop_column)
      with Inr have res: "init_window_exact ?m ?n ins_c del_c sub_c max_d
                          = Inr (Proceed_exact B sc stop_column)" by simp
      note facts = init_window_exact_proceed [OF assms(7) res]
      have sc: "0 \<le> sc" "sc \<le> C" using facts(1) assms(1-6) by simp_all
      define U where "U = (int ?m + int ?n) * C"
      have U0: "0 \<le> U" unfolding U_def using C by simp
      have UT: "U + C = T" unfolding U_def T_def by (simp add: algebra_simps)
      have B0: "0 \<le> B + 1" using facts(3) assms(7) by auto
      have BU: "B + 1 \<le> U"
      proof (cases "B = - 1")
        case True
        with U0 show ?thesis by simp
      next
        case False
        with facts(3) have "B + 1 \<le> residual ins_c del_c (int ?n - int ?m) + sc * int (min ?m ?n)"
          by simp
        also have "\<dots> \<le> int (max ?m ?n) * C" using assms(1-4) sc by (rule max_theo_bound)
        also have "\<dots> \<le> U" unfolding U_def using C by (intro mult_right_mono) simp_all
        finally show ?thesis .
      qed
      have m1: "int (?m + 1) * C \<le> U + C"
        unfolding U_def using C by (simp add: algebra_simps)
      have UC: "U + C \<le> 2147483647" using UT T T0 by linarith
      note ws = window_start_no_overflow [OF assms(3,4) facts(2) _ m1 UC, of mem]
      define K where "K = int (?m + 1) + int (?n + 1)"
      have K1: "1 \<le> K" by (simp add: K_def)
      have net: "\<forall>j' k. j' < ?n + 1 \<and> k < ?m + 1 \<longrightarrow>
                   \<bar>int k - (int j' - (int (?n + 1) - int (?m + 1)))\<bar> \<le> K"
        by (auto simp add: K_def)
      have one: "int 1 * C \<le> U + C" using U0 by simp
      have "U + int (?n + 1 - 1) * C + K * C = (2 * int ?m + 3 * int ?n + 2) * C"
        by (simp add: U_def K_def algebra_simps)
      also have "\<dots> \<le> (3 * (int ?m + int ?n + 1)) * C" using C by (intro mult_right_mono) simp_all
      also have "\<dots> = 3 * T" by (simp add: T_def)
      finally have bound: "U + int (?n + 1 - 1) * C + K * C \<le> 2147483647" using T by linarith
      have rows: "window_rows (build_s_char_len s t) s t (VARSIZE_ANY_EXHDR t) ins_c del_c sc B
                    (?m + 1) (?n + 1) 1 0 (window_start_exact mem (?m + 1) del_c stop_column)
                  = window_rows_exact (build_s_char_len s t) s t (VARSIZE_ANY_EXHDR t) ins_c del_c sc B
                    (?m + 1) (?n + 1) 1 0 (window_start_exact mem (?m + 1) del_c stop_column)"
        using assms(1-4) sc B0 _ K1 net ws(2) BU one bound
        by (rule window_rows_no_overflow) simp_all
      show ?thesis
        unfolding real exact res
        by (simp only: sum.case bound_setup_exact.case bound_setup.case of_nat_less_0_iff if_False
            nat_int ws(1) rows)
    qed
  qed
qed

subsection \<open>Unit costs\<close>

lemma unit_costs_exact:
  assumes "length s \<le> 255" "length t \<le> 255"
  shows "dameraulevenshtein_internal mem s t 1 1 1 trans_c
         = dameraulevenshtein_internal_exact mem s t 1 1 1 trans_c"
  using assms by (intro internal_no_overflow [of 1 1]) simp_all

subsection \<open>The texts ab and ba\<close>

lemma wrap_small: "wrap 1 = 1" "wrap 2 = 2" "wrap 3 = 3"
  by (simp_all add: wrap_def)

lemma noncompatible_ab_ba_costly:
  assumes "2 \<le> trans_c" "trans_c \<le> 2147483647"
  shows "dameraulevenshtein_internal_noncompatible mem (single_byte_text ''ab'') (single_byte_text ''ba'')
     1 1 1 trans_c = 2"
proof -
  have w: "wrap trans_c = trans_c" using assms by (intro wrap_nonneg) simp_all
  have b: "bytes_from (single_byte_text ''ab'') 0 = ''ab''" "bytes_from (single_byte_text ''ba'') 0 = ''ba''"
    by (simp_all only: bytes_single_byte_text)
  have l: "length (single_byte_text ''ab'') = 2" "length (single_byte_text ''ba'') = 2"
    by (simp_all add: length_single_byte_text)
  obtain g0 g1 g2 g3 g4 g5 g6 g7 g8 where buf: "palloc mem 9 = [g0, g1, g2, g3, g4, g5, g6, g7, g8]"
    by (simp add: palloc_def upt_rec numeral_nat)
  have row1: "init_row1 1 2 0 [g3, g4, g5] = [0, 1, 2]"
    by (simp add: init_row1.simps wrap_0 wrap_small)
  show ?thesis
    unfolding dameraulevenshtein_internal_noncompatible_def Let_def pg_mbstrlen_with_len_def b l
    using assms
    by (simp add: buf row1 swap_rows.simps swap_cells.simps swap_cell_def Let_def w wrap_0 wrap_small)
qed

lemma noncompatible_ab_ba_unit:
  "dameraulevenshtein_internal_noncompatible mem (single_byte_text ''ab'') (single_byte_text ''ba'')
     1 1 1 1 = 1"
proof -
  have "dameraulevenshtein_internal_noncompatible mem (single_byte_text ''ab'') (single_byte_text ''ba'')
          1 1 1 1
        = dameraulevenshtein_internal_noncompatible_exact mem (single_byte_text ''ab'')
            (single_byte_text ''ba'') 1 1 1 1"
    by (rule noncompatible_no_overflow [of 1 1]) (simp_all add: length_single_byte_text)
  moreover have "swap_matrix 1 1 1 1 ''ab'' ''ba'' (Suc (Suc 0)) (Suc (Suc 0)) = 1" by simp
  ultimately show ?thesis by (simp only: noncompatible_ab_ba)
qed


subsection \<open>The states of a run\<close>

lemma wrap_above: "\<not> wrap x \<le> y \<Longrightarrow> y < 2147483647"
  using wrap_range [of x] by linarith

lemma init_window_stop:
  "init_window m n ins_c del_c sub_c max_d = Inr (Proceed B sc stop_column) \<Longrightarrow>
   stop_column \<le> int m + 1 \<and> (0 \<le> B \<longrightarrow> B = max_d \<and> max_d < 2147483647)"
  by (auto simp add: init_window_def Let_def c_div_def sgn_if
      split: if_splits sum.splits dest: wrap_above)

lemma slide_stop_real_le: "slide_stop ins_c del_c max_d zp prev stop_column \<le> stop_column"
proof (induction stop_column)
  case 0
  show ?case by (subst slide_stop.simps) simp
next
  case (Suc k)
  then show ?case by (subst slide_stop.simps) (simp add: Let_def le_SucI)
qed

lemma fill_pass_columns:
  assumes "fill_pass s_char_len s t t_bytes ins_c del_c sub_c B m n j y
             (prev, cur, start_column, stop_column, s_data)
           = (prev1, cur1, start1, stop1, s_data1)"
    and "start_column \<le> stop_column" "stop_column \<le> m"
  shows "start1 = start_column \<and> stop_column \<le> stop1 \<and> stop1 \<le> m"
  using assms by (auto simp add: fill_pass_real_eq split: if_splits)

lemma slide_pass_columns:
  assumes "slide_pass ins_c del_c B m n j (prev, cur, start_column, stop_column, s_data)
           = (prev', cur', start', stop', s_data')"
  shows "stop' \<le> stop_column"
  using assms slide_stop_real_le [of ins_c del_c B "int j - (int n - int m)" prev stop_column]
  by (auto simp add: slide_pass_real_eq split: prod.splits)

lemma window_row_columns:
  assumes "window_row s_char_len s t t_bytes ins_c del_c sub_c B m n j y
             (prev, cur, start_column, stop_column, s_data)
           = Inr (prev', cur', start', stop', s_data')"
    and "start_column \<le> stop_column" "stop_column \<le> m"
  shows "start' \<le> stop' \<and> stop' \<le> m"
proof -
  obtain prev1 cur1 start1 stop1 s_data1 where
    fp: "fill_pass s_char_len s t t_bytes ins_c del_c sub_c B m n j y
           (prev, cur, start_column, stop_column, s_data)
         = (prev1, cur1, start1, stop1, s_data1)"
    by (metis prod_cases5)
  note c1 = fill_pass_columns [OF fp assms(2,3)]
  show ?thesis
  proof (cases "0 \<le> B")
    case True
    obtain prev2 cur2 start2 stop2 s_data2 where
      sp: "slide_pass ins_c del_c B m n j (prev1, cur1, start1, stop1, s_data1)
           = (prev2, cur2, start2, stop2, s_data2)"
      by (metis prod_cases5)
    note c2 = slide_pass_columns [OF sp]
    from assms(1) True have "start2 < stop2 \<and> (prev', cur', start', stop', s_data')
        = (prev2, cur2, start2, stop2, s_data2)"
      by (simp add: window_row_def fp sp Let_def split: if_splits)
    with c1 c2 show ?thesis by simp
  next
    case False
    with assms(1) have "(prev', cur', start', stop', s_data') = (prev1, cur1, start1, stop1, s_data1)"
      by (simp add: window_row_def fp Let_def)
    with c1 assms(2) show ?thesis by simp
  qed
qed

lemma window_reaches_columns:
  assumes "window_reaches mem s t ins_c del_c sub_c max_d B sc j st"
  shows "case st of (prev, cur, start_column, stop_column, s_data) \<Rightarrow>
           start_column \<le> stop_column \<and> stop_column \<le> length s + 1"
  using assms
proof (induction rule: window_reaches.induct)
  case (reaches_first stop_column)
  then show ?case
    using init_window_stop [of "length s" "length t" ins_c del_c sub_c max_d B sc stop_column]
    by (auto simp add: window_start_def Let_def)
next
  case (reaches_next j st st')
  obtain prev cur start_column stop_column s_data
    where st: "st = (prev, cur, start_column, stop_column, s_data)" by (metis prod_cases5)
  obtain prev' cur' start' stop' s_data'
    where st': "st' = (prev', cur', start', stop', s_data')" by (metis prod_cases5)
  from reaches_next.IH st have "start_column \<le> stop_column" "stop_column \<le> length s + 1"
    by simp_all
  with window_row_columns [OF reaches_next.hyps(3) [unfolded st st']] show ?case
    by (simp add: st')
qed

lemma window_reaches_bound:
  assumes "window_reaches mem s t ins_c del_c sub_c max_d B sc j st" "0 \<le> B"
  shows "B = max_d \<and> max_d < 2147483647"
  using assms
  by (induction rule: window_reaches.induct) (auto dest: init_window_stop)

lemma window_reaches_run:
  assumes "window_reaches mem s t ins_c del_c sub_c max_d B sc j st"
  shows "dameraulevenshtein_less_equal_internal mem s t ins_c del_c sub_c trans_c max_d
         = Inr (window_rows (build_s_char_len s t) s t (VARSIZE_ANY_EXHDR t) ins_c del_c sc B
                  (length s + 1) (length t + 1) j (j - 1) st)"
  using assms
proof (induction rule: window_reaches.induct)
  case (reaches_first stop_column)
  then show ?case
    by (simp add: dameraulevenshtein_less_equal_internal_def pg_mbstrlen_with_len_def Let_def)
next
  case (reaches_next j st st')
  have "window_rows (build_s_char_len s t) s t (VARSIZE_ANY_EXHDR t) ins_c del_c sc B
                  (length s + 1) (length t + 1) j (j - 1) st
        = window_rows (build_s_char_len s t) s t (VARSIZE_ANY_EXHDR t) ins_c del_c sc B
                  (length s + 1) (length t + 1) (j + 1) (j - 1 + 1) st'"
    using reaches_next.hyps(2,3) by (subst window_rows.simps) simp
  moreover have "0 < j" using reaches_next.hyps(1) by (induction rule: window_reaches.induct) simp_all
  ultimately show ?case using reaches_next.IH by simp
qed

lemma ab_cd_first:
  "window_reaches mem7 (single_byte_text ''ab'') (single_byte_text ''cd'') 1 1 1 1 1 1 1
     (window_start mem7 (length (single_byte_text ''ab'') + 1) 1 (nat 1))"
proof (rule reaches_first)
  show "init_window (length (single_byte_text ''ab'')) (length (single_byte_text ''cd'')) 1 1 1 1
        = Inr (Proceed 1 1 1)"
    by code_simp
qed (simp_all add: single_byte_text_def MAX_DAMERAU_LEVENSHTEIN_STRLEN_def)

lemma ab_cd_start:
  "window_start mem7 (length (single_byte_text ''ab'') + 1) 1 (nat 1)
   = ([0, 7, 7], [7, 7, 7], 0, 1, 0)"
  by code_simp

lemma ab_cd_first_filled:
  "fill_pass (build_s_char_len (single_byte_text ''ab'') (single_byte_text ''cd''))
     (single_byte_text ''ab'') (single_byte_text ''cd'')
     (VARSIZE_ANY_EXHDR (single_byte_text ''cd'')) 1 1 1 1
     (length (single_byte_text ''ab'') + 1) (length (single_byte_text ''cd'') + 1) 1 (1 - 1)
     ([0, 7, 7], [7, 7, 7], 0, 1, 0)
   = ([1, 1, 7], [0, 2, 7], 0, 2, 0)"
  by code_simp

lemma ab_cd_first_slid:
  "slide_pass 1 1 1 (length (single_byte_text ''ab'') + 1) (length (single_byte_text ''cd'') + 1) 1
     ([1, 1, 7], [0, 2, 7], 0, 2, 0)
   = ([2, 1, 7], [2, 2, 7], 1, 2, 0)"
  by code_simp

lemma ab_cd_filled:
  "fill_pass (build_s_char_len (single_byte_text ''ab'') (single_byte_text ''cd''))
     (single_byte_text ''ab'') (single_byte_text ''cd'')
     (VARSIZE_ANY_EXHDR (single_byte_text ''cd'')) 1 1 1 1
     (length (single_byte_text ''ab'') + 1) (length (single_byte_text ''cd'') + 1) 2 (2 - 1)
     ([2, 1, 7], [2, 2, 7], 1, 2, 0)
   = ([2, 2, 2], [2, 1, 2], 1, 3, 0)"
  by code_simp

lemma ab_cd_crossing:
  "slide_pass 1 1 1 (length (single_byte_text ''ab'') + 1) (length (single_byte_text ''cd'') + 1) 2
     ([2, 2, 2], [2, 1, 2], 1, 3, 0)
   = ([2, 2, 2], [2, 1, 2], 1, 0, 0)"
  by code_simp

lemma ab_cd_second:
  "window_reaches mem7 (single_byte_text ''ab'') (single_byte_text ''cd'') 1 1 1 1 1 1 (1 + 1)
     ([2, 1, 7], [2, 2, 7], 1, 2, 0)"
  using ab_cd_first [unfolded ab_cd_start]
proof (rule reaches_next)
  show "1 < length (single_byte_text ''cd'') + 1" by (simp add: single_byte_text_def)
  show "window_row (build_s_char_len (single_byte_text ''ab'') (single_byte_text ''cd''))
          (single_byte_text ''ab'') (single_byte_text ''cd'')
          (VARSIZE_ANY_EXHDR (single_byte_text ''cd'')) 1 1 1 1
          (length (single_byte_text ''ab'') + 1) (length (single_byte_text ''cd'') + 1) 1 (1 - 1)
          ([0, 7, 7], [7, 7, 7], 0, 1, 0)
        = Inr ([2, 1, 7], [2, 2, 7], 1, 2, 0)"
    by code_simp
qed

section \<open>Degenerate cases, the length limit and the unused cost\<close>

lemma init_window_no_division_by_zero:
  "init_window m n ins_c del_c sub_c max_d \<noteq> Inl DivisionByZero"
  by (simp add: init_window_def c_div_def Let_def)

lemma init_window_no_error: "init_window m n ins_c del_c sub_c max_d \<noteq> Inl e"
  by (simp add: init_window_def c_div_def Let_def)

text \<open>
  Claim C4, as the code has it. The product is taken in a C \<open>int\<close>: for an empty source,
  the target ab and an insertion cost of \<open>2^30\<close> the call returns \<open>-2147483648\<close>, not
  \<open>2 * 2^30\<close>.
\<close>

theorem empty_source_overflow_counterexample:
  "dameraulevenshtein_internal mem7 [] (single_byte_text ''ab'') 1073741824 1 1 1
     = Inr (- 2147483648) \<and>
   int (length (single_byte_text ''ab'')) * 1073741824 = 2147483648 \<and>
   (Inr (- 2147483648) :: error + int) \<noteq> Inr 2147483648"
proof -
  have "dameraulevenshtein_internal mem7 [] (single_byte_text ''ab'') 1073741824 1 1 1
     = Inr (- 2147483648)"
    by code_simp
  then show ?thesis by (simp add: single_byte_text_def)
qed

text \<open>
  Claim C4, amended. For every cost model and every target \<open>t\<close> whose product
  \<open>|t| * insert_cost\<close> lies in the range of a 32-bit \<open>int\<close>, the distance from the empty
  source to \<open>t\<close> is that product; for every source \<open>s\<close> whose product \<open>|s| * delete_cost\<close>
  lies in that range, the distance from \<open>s\<close> to the empty target is that product. This
  holds for both variants of the two-row engine, whatever the other costs, the bound and
  the contents of the allocated memory are.
\<close>

theorem degenerate_cases:
  "(- 2147483648 \<le> int (length t) * ins_c \<and> int (length t) * ins_c \<le> 2147483647 \<longrightarrow>
      dameraulevenshtein_internal mem [] t ins_c del_c sub_c trans_c
        = Inr (int (length t) * ins_c) \<and>
      dameraulevenshtein_less_equal_internal mem [] t ins_c del_c sub_c trans_c max_d
        = Inr (int (length t) * ins_c)) \<and>
   (- 2147483648 \<le> int (length s) * del_c \<and> int (length s) * del_c \<le> 2147483647 \<longrightarrow>
      dameraulevenshtein_internal mem s [] ins_c del_c sub_c trans_c
        = Inr (int (length s) * del_c) \<and>
      dameraulevenshtein_less_equal_internal mem s [] ins_c del_c sub_c trans_c max_d
        = Inr (int (length s) * del_c))"
  by (simp add: dameraulevenshtein_internal_def dameraulevenshtein_less_equal_internal_def
      pg_mbstrlen_with_len_def Let_def wrap_id wrap_0)

theorem degenerate_cases_witness:
  "- 2147483648 \<le> int (length (single_byte_text ''abc'')) * 2 \<and>
   int (length (single_byte_text ''abc'')) * 2 \<le> 2147483647 \<and>
   - 2147483648 \<le> int (length (single_byte_text ''ab'')) * 3 \<and>
   int (length (single_byte_text ''ab'')) * 3 \<le> 2147483647 \<and>
   dameraulevenshtein_internal mem7 [] (single_byte_text ''abc'') 2 3 5 1 = Inr 6 \<and>
   dameraulevenshtein_internal mem7 (single_byte_text ''ab'') [] 2 3 5 1 = Inr 6 \<and>
   dameraulevenshtein_less_equal_internal mem7 [] (single_byte_text ''abc'') 2 3 5 1 1 = Inr 6 \<and>
   dameraulevenshtein_less_equal_internal mem7 (single_byte_text ''ab'') [] 2 3 5 1 1 = Inr 6"
  using degenerate_cases [of "single_byte_text ''abc''" 2 mem7 3 5 1 1 "single_byte_text ''ab''"]
  by (simp add: single_byte_text_def)



text \<open>
  Claim C3, as the code has it. The length check comes after the two returns for an empty
  text: with the source empty and a target of 256 characters the call returns 256
  insertions and raises nothing.
\<close>

theorem too_long_beside_empty_counterexample:
  "pg_mbstrlen_with_len text256 = 256 \<and>
   dameraulevenshtein_internal mem7 [] text256 1 1 1 1 = Inr 256"
  by (simp add: dameraulevenshtein_internal_def pg_mbstrlen_with_len_def Let_def length_text256
      wrap_id)

text \<open>
  Claim C3, amended. When both texts are non-empty and the character count of either
  exceeds 255, both variants of the two-row engine fail with \<open>InputTooLong\<close>, carrying the
  maximum 255, whatever the other text, the costs and the bound are. When the source is
  empty the call returns \<open>n * ins_c\<close>, and when the target is empty \<open>m * del_c\<close>, as the C
  \<open>int\<close> that the product gives, and raises nothing, however long the other text is.
  \<open>InputTooLong 255\<close> is the only error the engine raises: the variant without a bound ends
  in no other way than with a value or this error, and the bounded variant in no other way
  than with a value, this error or, after an overflow at its start, the store outside the
  rows, which is no raised error and does not happen for a bound from 0 to \<open>2147483647\<close>
  and non-negative costs of at most \<open>C\<close> with \<open>3 * (m + n + 1) * C \<le> 2147483647\<close>.
\<close>

theorem input_too_long:
  "(s \<noteq> [] \<and> t \<noteq> [] \<and> (length s > 255 \<or> length t > 255) \<longrightarrow>
      dameraulevenshtein_internal mem s t ins_c del_c sub_c trans_c = Inl (InputTooLong 255) \<and>
      dameraulevenshtein_less_equal_internal mem s t ins_c del_c sub_c trans_c max_d
        = Inl (InputTooLong 255)) \<and>
   (s = [] \<longrightarrow>
      dameraulevenshtein_internal mem s t ins_c del_c sub_c trans_c
        = Inr (wrap (int (length t) * ins_c)) \<and>
      dameraulevenshtein_less_equal_internal mem s t ins_c del_c sub_c trans_c max_d
        = Inr (wrap (int (length t) * ins_c))) \<and>
   (s \<noteq> [] \<and> t = [] \<longrightarrow>
      dameraulevenshtein_internal mem s t ins_c del_c sub_c trans_c
        = Inr (wrap (int (length s) * del_c)) \<and>
      dameraulevenshtein_less_equal_internal mem s t ins_c del_c sub_c trans_c max_d
        = Inr (wrap (int (length s) * del_c))) \<and>
   (\<forall>e. dameraulevenshtein_internal mem s t ins_c del_c sub_c trans_c = Inl e \<longrightarrow>
      e = InputTooLong 255) \<and>
   (\<forall>e. dameraulevenshtein_less_equal_internal mem s t ins_c del_c sub_c trans_c max_d = Inl e \<longrightarrow>
      e = InputTooLong 255 \<or> e = OutOfBounds) \<and>
   (0 \<le> ins_c \<and> ins_c \<le> C \<and> 0 \<le> del_c \<and> del_c \<le> C \<and> 0 \<le> sub_c \<and> sub_c \<le> C \<and>
    0 \<le> max_d \<and> max_d \<le> 2147483647 \<and>
    3 * ((int (length s) + int (length t) + 1) * C) \<le> 2147483647 \<longrightarrow>
      (\<forall>e. dameraulevenshtein_less_equal_internal mem s t ins_c del_c sub_c trans_c max_d = Inl e \<longrightarrow>
         e = InputTooLong 255))"
proof -
  have long: "dameraulevenshtein_internal mem s t ins_c del_c sub_c trans_c = Inl (InputTooLong 255) \<and>
      dameraulevenshtein_less_equal_internal mem s t ins_c del_c sub_c trans_c max_d
        = Inl (InputTooLong 255)"
    if "s \<noteq> [] \<and> t \<noteq> [] \<and> (length s > 255 \<or> length t > 255)"
    using that
    by (auto simp add: dameraulevenshtein_internal_def dameraulevenshtein_less_equal_internal_def
        pg_mbstrlen_with_len_def MAX_DAMERAU_LEVENSHTEIN_STRLEN_def Let_def)
  have src: "dameraulevenshtein_internal mem s t ins_c del_c sub_c trans_c
        = Inr (wrap (int (length t) * ins_c)) \<and>
      dameraulevenshtein_less_equal_internal mem s t ins_c del_c sub_c trans_c max_d
        = Inr (wrap (int (length t) * ins_c))"
    if "s = []"
    using that
    by (simp add: dameraulevenshtein_internal_def dameraulevenshtein_less_equal_internal_def
        pg_mbstrlen_with_len_def Let_def)
  have tgt: "dameraulevenshtein_internal mem s t ins_c del_c sub_c trans_c
        = Inr (wrap (int (length s) * del_c)) \<and>
      dameraulevenshtein_less_equal_internal mem s t ins_c del_c sub_c trans_c max_d
        = Inr (wrap (int (length s) * del_c))"
    if "s \<noteq> [] \<and> t = []"
    using that
    by (simp add: dameraulevenshtein_internal_def dameraulevenshtein_less_equal_internal_def
        pg_mbstrlen_with_len_def Let_def)
  have only: "e = InputTooLong 255"
    if "dameraulevenshtein_internal mem s t ins_c del_c sub_c trans_c = Inl e" for e
    using that
    by (auto simp add: dameraulevenshtein_internal_def pg_mbstrlen_with_len_def
        MAX_DAMERAU_LEVENSHTEIN_STRLEN_def Let_def split: if_splits)
  have only': "e = InputTooLong 255 \<or> e = OutOfBounds"
    if "dameraulevenshtein_less_equal_internal mem s t ins_c del_c sub_c trans_c max_d = Inl e" for e
    using that init_window_no_error [of "length s" "length t" ins_c del_c sub_c max_d]
    by (auto simp add: dameraulevenshtein_less_equal_internal_def pg_mbstrlen_with_len_def
        MAX_DAMERAU_LEVENSHTEIN_STRLEN_def Let_def split: sum.splits bound_setup.splits if_splits)
  have range: "e = InputTooLong 255"
    if "0 \<le> ins_c \<and> ins_c \<le> C \<and> 0 \<le> del_c \<and> del_c \<le> C \<and> 0 \<le> sub_c \<and> sub_c \<le> C \<and>
        0 \<le> max_d \<and> max_d \<le> 2147483647 \<and>
        3 * ((int (length s) + int (length t) + 1) * C) \<le> 2147483647"
      and "dameraulevenshtein_less_equal_internal mem s t ins_c del_c sub_c trans_c max_d = Inl e"
    for e
  proof -
    have "dameraulevenshtein_less_equal_internal_exact mem s t ins_c del_c sub_c trans_c max_d = Inl e"
      using that less_equal_no_overflow [of ins_c C del_c sub_c max_d s t mem trans_c] by simp
    then show ?thesis
      using init_window_exact_no_error [of "length s" "length t" ins_c del_c sub_c max_d]
      by (auto simp add: dameraulevenshtein_less_equal_internal_exact_def pg_mbstrlen_with_len_def
          MAX_DAMERAU_LEVENSHTEIN_STRLEN_def Let_def
          split: sum.splits bound_setup_exact.splits if_splits)
  qed
  from long src tgt only only' range show ?thesis by blast
qed

theorem input_too_long_witness:
  "single_byte_text ''a'' \<noteq> [] \<and> text256 \<noteq> [] \<and> length text256 > 255 \<and>
   dameraulevenshtein_internal mem7 (single_byte_text ''a'') text256 1 1 1 1
     = Inl (InputTooLong 255) \<and>
   dameraulevenshtein_less_equal_internal mem7 (single_byte_text ''a'') text256 1 1 1 1 3
     = Inl (InputTooLong 255) \<and>
   dameraulevenshtein_internal mem7 [] text256 1 1 1 1 = Inr 256 \<and>
   dameraulevenshtein_less_equal_internal mem7 text256 [] 1 1 1 1 3 = Inr 256"
proof -
  have w: "wrap (int (length text256) * 1) = 256" by (simp add: length_text256 wrap_id)
  have "single_byte_text ''a'' \<noteq> []" by (simp add: single_byte_text_def)
  moreover have "text256 \<noteq> []" using length_text256 by auto
  moreover have "length text256 > 255" by (simp add: length_text256)
  ultimately show ?thesis
    using input_too_long [of "single_byte_text ''a''" text256 mem7 1 1 1 1 3 1]
      input_too_long [of "[]" text256 mem7 1 1 1 1 3 1]
      input_too_long [of text256 "[]" mem7 1 1 1 1 3 1]
    unfolding w by blast
qed

text \<open>
  Claim C10. Setting up the window never divides by zero: the division by
  \<open>ins_c + del_c\<close> is made only under the test \<open>ins_c + del_c > 0\<close>, so no call ends in
  \<open>DivisionByZero\<close>. With non-negative costs, \<open>ins_c + del_c = 0\<close> and a bound \<open>max_d \<ge> 0\<close>,
  the bound is not rejected, the substitution cost is capped to 0, the theoretical maximum
  equals the theoretical minimum 0, and the window is switched off (\<open>max_d\<close> becomes -1 and
  the stop column stays \<open>m + 1\<close>) before the branch with the division.
\<close>

theorem stop_column_division_safe:
  "init_window m n ins_c del_c sub_c max_d \<noteq> Inl DivisionByZero \<and>
   dameraulevenshtein_less_equal_internal mem s t ins_c del_c sub_c trans_c max_d
     \<noteq> Inl DivisionByZero \<and>
   (0 \<le> ins_c \<and> 0 \<le> del_c \<and> 0 \<le> sub_c \<and> ins_c + del_c = 0 \<and> 0 \<le> max_d \<longrightarrow>
      init_window m n ins_c del_c sub_c max_d = Inr (Proceed (- 1) 0 (int m + 1)))"
proof -
  have "dameraulevenshtein_less_equal_internal mem s t ins_c del_c sub_c trans_c max_d
          \<noteq> Inl DivisionByZero"
    using init_window_no_error [of "length s" "length t" ins_c del_c sub_c max_d]
    by (auto simp add: dameraulevenshtein_less_equal_internal_def pg_mbstrlen_with_len_def
        Let_def split: sum.splits bound_setup.splits)
  moreover have "init_window m n ins_c del_c sub_c max_d = Inr (Proceed (- 1) 0 (int m + 1))"
    if "0 \<le> ins_c" "0 \<le> del_c" "0 \<le> sub_c" "ins_c + del_c = 0" "0 \<le> max_d"
  proof -
    from that have "ins_c = 0" "del_c = 0" by simp_all
    with that show ?thesis by (simp add: init_window_def Let_def wrap_0)
  qed
  ultimately show ?thesis
    using init_window_no_division_by_zero [of m n ins_c del_c sub_c max_d] by blast
qed

theorem stop_column_division_safe_witness:
  "(0::int) \<le> 0 \<and> (0::int) \<le> 5 \<and> (0::int) + 0 = 0 \<and> (0::int) \<le> 1 \<and>
   init_window 2 3 0 0 5 1 = Inr (Proceed (- 1) 0 (int 2 + 1))"
  using stop_column_division_safe [of 2 3 0 0 5 1 mem7 "[]" "[]" 1]
  by simp


section \<open>The distance of the two-row engine\<close>

text \<open>
  Claim C2, as the code has it. The sums and products are taken in a C \<open>int\<close>: for the
  texts aa and aa, which are at distance 0, with an insertion and a substitution cost of 1
  and a deletion cost of \<open>2^30\<close>, the first row already overflows and the call returns
  \<open>-2147483646\<close>.
\<close>

theorem two_row_overflow_counterexample:
  "dameraulevenshtein_internal mem7 (single_byte_text ''aa'') (single_byte_text ''aa'')
     1 1073741824 1 1 = Inr (- 2147483646) \<and>
   apply_script [Keep, Keep] (single_byte_text ''aa'') = Some (single_byte_text ''aa'') \<and>
   script_cost 1 1073741824 1 [Keep, Keep :: mbchar edit_op] = 0 \<and>
   (Inr (- 2147483646) :: error + int) \<noteq> Inr 0"
proof -
  have "dameraulevenshtein_internal mem7 (single_byte_text ''aa'') (single_byte_text ''aa'')
     1 1073741824 1 1 = Inr (- 2147483646)"
    by code_simp
  then show ?thesis by (simp add: single_byte_text_def script_cost_def)
qed

text \<open>
  Claim C2, amended. For texts of \<open>m\<close> and \<open>n\<close> characters, at most 255 each, and
  non-negative costs of at most \<open>C\<close> with \<open>(m + n + 1) * C \<le> 2147483647\<close> (so that no value
  overflows a 32-bit \<open>int\<close>; costs up to 4202512 do for all lengths), the two-row engine
  returns a value that is the total cost of an edit script (insertions, deletions and
  substitutions of single characters, a character being the whole of its bytes) that
  transforms the source into the target, and no such script is cheaper. With unit costs
  the distance from kitten to sitting is 3, from flaw to lawn 2, from the empty text to
  itself 0 and from abc to itself 0; and a source that has one character more than the
  target, of whatever byte width, is at distance 1. All of this holds for every content of
  the allocated memory.
\<close>

theorem two_row_minimum_penalty:
  "(0 \<le> ins_c \<and> ins_c \<le> C \<and> 0 \<le> del_c \<and> del_c \<le> C \<and> 0 \<le> sub_c \<and> sub_c \<le> C \<and>
    (int (length s) + int (length t) + 1) * C \<le> 2147483647 \<and>
    length s \<le> 255 \<and> length t \<le> 255 \<longrightarrow>
      (\<exists>d. dameraulevenshtein_internal mem s t ins_c del_c sub_c trans_c = Inr d \<and>
           (\<exists>es. apply_script es s = Some t \<and> script_cost ins_c del_c sub_c es = d) \<and>
           (\<forall>es. apply_script es s = Some t \<longrightarrow> d \<le> script_cost ins_c del_c sub_c es))) \<and>
   dameraulevenshtein_internal mem (single_byte_text ''kitten'') (single_byte_text ''sitting'')
     1 1 1 trans_c = Inr 3 \<and>
   dameraulevenshtein_internal mem (single_byte_text ''flaw'') (single_byte_text ''lawn'')
     1 1 1 trans_c = Inr 2 \<and>
   dameraulevenshtein_internal mem (single_byte_text '''') (single_byte_text '''')
     1 1 1 trans_c = Inr 0 \<and>
   dameraulevenshtein_internal mem (single_byte_text ''abc'') (single_byte_text ''abc'')
     1 1 1 trans_c = Inr 0 \<and>
   (length (u @ c # v) \<le> 255 \<longrightarrow>
      dameraulevenshtein_internal mem (u @ c # v) (u @ v) 1 1 1 trans_c = Inr 1)"
proof (intro conjI impI)
  assume a: "0 \<le> ins_c \<and> ins_c \<le> C \<and> 0 \<le> del_c \<and> del_c \<le> C \<and> 0 \<le> sub_c \<and> sub_c \<le> C \<and>
    (int (length s) + int (length t) + 1) * C \<le> 2147483647 \<and>
    length s \<le> 255 \<and> length t \<le> 255"
  let ?d = "matrix_cell ins_c del_c sub_c s t (length s) (length t)"
  have "dameraulevenshtein_internal mem s t ins_c del_c sub_c trans_c
        = dameraulevenshtein_internal_exact mem s t ins_c del_c sub_c trans_c"
    using a by (intro internal_no_overflow [of ins_c C]) simp_all
  then have "dameraulevenshtein_internal mem s t ins_c del_c sub_c trans_c = Inr ?d"
    using a by (simp add: internal_total)
  moreover have "\<exists>es. apply_script es s = Some t \<and> script_cost ins_c del_c sub_c es = ?d"
    using script_exists [of "length s" s "length t" t ins_c del_c sub_c] by simp
  moreover have "\<forall>es. apply_script es s = Some t \<longrightarrow> ?d \<le> script_cost ins_c del_c sub_c es"
    using a by (simp add: script_not_cheaper)
  ultimately show "\<exists>d. dameraulevenshtein_internal mem s t ins_c del_c sub_c trans_c = Inr d \<and>
           (\<exists>es. apply_script es s = Some t \<and> script_cost ins_c del_c sub_c es = d) \<and>
           (\<forall>es. apply_script es s = Some t \<longrightarrow> d \<le> script_cost ins_c del_c sub_c es)"
    by blast
next
  show "dameraulevenshtein_internal mem (single_byte_text ''kitten'') (single_byte_text ''sitting'')
     1 1 1 trans_c = Inr 3"
    using unit_costs_exact [of "single_byte_text ''kitten''" "single_byte_text ''sitting''" mem trans_c]
      internal_any_mem [of "single_byte_text ''kitten''" "single_byte_text ''sitting''"
        mem 1 1 1 trans_c mem7 1] kitten_sitting_mem7
    by (simp add: single_byte_text_def)
next
  show "dameraulevenshtein_internal mem (single_byte_text ''flaw'') (single_byte_text ''lawn'')
     1 1 1 trans_c = Inr 2"
    using unit_costs_exact [of "single_byte_text ''flaw''" "single_byte_text ''lawn''" mem trans_c]
      internal_any_mem [of "single_byte_text ''flaw''" "single_byte_text ''lawn''"
        mem 1 1 1 trans_c mem7 1] flaw_lawn_mem7
    by (simp add: single_byte_text_def)
next
  show "dameraulevenshtein_internal mem (single_byte_text '''') (single_byte_text '''')
     1 1 1 trans_c = Inr 0"
    by (simp add: single_byte_text_def dameraulevenshtein_internal_def pg_mbstrlen_with_len_def
        wrap_0)
next
  show "dameraulevenshtein_internal mem (single_byte_text ''abc'') (single_byte_text ''abc'')
     1 1 1 trans_c = Inr 0"
    using unit_costs_exact [of "single_byte_text ''abc''" "single_byte_text ''abc''" mem trans_c]
      internal_any_mem [of "single_byte_text ''abc''" "single_byte_text ''abc''"
        mem 1 1 1 trans_c mem7 1] abc_abc_mem7
    by (simp add: single_byte_text_def)
next
  assume "length (u @ c # v) \<le> 255"
  then have l: "length (u @ c # v) \<le> 255" "length (u @ v) \<le> 255" by simp_all
  then have "dameraulevenshtein_internal_exact mem (u @ c # v) (u @ v) 1 1 1 trans_c = Inr 1"
    using one_character_more [of u c v] by (simp only: internal_total)
  then show "dameraulevenshtein_internal mem (u @ c # v) (u @ v) 1 1 1 trans_c = Inr 1"
    using unit_costs_exact [OF l, of mem trans_c] by simp
qed

theorem two_row_minimum_penalty_witness:
  "(0::int) \<le> 1 \<and> (1::int) \<le> 1 \<and>
   (int (length [MBChar (CHR ''a'') [], MBChar (CHR 0xC3) [CHR 0xA9]])
      + int (length [MBChar (CHR ''a'') []]) + 1) * 1 \<le> (2147483647 :: int) \<and>
   length [MBChar (CHR ''a'') [], MBChar (CHR 0xC3) [CHR 0xA9]] \<le> 255 \<and>
   length [MBChar (CHR ''a'') []] \<le> 255 \<and>
   (\<exists>d. dameraulevenshtein_internal mem7 [MBChar (CHR ''a'') [], MBChar (CHR 0xC3) [CHR 0xA9]]
          [MBChar (CHR ''a'') []] 1 1 1 1 = Inr d \<and>
        (\<exists>es. apply_script es [MBChar (CHR ''a'') [], MBChar (CHR 0xC3) [CHR 0xA9]]
                = Some [MBChar (CHR ''a'') []] \<and> script_cost 1 1 1 es = d) \<and>
        (\<forall>es. apply_script es [MBChar (CHR ''a'') [], MBChar (CHR 0xC3) [CHR 0xA9]]
                = Some [MBChar (CHR ''a'') []] \<longrightarrow> d \<le> script_cost 1 1 1 es)) \<and>
   dameraulevenshtein_internal mem7 [MBChar (CHR ''a'') [], MBChar (CHR 0xC3) [CHR 0xA9]]
          [MBChar (CHR ''a'') []] 1 1 1 1 = Inr 1"
  using two_row_minimum_penalty [of 1 1 1 1 "[MBChar (CHR ''a'') [], MBChar (CHR 0xC3) [CHR 0xA9]]"
      "[MBChar (CHR ''a'') []]" mem7 1 "[MBChar (CHR ''a'') []]" "MBChar (CHR 0xC3) [CHR 0xA9]" "[]"]
  by auto

text \<open>
  Claim C9. With unit costs the distance of the two-row engine without a bound is
  symmetric for texts of at most 255 characters each, whatever the contents of the
  allocated memory and the transposition costs of the two runs are.
\<close>

theorem unit_cost_symmetry:
  "length s \<le> 255 \<Longrightarrow> length t \<le> 255 \<Longrightarrow>
   dameraulevenshtein_internal mem s t 1 1 1 trans_c
     = dameraulevenshtein_internal mem' t s 1 1 1 trans_c'"
  using matrix_cell_transpose [of 1 1 1 s t "length s" "length t"]
  by (simp add: unit_costs_exact internal_total)

theorem unit_cost_symmetry_witness:
  "length (single_byte_text ''kitten'') \<le> 255 \<and> length (single_byte_text ''sitting'') \<le> 255 \<and>
   dameraulevenshtein_internal mem7 (single_byte_text ''kitten'') (single_byte_text ''sitting'') 1 1 1 1
     = dameraulevenshtein_internal mem7 (single_byte_text ''sitting'') (single_byte_text ''kitten'') 1 1 1 1"
  using unit_cost_symmetry [of "single_byte_text ''kitten''" "single_byte_text ''sitting''" mem7 1 mem7 1]
  by (simp add: single_byte_text_def)


section \<open>The three-row engine\<close>

text \<open>
  Claim C8, as the code has it. The sums are taken in a C \<open>int\<close>: for the texts a and b with
  insertion and deletion costs of \<open>2^30\<close> and substitution and transposition costs of 1,
  the first row is 0, \<open>2^30\<close> and the second row starts with \<open>2^30\<close>; the substitution gives
  \<open>0 + 1\<close>, the deletion and the insertion \<open>2^30 + 2^30\<close> each, whose minimum is 1, but the
  two sums overflow, the cell is left with \<open>-2147483648\<close>, and that is what the engine
  returns.
\<close>

theorem three_row_overflow_counterexample:
  "swap_cells ''a'' ''b'' 1073741824 1073741824 1 1 1 0 [7, 7] [0, 1073741824] 0 [1073741824, 7] ! (0 + 1)
     = - 2147483648 \<and>
   min (min ([0, 1073741824] ! 0 + (1::int)) ([0, 1073741824] ! (0 + 1) + 1073741824))
       ([1073741824, 7] ! 0 + 1073741824) = (1::int) \<and>
   dameraulevenshtein_internal_noncompatible mem7 (single_byte_text ''a'') (single_byte_text ''b'')
     1073741824 1073741824 1 1 = - 2147483648"
proof -
  have "swap_cells ''a'' ''b'' 1073741824 1073741824 1 1 1 0 [7, 7] [0, 1073741824] 0 [1073741824, 7]
          = [1073741824, - 2147483648]"
    by code_simp
  moreover have "dameraulevenshtein_internal_noncompatible mem7 (single_byte_text ''a'')
      (single_byte_text ''b'') 1073741824 1073741824 1 1 = - 2147483648"
    by code_simp
  ultimately show ?thesis by simp
qed

text \<open>
  Claim C8, amended. In a pass over a row in which the costs are non-negative and at most
  \<open>C\<close>, the rows above hold values from 0 to \<open>U\<close>, the first cell of the row holds a value
  from 0 to \<open>U + C\<close>, and \<open>U + 2 * C \<le> 2147483647\<close>, so that no sum overflows, the three-row
  engine leaves in each cell \<open>row2[j + 1]\<close> the minimum of the substitution (\<open>row1[j]\<close>, plus
  the substitution cost on a mismatch), of the transposition (\<open>row0[j - 1]\<close> plus the
  transposition cost, only when \<open>i > 0\<close>, \<open>j > 0\<close> and the two adjacent bytes are swapped
  matches), of the deletion (\<open>row1[j + 1]\<close> plus the deletion cost) and of the insertion
  (\<open>row2[j]\<close> plus the insertion cost). For texts of \<open>m\<close> and \<open>n\<close> characters and non-negative
  costs of at most \<open>C\<close> with \<open>(m + n + 1) * C \<le> 2147483647\<close>, the result of the engine is the
  corner of the matrix that this recurrence defines. With unit costs it gives 1 for ab and
  ba; with a transposition that costs at least 2 it gives 2, as the two-row engine does,
  which has no transposition.
\<close>

theorem three_row_recurrence:
  "(j < len2 \<and> len2 < length row2 \<and>
    0 \<le> ins_c \<and> ins_c \<le> C \<and> 0 \<le> del_c \<and> del_c \<le> C \<and> 0 \<le> sub_c \<and> sub_c \<le> C \<and>
    0 \<le> trans_c \<and> trans_c \<le> C \<and> U + 2 * C \<le> 2147483647 \<and>
    (\<forall>k\<le>len2. 0 \<le> row1 ! k \<and> row1 ! k \<le> U) \<and>
    (i > 0 \<longrightarrow> (\<forall>k\<le>len2. 0 \<le> row0 ! k \<and> row0 ! k \<le> U)) \<and>
    0 \<le> row2 ! 0 \<and> row2 ! 0 \<le> U + C \<longrightarrow>
      swap_cells string1 string2 ins_c del_c sub_c trans_c len2 i row0 row1 0 row2 ! (j + 1)
        = (let substitution = row1 ! j + (if string1 ! i \<noteq> string2 ! j then sub_c else 0);
               deletion = row1 ! (j + 1) + del_c;
               insertion = swap_cells string1 string2 ins_c del_c sub_c trans_c len2 i row0 row1 0 row2 ! j
                             + ins_c
           in if i > 0 \<and> j > 0 \<and> string1 ! (i - 1) = string2 ! j \<and> string1 ! i = string2 ! (j - 1)
              then min (min (min substitution (row0 ! (j - 1) + trans_c)) deletion) insertion
              else min (min substitution deletion) insertion)) \<and>
   (0 \<le> ins_c \<and> ins_c \<le> C \<and> 0 \<le> del_c \<and> del_c \<le> C \<and> 0 \<le> sub_c \<and> sub_c \<le> C \<and>
    0 \<le> trans_c \<and> trans_c \<le> C \<and> (int (length s) + int (length t) + 1) * C \<le> 2147483647 \<longrightarrow>
      dameraulevenshtein_internal_noncompatible mem s t ins_c del_c sub_c trans_c
        = swap_matrix ins_c del_c sub_c trans_c (bytes_from s 0) (bytes_from t 0)
            (length s) (length t)) \<and>
   dameraulevenshtein_internal_noncompatible mem (single_byte_text ''ab'') (single_byte_text ''ba'')
     1 1 1 1 = 1 \<and>
   (2 \<le> trans_c \<and> trans_c \<le> 2147483647 \<longrightarrow>
      dameraulevenshtein_internal_noncompatible mem (single_byte_text ''ab'') (single_byte_text ''ba'')
        1 1 1 trans_c = 2) \<and>
   dameraulevenshtein_internal mem (single_byte_text ''ab'') (single_byte_text ''ba'') 1 1 1 trans_c
     = Inr 2"
proof (intro conjI impI)
  assume a: "j < len2 \<and> len2 < length row2 \<and>
    0 \<le> ins_c \<and> ins_c \<le> C \<and> 0 \<le> del_c \<and> del_c \<le> C \<and> 0 \<le> sub_c \<and> sub_c \<le> C \<and>
    0 \<le> trans_c \<and> trans_c \<le> C \<and> U + 2 * C \<le> 2147483647 \<and>
    (\<forall>k\<le>len2. 0 \<le> row1 ! k \<and> row1 ! k \<le> U) \<and>
    (i > 0 \<longrightarrow> (\<forall>k\<le>len2. 0 \<le> row0 ! k \<and> row0 ! k \<le> U)) \<and>
    0 \<le> row2 ! 0 \<and> row2 ! 0 \<le> U + C"
  then have first: "\<forall>k\<le>0. 0 \<le> row2 ! k \<and> row2 ! k \<le> U + C" by simp
  have "swap_cells string1 string2 ins_c del_c sub_c trans_c len2 i row0 row1 0 row2
        = swap_cells_exact string1 string2 ins_c del_c sub_c trans_c len2 i row0 row1 0 row2"
    using swap_cells_no_overflow [of ins_c C del_c sub_c trans_c U len2 row1 i row0 0 row2
        string1 string2] a first
    by blast
  then show "swap_cells string1 string2 ins_c del_c sub_c trans_c len2 i row0 row1 0 row2 ! (j + 1)
        = (let substitution = row1 ! j + (if string1 ! i \<noteq> string2 ! j then sub_c else 0);
               deletion = row1 ! (j + 1) + del_c;
               insertion = swap_cells string1 string2 ins_c del_c sub_c trans_c len2 i row0 row1 0 row2 ! j
                             + ins_c
           in if i > 0 \<and> j > 0 \<and> string1 ! (i - 1) = string2 ! j \<and> string1 ! i = string2 ! (j - 1)
              then min (min (min substitution (row0 ! (j - 1) + trans_c)) deletion) insertion
              else min (min substitution deletion) insertion)"
    using swap_cells_cell [of 0 j len2 row2 string1 string2 ins_c del_c sub_c trans_c i row0 row1] a
    by (simp add: swap_cell_value_def)
next
  assume "0 \<le> ins_c \<and> ins_c \<le> C \<and> 0 \<le> del_c \<and> del_c \<le> C \<and> 0 \<le> sub_c \<and> sub_c \<le> C \<and>
    0 \<le> trans_c \<and> trans_c \<le> C \<and> (int (length s) + int (length t) + 1) * C \<le> 2147483647"
  then have "dameraulevenshtein_internal_noncompatible mem s t ins_c del_c sub_c trans_c
        = dameraulevenshtein_internal_noncompatible_exact mem s t ins_c del_c sub_c trans_c"
    by (intro noncompatible_no_overflow [of ins_c C]) simp_all
  then show "dameraulevenshtein_internal_noncompatible mem s t ins_c del_c sub_c trans_c
     = swap_matrix ins_c del_c sub_c trans_c (bytes_from s 0) (bytes_from t 0) (length s) (length t)"
    by (simp only: noncompatible_matrix)
next
  show "dameraulevenshtein_internal_noncompatible mem (single_byte_text ''ab'')
      (single_byte_text ''ba'') 1 1 1 1 = 1"
    by (rule noncompatible_ab_ba_unit)
next
  assume "2 \<le> trans_c \<and> trans_c \<le> 2147483647"
  then show "dameraulevenshtein_internal_noncompatible mem (single_byte_text ''ab'')
      (single_byte_text ''ba'') 1 1 1 trans_c = 2"
    by (intro noncompatible_ab_ba_costly) simp_all
next
  show "dameraulevenshtein_internal mem (single_byte_text ''ab'') (single_byte_text ''ba'') 1 1 1 trans_c
     = Inr 2"
    using unit_costs_exact [of "single_byte_text ''ab''" "single_byte_text ''ba''" mem trans_c]
      internal_any_mem [of "single_byte_text ''ab''" "single_byte_text ''ba''"
        mem 1 1 1 trans_c mem7 1] ab_ba_mem7
    by (simp add: single_byte_text_def)
qed

theorem three_row_recurrence_witness:
  "(1::nat) < 2 \<and> 2 < length [2, 7, 7 :: int] \<and> (0::int) \<le> 1 \<and> (2::int) + 2 * 1 \<le> 2147483647 \<and>
   list_all (\<lambda>v. 0 \<le> v \<and> v \<le> 2) [1, 1, 1 :: int] \<and>
   list_all (\<lambda>v. 0 \<le> v \<and> v \<le> 2) [0, 1, 2 :: int] \<and>
   (0::int) \<le> [2, 7, 7] ! 0 \<and> [2, 7, 7 :: int] ! 0 \<le> 2 + 1 \<and>
   swap_cells ''ab'' ''ba'' 1 1 1 1 2 1 [0, 1, 2] [1, 1, 1] 0 [2, 7, 7] ! (1 + 1) = 1 \<and>
   (2::int) \<le> 2 \<and> (2::int) \<le> 2147483647 \<and>
   dameraulevenshtein_internal_noncompatible mem7 (single_byte_text ''ab'') (single_byte_text ''ba'')
     1 1 1 2 = 2"
proof -
  have a: "swap_cells ''ab'' ''ba'' 1 1 1 1 2 (Suc 0) [0, 1, 2] [1, 1, 1] 0 [2, 7, 7] ! Suc 0 = 1"
    by code_simp
  have r: "\<forall>k\<le>2. 0 \<le> [1, 1, 1 :: int] ! k \<and> [1, 1, 1 :: int] ! k \<le> 2"
    "\<forall>k\<le>2. 0 \<le> [0, 1, 2 :: int] ! k \<and> [0, 1, 2 :: int] ! k \<le> 2"
    by (simp_all add: nth_Cons' le_Suc_eq numeral_2_eq_2)
  show ?thesis
    using three_row_recurrence [of 1 2 "[2, 7, 7]" 1 1 1 1 1 2 "[1, 1, 1]" 1 "[0, 1, 2]" "''ab''" "''ba''"
        "[]" "[]" mem7]
      three_row_recurrence [of 1 2 "[2, 7, 7]" 1 1 1 1 2 2 "[1, 1, 1]" 1 "[0, 1, 2]" "''ab''" "''ba''"
        "[]" "[]" mem7]
      r
    by (simp add: a)
qed


section \<open>The bounded two-row engine\<close>

text \<open>
  Claim C1, as the code has it. The two returns for an empty text come before anything
  that looks at the bound: with an empty source, the target abc, unit costs and the bound
  1 the bounded variant returns the exact distance 3, not \<open>min 3 (1 + 1)\<close>. And the sums are
  taken in a C \<open>int\<close>: for the texts a and b with three costs of \<open>2^30\<close>, whose distance is
  the cost \<open>2^30\<close> of one substitution (the corner of the notional matrix), and the bound 5
  the start overflows and the call returns \<open>-2147483648\<close>, not \<open>min 2^30 (5 + 1)\<close>.
\<close>

theorem bounded_empty_source_counterexample:
  "dameraulevenshtein_internal mem7 [] (single_byte_text ''abc'') 1 1 1 1 = Inr 3 \<and>
   dameraulevenshtein_less_equal_internal mem7 [] (single_byte_text ''abc'') 1 1 1 1 1 = Inr 3 \<and>
   Inr 3 \<noteq> (Inr (min 3 (1 + 1)) :: error + int) \<and>
   dameraulevenshtein_less_equal_internal mem7 (single_byte_text ''a'') (single_byte_text ''b'')
     1073741824 1073741824 1073741824 1 5 = Inr (- 2147483648) \<and>
   matrix_cell 1073741824 1073741824 1073741824 (single_byte_text ''a'') (single_byte_text ''b'') 1 1
     = 1073741824 \<and>
   Inr (- 2147483648) \<noteq> (Inr (min 1073741824 (5 + 1)) :: error + int)"
proof -
  have a: "dameraulevenshtein_internal mem7 [] (single_byte_text ''abc'') 1 1 1 1 = Inr 3"
    "dameraulevenshtein_less_equal_internal mem7 [] (single_byte_text ''abc'') 1 1 1 1 1 = Inr 3"
    "dameraulevenshtein_less_equal_internal mem7 (single_byte_text ''a'') (single_byte_text ''b'')
       1073741824 1073741824 1073741824 1 5 = Inr (- 2147483648)"
    by code_simp+
  have b: "matrix_cell 1073741824 1073741824 1073741824 (single_byte_text ''a'') (single_byte_text ''b'')
      (Suc 0) (Suc 0) = 1073741824"
    by (simp add: single_byte_text_def)
  show ?thesis using a b by simp
qed

text \<open>
  Claim C1, amended. For non-empty texts of \<open>m\<close> and \<open>n\<close> characters, at most 255 each,
  non-negative costs of at most \<open>C\<close> with \<open>3 * (m + n + 1) * C \<le> 2147483647\<close> (so that no
  value overflows a 32-bit \<open>int\<close>; costs up to 1400837 do for all lengths) and a bound
  \<open>max_d\<close> from 0 to 2147483647, the bounded variant returns the minimum of the distance of
  the variant without a bound and \<open>max_d + 1\<close>: the exact distance when it is at most
  \<open>max_d\<close>, and exactly \<open>max_d + 1\<close> otherwise. When one of the texts is empty it returns,
  under the same conditions on the costs and the bound, the exact distance, also when that
  exceeds \<open>max_d + 1\<close>. The contents of the allocated memory of the two runs play no part.
\<close>

theorem bounded_distance:
  "0 \<le> ins_c \<Longrightarrow> ins_c \<le> C \<Longrightarrow> 0 \<le> del_c \<Longrightarrow> del_c \<le> C \<Longrightarrow> 0 \<le> sub_c \<Longrightarrow> sub_c \<le> C \<Longrightarrow>
   3 * ((int (length s) + int (length t) + 1) * C) \<le> 2147483647 \<Longrightarrow>
   0 \<le> max_d \<Longrightarrow> max_d \<le> 2147483647 \<Longrightarrow> length s \<le> 255 \<Longrightarrow> length t \<le> 255 \<Longrightarrow>
   \<exists>d. dameraulevenshtein_internal mem' s t ins_c del_c sub_c trans_c = Inr d \<and>
       dameraulevenshtein_less_equal_internal mem s t ins_c del_c sub_c trans_c max_d
         = Inr (if s = [] \<or> t = [] then d else min d (max_d + 1))"
proof -
  assume a: "0 \<le> ins_c" "ins_c \<le> C" "0 \<le> del_c" "del_c \<le> C" "0 \<le> sub_c" "sub_c \<le> C"
    and top: "3 * ((int (length s) + int (length t) + 1) * C) \<le> 2147483647"
    and b: "0 \<le> max_d" "max_d \<le> 2147483647" and l: "length s \<le> 255" "length t \<le> 255"
  have "0 \<le> (int (length s) + int (length t) + 1) * C" using a(1,2) by simp
  with top have top1: "(int (length s) + int (length t) + 1) * C \<le> 2147483647" by linarith
  have "dameraulevenshtein_internal mem' s t ins_c del_c sub_c trans_c
        = dameraulevenshtein_internal_exact mem' s t ins_c del_c sub_c trans_c"
    using a top1 by (rule internal_no_overflow)
  moreover have "dameraulevenshtein_less_equal_internal mem s t ins_c del_c sub_c trans_c max_d
        = dameraulevenshtein_less_equal_internal_exact mem s t ins_c del_c sub_c trans_c max_d"
    using a b top by (rule less_equal_no_overflow)
  ultimately show ?thesis
    using bounded_distance_exact [OF a(1,3,5) b(1) l, of mem' trans_c mem] by simp
qed

theorem bounded_distance_witness:
  "(0::int) \<le> 1 \<and> (1::int) \<le> 1 \<and>
   3 * ((int (length (single_byte_text ''kitten'')) + int (length (single_byte_text ''sitting'')) + 1) * 1)
     \<le> (2147483647 :: int) \<and>
   (0::int) \<le> 2 \<and> (2::int) \<le> 2147483647 \<and>
   length (single_byte_text ''kitten'') \<le> 255 \<and> length (single_byte_text ''sitting'') \<le> 255 \<and>
   dameraulevenshtein_internal mem7 (single_byte_text ''kitten'') (single_byte_text ''sitting'')
     1 1 1 1 = Inr 3 \<and>
   dameraulevenshtein_less_equal_internal mem7 (single_byte_text ''kitten'')
     (single_byte_text ''sitting'') 1 1 1 1 5 = Inr 3 \<and>
   dameraulevenshtein_less_equal_internal mem7 (single_byte_text ''kitten'')
     (single_byte_text ''sitting'') 1 1 1 1 2 = Inr (min 3 (2 + 1)) \<and>
   dameraulevenshtein_less_equal_internal mem7 (single_byte_text ''kitten'')
     (single_byte_text ''sitting'') 1 1 1 1 1 = Inr (min 3 (1 + 1)) \<and>
   dameraulevenshtein_less_equal_internal mem7 (single_byte_text ''kitten'') [] 1 1 1 1 1 = Inr 6"
proof -
  have l: "length (single_byte_text ''kitten'') = 6" "length (single_byte_text ''sitting'') = 7"
    "single_byte_text ''kitten'' \<noteq> []" "single_byte_text ''sitting'' \<noteq> []"
    by (simp_all add: single_byte_text_def)
  have k: "dameraulevenshtein_internal mem7 (single_byte_text ''kitten'') (single_byte_text ''sitting'')
     1 1 1 1 = Inr 3"
    using unit_costs_exact [of "single_byte_text ''kitten''" "single_byte_text ''sitting''" mem7 1]
      kitten_sitting_mem7 by (simp add: l)
  have e: "dameraulevenshtein_internal mem7 (single_byte_text ''kitten'') [] 1 1 1 1 = Inr 6"
    by (simp add: dameraulevenshtein_internal_def pg_mbstrlen_with_len_def l Let_def wrap_id)
  show ?thesis
    using bounded_distance [of 1 1 1 1 "single_byte_text ''kitten''" "single_byte_text ''sitting''" 5
        mem7 1 mem7]
      bounded_distance [of 1 1 1 1 "single_byte_text ''kitten''" "single_byte_text ''sitting''" 2
        mem7 1 mem7]
      bounded_distance [of 1 1 1 1 "single_byte_text ''kitten''" "single_byte_text ''sitting''" 1
        mem7 1 mem7]
      bounded_distance [of 1 1 1 1 "single_byte_text ''kitten''" "[]" 1 mem7 1 mem7]
      l k e
    by simp
qed

text \<open>
  Claim C6, as the code has it. The theoretical minimum is computed in a C \<open>int\<close>: for the
  texts aaa and b with a deletion cost of \<open>2^30\<close>, unit costs otherwise and the bound 5, the
  theoretical minimum \<open>(3 - 1) * 2^30\<close> exceeds the bound, but the product overflows, the
  start does not return, switches the window off, and the call goes on to fill the rows
  and returns \<open>-2147483647\<close>, not \<open>5 + 1\<close>.
\<close>

theorem bound_overflow_counterexample:
  "(5::int) < (int (length (single_byte_text ''aaa'')) - int (length (single_byte_text ''b'')))
                * 1073741824 \<and>
   init_window (length (single_byte_text ''aaa'')) (length (single_byte_text ''b'')) 1 1073741824 1 5
     = Inr (Proceed (- 1) 1 4) \<and>
   dameraulevenshtein_less_equal_internal mem7 (single_byte_text ''aaa'') (single_byte_text ''b'')
     1 1073741824 1 1 5 = Inr (- 2147483647) \<and>
   Inr (- 2147483647) \<noteq> (Inr (5 + 1) :: error + int)"
proof -
  have "init_window (length (single_byte_text ''aaa'')) (length (single_byte_text ''b'')) 1 1073741824 1 5
     = Inr (Proceed (- 1) 1 4)"
    "dameraulevenshtein_less_equal_internal mem7 (single_byte_text ''aaa'') (single_byte_text ''b'')
     1 1073741824 1 1 5 = Inr (- 2147483647)"
    by code_simp+
  then show ?thesis by (simp add: single_byte_text_def)
qed

text \<open>
  Claim C6, amended. For non-empty texts of at most 255 characters each and a bound
  \<open>max_d \<ge> 0\<close>: if the theoretical minimum, \<open>(m - n) * del_c\<close> when \<open>n < m\<close> and
  \<open>(n - m) * ins_c\<close> otherwise, lies in the range of a 32-bit \<open>int\<close> and exceeds \<open>max_d\<close>, the
  start returns \<open>max_d + 1\<close> at once, before the rows are allocated, so the call returns
  \<open>max_d + 1\<close> whatever the memory would hold; and if, with non-negative costs of at most \<open>C\<close>
  where \<open>3 * (m + n + 1) * C \<le> 2147483647\<close> and with \<open>max_d \<le> 2147483647\<close>, the bound is at
  least that minimum plus \<open>min sub_c (ins_c + del_c) * min m n\<close>, the start sets \<open>max_d\<close> to
  -1 and leaves the stop column at \<open>m + 1\<close>, and the call returns what the variant without
  a bound returns.
\<close>

theorem bound_decided_at_entry:
  "(s \<noteq> [] \<and> t \<noteq> [] \<and> length s \<le> 255 \<and> length t \<le> 255 \<and> 0 \<le> max_d \<and>
    max_d < (if length t < length s then (int (length s) - int (length t)) * del_c
             else (int (length t) - int (length s)) * ins_c) \<and>
    (if length t < length s then (int (length s) - int (length t)) * del_c
     else (int (length t) - int (length s)) * ins_c) \<le> 2147483647 \<longrightarrow>
      init_window (length s) (length t) ins_c del_c sub_c max_d = Inr (Return_now (max_d + 1)) \<and>
      dameraulevenshtein_less_equal_internal mem s t ins_c del_c sub_c trans_c max_d
        = Inr (max_d + 1)) \<and>
   (s \<noteq> [] \<and> t \<noteq> [] \<and> length s \<le> 255 \<and> length t \<le> 255 \<and>
    0 \<le> max_d \<and> max_d \<le> 2147483647 \<and>
    0 \<le> ins_c \<and> ins_c \<le> C \<and> 0 \<le> del_c \<and> del_c \<le> C \<and> 0 \<le> sub_c \<and> sub_c \<le> C \<and>
    3 * ((int (length s) + int (length t) + 1) * C) \<le> 2147483647 \<and>
    (if length t < length s then (int (length s) - int (length t)) * del_c
     else (int (length t) - int (length s)) * ins_c)
      + min sub_c (ins_c + del_c) * int (min (length s) (length t)) \<le> max_d \<longrightarrow>
      init_window (length s) (length t) ins_c del_c sub_c max_d
        = Inr (Proceed (- 1) (min sub_c (ins_c + del_c)) (int (length s) + 1)) \<and>
      dameraulevenshtein_less_equal_internal mem s t ins_c del_c sub_c trans_c max_d
        = dameraulevenshtein_internal mem' s t ins_c del_c sub_c trans_c)"
proof (intro conjI impI)
  let ?k = "int (length t) - int (length s)"
  let ?MT = "if length t < length s then (int (length s) - int (length t)) * del_c
             else (int (length t) - int (length s)) * ins_c"
  assume a: "s \<noteq> [] \<and> t \<noteq> [] \<and> length s \<le> 255 \<and> length t \<le> 255 \<and> 0 \<le> max_d \<and>
    max_d < ?MT \<and> ?MT \<le> 2147483647"
  have e: "(if ?k < 0 then wrap (- ?k * del_c) else wrap (?k * ins_c)) = ?MT"
  proof (cases "?k < 0")
    case True
    then have "- ?k * del_c = ?MT" by simp
    moreover have "wrap ?MT = ?MT" using a by (intro wrap_nonneg) linarith+
    ultimately show ?thesis using True by simp
  next
    case False
    then have "?k * ins_c = ?MT" by simp
    moreover have "wrap ?MT = ?MT" using a by (intro wrap_nonneg) linarith+
    ultimately show ?thesis using False by simp
  qed
  have w: "wrap (max_d + 1) = max_d + 1" using a by (intro wrap_nonneg) linarith+
  show iw: "init_window (length s) (length t) ins_c del_c sub_c max_d = Inr (Return_now (max_d + 1))"
    unfolding init_window_def Let_def e w using a by simp
  show "dameraulevenshtein_less_equal_internal mem s t ins_c del_c sub_c trans_c max_d
        = Inr (max_d + 1)"
    using a
    by (simp add: dameraulevenshtein_less_equal_internal_def pg_mbstrlen_with_len_def
        MAX_DAMERAU_LEVENSHTEIN_STRLEN_def Let_def iw)
next
  assume a: "s \<noteq> [] \<and> t \<noteq> [] \<and> length s \<le> 255 \<and> length t \<le> 255 \<and>
    0 \<le> max_d \<and> max_d \<le> 2147483647 \<and>
    0 \<le> ins_c \<and> ins_c \<le> C \<and> 0 \<le> del_c \<and> del_c \<le> C \<and> 0 \<le> sub_c \<and> sub_c \<le> C \<and>
    3 * ((int (length s) + int (length t) + 1) * C) \<le> 2147483647 \<and>
    (if length t < length s then (int (length s) - int (length t)) * del_c
     else (int (length t) - int (length s)) * ins_c)
      + min sub_c (ins_c + del_c) * int (min (length s) (length t)) \<le> max_d"
  note exact = bound_decided_exact [of s t max_d del_c ins_c sub_c mem trans_c mem',
      THEN conjunct2, rule_format, of ]
  have ex: "init_window_exact (length s) (length t) ins_c del_c sub_c max_d
        = Inr (Proceed_exact (- 1) (min sub_c (ins_c + del_c)) (length s + 1))"
    "dameraulevenshtein_less_equal_internal_exact mem s t ins_c del_c sub_c trans_c max_d
        = dameraulevenshtein_internal_exact mem' s t ins_c del_c sub_c trans_c"
    using exact a by simp_all
  have iw: "init_window (length s) (length t) ins_c del_c sub_c max_d
            = (case init_window_exact (length s) (length t) ins_c del_c sub_c max_d of
                 Inl e \<Rightarrow> Inl e
               | Inr (Return_now_exact d) \<Rightarrow> Inr (Return_now d)
               | Inr (Proceed_exact B sc stop_column) \<Rightarrow> Inr (Proceed B sc (int stop_column)))"
    using a by (intro init_window_no_overflow [of ins_c C]) simp_all
  show "init_window (length s) (length t) ins_c del_c sub_c max_d
        = Inr (Proceed (- 1) (min sub_c (ins_c + del_c)) (int (length s) + 1))"
    unfolding iw ex(1) by simp
  have "0 \<le> (int (length s) + int (length t) + 1) * C" using a by simp
  with a have top1: "(int (length s) + int (length t) + 1) * C \<le> 2147483647" by linarith
  have "dameraulevenshtein_internal mem' s t ins_c del_c sub_c trans_c
        = dameraulevenshtein_internal_exact mem' s t ins_c del_c sub_c trans_c"
    using a top1 by (intro internal_no_overflow [of ins_c C]) simp_all
  moreover have "dameraulevenshtein_less_equal_internal mem s t ins_c del_c sub_c trans_c max_d
        = dameraulevenshtein_less_equal_internal_exact mem s t ins_c del_c sub_c trans_c max_d"
    using a by (intro less_equal_no_overflow [of ins_c C]) simp_all
  ultimately show "dameraulevenshtein_less_equal_internal mem s t ins_c del_c sub_c trans_c max_d
        = dameraulevenshtein_internal mem' s t ins_c del_c sub_c trans_c"
    using ex(2) by simp
qed

theorem bound_decided_at_entry_witness:
  "single_byte_text ''kitten'' \<noteq> [] \<and> single_byte_text ''sitting'' \<noteq> [] \<and>
   length (single_byte_text ''kitten'') \<le> 255 \<and> length (single_byte_text ''sitting'') \<le> 255 \<and>
   (0::int) < (int (length (single_byte_text ''sitting'')) - int (length (single_byte_text ''kitten''))) * 1 \<and>
   (int (length (single_byte_text ''sitting'')) - int (length (single_byte_text ''kitten''))) * 1
     \<le> (2147483647 :: int) \<and>
   dameraulevenshtein_less_equal_internal mem7 (single_byte_text ''kitten'')
     (single_byte_text ''sitting'') 1 1 1 1 0 = Inr (0 + 1) \<and>
   (7::int) \<le> 2147483647 \<and>
   3 * ((int (length (single_byte_text ''kitten'')) + int (length (single_byte_text ''sitting'')) + 1) * 1)
     \<le> (2147483647 :: int) \<and>
   (int (length (single_byte_text ''sitting'')) - int (length (single_byte_text ''kitten''))) * 1
     + min 1 (1 + 1) * int (min (length (single_byte_text ''kitten'')) (length (single_byte_text ''sitting'')))
     \<le> (7::int) \<and>
   init_window (length (single_byte_text ''kitten'')) (length (single_byte_text ''sitting'')) 1 1 1 7
     = Inr (Proceed (- 1) (min 1 (1 + 1)) (int (length (single_byte_text ''kitten'')) + 1)) \<and>
   dameraulevenshtein_less_equal_internal mem7 (single_byte_text ''kitten'')
     (single_byte_text ''sitting'') 1 1 1 1 7
     = dameraulevenshtein_internal mem7 (single_byte_text ''kitten'') (single_byte_text ''sitting'')
         1 1 1 1"
proof -
  have l: "length (single_byte_text ''kitten'') = 6" "length (single_byte_text ''sitting'') = 7"
    "single_byte_text ''kitten'' \<noteq> []" "single_byte_text ''sitting'' \<noteq> []"
    by (simp_all add: single_byte_text_def)
  show ?thesis
    using bound_decided_at_entry [of "single_byte_text ''kitten''" "single_byte_text ''sitting''"
        0 1 1 1 mem7 1 1 mem7]
      bound_decided_at_entry [of "single_byte_text ''kitten''" "single_byte_text ''sitting''"
        7 1 1 1 mem7 1 1 mem7]
    by (simp add: l)
qed

text \<open>
  Claim C5, as the code has it. The window does not satisfy \<open>start_column \<le> stop_column\<close> at
  every step. In the run for ab and cd with unit costs and the bound 1, the second pass
  over a row starts with the start column 1 and the stop column 2; filling moves the stop
  column to 3, and the sliding then leaves the stop column 0, left of the start column 1.
  And the stop column is not always at least 0: for texts of 3 and 5 characters, insertion
  and substitution costs of \<open>2^30\<close>, a deletion cost of 0 and the bound 0, the sums
  overflow, the start leaves the stop column -1 and the first pass would store to
  \<open>prev[-1]\<close>.
\<close>

theorem window_crossed_counterexample:
  "window_reaches mem7 (single_byte_text ''ab'') (single_byte_text ''cd'') 1 1 1 1 1 1 2
     ([2, 1, 7], [2, 2, 7], 1, 2, 0) \<and>
   slide_pass 1 1 1 (length (single_byte_text ''ab'') + 1) (length (single_byte_text ''cd'') + 1) 2
     (fill_pass (build_s_char_len (single_byte_text ''ab'') (single_byte_text ''cd''))
        (single_byte_text ''ab'') (single_byte_text ''cd'')
        (VARSIZE_ANY_EXHDR (single_byte_text ''cd'')) 1 1 1 1
        (length (single_byte_text ''ab'') + 1) (length (single_byte_text ''cd'') + 1) 2 (2 - 1)
        ([2, 1, 7], [2, 2, 7], 1, 2, 0))
     = ([2, 2, 2], [2, 1, 2], 1, 0, 0) \<and>
   \<not> (1 :: nat) \<le> 0 \<and>
   init_window 3 5 1073741824 0 1073741824 0 = Inr (Proceed 0 1073741824 (- 1)) \<and>
   dameraulevenshtein_less_equal_internal mem7 (single_byte_text ''aaa'')
     (single_byte_text ''bbbbb'') 1073741824 0 1073741824 1 0 = Inl OutOfBounds"
proof -
  have a: "window_reaches mem7 (single_byte_text ''ab'') (single_byte_text ''cd'') 1 1 1 1 1 1 2
     ([2, 1, 7], [2, 2, 7], 1, 2, 0)"
    using ab_cd_second unfolding one_add_one .
  have b: "init_window 3 5 1073741824 0 1073741824 0 = Inr (Proceed 0 1073741824 (- 1))"
    by code_simp
  have c: "dameraulevenshtein_less_equal_internal mem7 (single_byte_text ''aaa'')
     (single_byte_text ''bbbbb'') 1073741824 0 1073741824 1 0 = Inl OutOfBounds"
    by code_simp
  show ?thesis unfolding ab_cd_filled ab_cd_crossing using a b c by simp
qed

text \<open>
  Claim C5, amended. In every run of the bounded variant in which the start leaves a stop
  column that is not negative, as it does whenever the bound is at most 2147483647 and the
  costs are non-negative and at most \<open>C\<close> with \<open>3 * (m + n + 1) * C \<le> 2147483647\<close>: at the
  head of every pass of
  the loop over the rows the window satisfies \<open>0 \<le> start_column \<le> stop_column \<le> m + 1\<close>, and
  so it does after the row has been filled. After the sliding, which is done when the
  bound is in force, the start column is still at least 0 and the stop column at most
  \<open>m + 1\<close>, but the stop column may be left of the start column; whenever the start column
  is not left of the stop column then, the call returns \<open>max_d + 1\<close> at once, and otherwise
  the loop goes on to the next pass, where the invariant holds again.
\<close>

theorem window_columns_invariant:
  "window_reaches mem s t ins_c del_c sub_c max_d B sc j
     (prev, cur, start_column, stop_column, s_data) \<Longrightarrow>
   0 \<le> start_column \<and> start_column \<le> stop_column \<and> stop_column \<le> length s + 1 \<and>
   (j < length t + 1 \<longrightarrow>
      (case fill_pass (build_s_char_len s t) s t (VARSIZE_ANY_EXHDR t) ins_c del_c sc B
              (length s + 1) (length t + 1) j (j - 1)
              (prev, cur, start_column, stop_column, s_data) of
         (prev1, cur1, start1, stop1, s_data1) \<Rightarrow>
           0 \<le> start1 \<and> start1 \<le> stop1 \<and> stop1 \<le> length s + 1 \<and>
           (0 \<le> B \<longrightarrow>
              (case slide_pass ins_c del_c B (length s + 1) (length t + 1) j
                      (prev1, cur1, start1, stop1, s_data1) of
                 (prev2, cur2, start2, stop2, s_data2) \<Rightarrow>
                   0 \<le> start2 \<and> stop2 \<le> length s + 1 \<and>
                   (start2 \<ge> stop2 \<longrightarrow>
                      dameraulevenshtein_less_equal_internal mem s t ins_c del_c sub_c trans_c max_d
                        = Inr (max_d + 1)) \<and>
                   (start2 < stop2 \<longrightarrow>
                      window_reaches mem s t ins_c del_c sub_c max_d B sc (j + 1)
                        (prev2, cur2, start2, stop2, s_data2)))))) \<and>
   (0 \<le> ins_c \<and> ins_c \<le> C \<and> 0 \<le> del_c \<and> del_c \<le> C \<and> 0 \<le> sub_c \<and> sub_c \<le> C \<and>
    max_d \<le> 2147483647 \<and> 3 * ((int (length s) + int (length t) + 1) * C) \<le> 2147483647 \<longrightarrow>
      (\<forall>B' sc' stop'. init_window (length s) (length t) ins_c del_c sub_c max_d
                         = Inr (Proceed B' sc' stop') \<longrightarrow> 0 \<le> stop'))"
proof -
  assume reach: "window_reaches mem s t ins_c del_c sub_c max_d B sc j
     (prev, cur, start_column, stop_column, s_data)"
  let ?st = "(prev, cur, start_column, stop_column, s_data)"
  have cols: "start_column \<le> stop_column" "stop_column \<le> length s + 1"
    using window_reaches_columns [OF reach] by simp_all
  let ?fp = "fill_pass (build_s_char_len s t) s t (VARSIZE_ANY_EXHDR t) ins_c del_c sc B
              (length s + 1) (length t + 1) j (j - 1) ?st"
  obtain prev1 cur1 start1 stop1 s_data1
    where fp: "?fp = (prev1, cur1, start1, stop1, s_data1)" by (metis prod_cases5)
  note c1 = fill_pass_columns [OF fp cols]
  let ?sp = "slide_pass ins_c del_c B (length s + 1) (length t + 1) j
               (prev1, cur1, start1, stop1, s_data1)"
  obtain prev2 cur2 start2 stop2 s_data2
    where sp: "?sp = (prev2, cur2, start2, stop2, s_data2)" by (metis prod_cases5)
  note c2 = slide_pass_columns [OF sp]
  have row: "window_row (build_s_char_len s t) s t (VARSIZE_ANY_EXHDR t) ins_c del_c sc B
                (length s + 1) (length t + 1) j (j - 1) ?st
             = (if start2 \<ge> stop2 then Inl (wrap (B + 1))
                else Inr (prev2, cur2, start2, stop2, s_data2))"
    if "0 \<le> B"
    unfolding window_row_def Let_def fp sp using that by simp
  have cross: "dameraulevenshtein_less_equal_internal mem s t ins_c del_c sub_c trans_c max_d
                 = Inr (max_d + 1)"
    if "j < length t + 1" "0 \<le> B" "start2 \<ge> stop2"
  proof -
    have "window_rows (build_s_char_len s t) s t (VARSIZE_ANY_EXHDR t) ins_c del_c sc B
            (length s + 1) (length t + 1) j (j - 1) ?st = wrap (B + 1)"
      using that row by (subst window_rows.simps) simp
    moreover have B: "B = max_d \<and> max_d < 2147483647"
      using reach that(2) by (rule window_reaches_bound)
    moreover have "wrap (max_d + 1) = max_d + 1"
      using B that(2) by (intro wrap_nonneg) simp_all
    ultimately show ?thesis using window_reaches_run [OF reach, of trans_c] by simp
  qed
  have "next": "window_reaches mem s t ins_c del_c sub_c max_d B sc (j + 1)
                (prev2, cur2, start2, stop2, s_data2)"
    if "j < length t + 1" "0 \<le> B" "start2 < stop2"
    using reach that(1)
  proof (rule reaches_next)
    show "window_row (build_s_char_len s t) s t (VARSIZE_ANY_EXHDR t) ins_c del_c sc B
                (length s + 1) (length t + 1) j (j - 1) ?st
          = Inr (prev2, cur2, start2, stop2, s_data2)"
      using row that(2,3) by simp
  qed
  have stop: "0 \<le> stop'"
    if "0 \<le> ins_c \<and> ins_c \<le> C \<and> 0 \<le> del_c \<and> del_c \<le> C \<and> 0 \<le> sub_c \<and> sub_c \<le> C \<and>
        max_d \<le> 2147483647 \<and> 3 * ((int (length s) + int (length t) + 1) * C) \<le> 2147483647"
      and "init_window (length s) (length t) ins_c del_c sub_c max_d = Inr (Proceed B' sc' stop')"
    for B' sc' stop'
    using that(2) init_window_no_overflow [of ins_c C del_c sub_c max_d "length s" "length t"] that(1)
    by (auto split: sum.splits bound_setup_exact.splits)
  have head: "0 \<le> start_column \<and> start_column \<le> stop_column \<and> stop_column \<le> length s + 1 \<and>
   (j < length t + 1 \<longrightarrow>
      (case ?fp of
         (prev1, cur1, start1, stop1, s_data1) \<Rightarrow>
           0 \<le> start1 \<and> start1 \<le> stop1 \<and> stop1 \<le> length s + 1 \<and>
           (0 \<le> B \<longrightarrow>
              (case slide_pass ins_c del_c B (length s + 1) (length t + 1) j
                      (prev1, cur1, start1, stop1, s_data1) of
                 (prev2, cur2, start2, stop2, s_data2) \<Rightarrow>
                   0 \<le> start2 \<and> stop2 \<le> length s + 1 \<and>
                   (start2 \<ge> stop2 \<longrightarrow>
                      dameraulevenshtein_less_equal_internal mem s t ins_c del_c sub_c trans_c max_d
                        = Inr (max_d + 1)) \<and>
                   (start2 < stop2 \<longrightarrow>
                      window_reaches mem s t ins_c del_c sub_c max_d B sc (j + 1)
                        (prev2, cur2, start2, stop2, s_data2))))))"
    by (simp only: fp prod.case sp) (use cols c1 c2 cross "next" in simp)
  have tail: "0 \<le> ins_c \<and> ins_c \<le> C \<and> 0 \<le> del_c \<and> del_c \<le> C \<and> 0 \<le> sub_c \<and> sub_c \<le> C \<and>
    max_d \<le> 2147483647 \<and> 3 * ((int (length s) + int (length t) + 1) * C) \<le> 2147483647 \<longrightarrow>
      (\<forall>B' sc' stop'. init_window (length s) (length t) ins_c del_c sub_c max_d
                         = Inr (Proceed B' sc' stop') \<longrightarrow> 0 \<le> stop')"
    using stop by blast
  from head have h: "0 \<le> start_column" "start_column \<le> stop_column"
    and h': "stop_column \<le> length s + 1 \<and>
   (j < length t + 1 \<longrightarrow>
      (case ?fp of
         (prev1, cur1, start1, stop1, s_data1) \<Rightarrow>
           0 \<le> start1 \<and> start1 \<le> stop1 \<and> stop1 \<le> length s + 1 \<and>
           (0 \<le> B \<longrightarrow>
              (case slide_pass ins_c del_c B (length s + 1) (length t + 1) j
                      (prev1, cur1, start1, stop1, s_data1) of
                 (prev2, cur2, start2, stop2, s_data2) \<Rightarrow>
                   0 \<le> start2 \<and> stop2 \<le> length s + 1 \<and>
                   (start2 \<ge> stop2 \<longrightarrow>
                      dameraulevenshtein_less_equal_internal mem s t ins_c del_c sub_c trans_c max_d
                        = Inr (max_d + 1)) \<and>
                   (start2 < stop2 \<longrightarrow>
                      window_reaches mem s t ins_c del_c sub_c max_d B sc (j + 1)
                        (prev2, cur2, start2, stop2, s_data2))))))"
    by (rule conjunct1, rule conjunct2 [THEN conjunct1], rule conjunct2 [THEN conjunct2])
  from h' have h3: "stop_column \<le> length s + 1" by (rule conjunct1)
  from h' have h4: "j < length t + 1 \<longrightarrow>
      (case ?fp of
         (prev1, cur1, start1, stop1, s_data1) \<Rightarrow>
           0 \<le> start1 \<and> start1 \<le> stop1 \<and> stop1 \<le> length s + 1 \<and>
           (0 \<le> B \<longrightarrow>
              (case slide_pass ins_c del_c B (length s + 1) (length t + 1) j
                      (prev1, cur1, start1, stop1, s_data1) of
                 (prev2, cur2, start2, stop2, s_data2) \<Rightarrow>
                   0 \<le> start2 \<and> stop2 \<le> length s + 1 \<and>
                   (start2 \<ge> stop2 \<longrightarrow>
                      dameraulevenshtein_less_equal_internal mem s t ins_c del_c sub_c trans_c max_d
                        = Inr (max_d + 1)) \<and>
                   (start2 < stop2 \<longrightarrow>
                      window_reaches mem s t ins_c del_c sub_c max_d B sc (j + 1)
                        (prev2, cur2, start2, stop2, s_data2)))))"
    by (rule conjunct2)
  show ?thesis by (intro conjI) (fact h(1), fact h(2), fact h3, fact h4, fact tail)
qed

theorem window_columns_invariant_witness:
  "window_reaches mem7 (single_byte_text ''ab'') (single_byte_text ''cd'') 1 1 1 1 1 1 1
     ([0, 7, 7], [7, 7, 7], 0, 1, 0) \<and>
   (0::nat) \<le> 1 \<and> (1::nat) \<le> length (single_byte_text ''ab'') + 1 \<and>
   (1::nat) < length (single_byte_text ''cd'') + 1 \<and> (0::int) \<le> 1 \<and>
   window_reaches mem7 (single_byte_text ''ab'') (single_byte_text ''cd'') 1 1 1 1 1 1 2
     ([2, 1, 7], [2, 2, 7], 1, 2, 0) \<and>
   (1::nat) \<le> 2 \<and> (2::nat) \<le> length (single_byte_text ''ab'') + 1 \<and>
   (2::nat) < length (single_byte_text ''cd'') + 1 \<and>
   dameraulevenshtein_less_equal_internal mem7 (single_byte_text ''ab'') (single_byte_text ''cd'')
     1 1 1 1 1 = Inr (1 + 1) \<and>
   3 * ((int (length (single_byte_text ''ab'')) + int (length (single_byte_text ''cd'')) + 1) * 1)
     \<le> (2147483647 :: int) \<and>
   init_window (length (single_byte_text ''ab'')) (length (single_byte_text ''cd'')) 1 1 1 1
     = Inr (Proceed 1 1 1) \<and> (0::int) \<le> 1"
proof -
  have l: "length (single_byte_text ''cd'') = 2" "length (single_byte_text ''ab'') = 2"
    by (simp_all add: single_byte_text_def)
  have iw: "init_window (length (single_byte_text ''ab'')) (length (single_byte_text ''cd'')) 1 1 1 1
     = Inr (Proceed 1 1 1)"
    by code_simp
  have r1: "window_reaches mem7 (single_byte_text ''ab'') (single_byte_text ''cd'') 1 1 1 1 1 1 1
     ([0, 7, 7], [7, 7, 7], 0, 1, 0)"
    using ab_cd_first unfolding ab_cd_start .
  have "window_reaches mem7 (single_byte_text ''ab'') (single_byte_text ''cd'') 1 1 1 1 1 1 (1 + 1)
     ([2, 1, 7], [2, 2, 7], 1, 2, 0)"
    using window_columns_invariant [OF r1, of 1 1] ab_cd_first_filled ab_cd_first_slid
    by (simp add: l)
  then have r2: "window_reaches mem7 (single_byte_text ''ab'') (single_byte_text ''cd'') 1 1 1 1 1 1 2
     ([2, 1, 7], [2, 2, 7], 1, 2, 0)"
    unfolding one_add_one .
  show ?thesis
    using window_columns_invariant [OF r2, of 1 1] r1 r2 ab_cd_filled ab_cd_crossing iw
    by (simp add: l)
qed


end
